(* ===== verification/Prelude.thy ===== *)
theory Prelude
  imports Main "HOL-Library.Word" "HOL-Library.Char_ord" "HOL-Library.List_Lexorder"
    "HOL-Library.AList"
begin

text \<open>
  Shared ground of the development: the Go values every package uses and the standard-library
  functions the sources call.  A Go string is a sequence of bytes, modelled as \<^typ>\<open>string\<close>
  (one character per byte); \<open>[]byte\<close> is a list of 8-bit words, with the two conversions written
  where the code writes them.  A Go map is an association list with distinct keys: the list order
  stands for the unspecified iteration order, so a result that does not depend on it is a theorem.
  The collections at the top carry the facts the component theories share.
\<close>

unbundle bit_operations_syntax

named_theorems go_str \<open>string functions of the Go library\<close>
named_theorems codec \<open>word and length codec\<close>
named_theorems inv_intros \<open>preservation of component invariants\<close>

type_synonym byte = "8 word"
type_synonym int64 = "64 word"
type_synonym 'v gomap = "(string \<times> 'v) list"
type_synonym attrs = "string gomap"

subsection \<open>Conversions between strings and byte slices\<close>

definition to_bytes :: "string \<Rightarrow> byte list" where
  "to_bytes s = map of_char s"

definition byte_char :: "byte \<Rightarrow> char" where
  "byte_char b = char_of (unat b)"

definition to_string :: "byte list \<Rightarrow> string" where
  "to_string b = map byte_char b"

lemma unat_of_char [simp]: "unat (of_char c :: byte) = of_char c"
proof -
  have "(of_char c :: byte) = word_of_nat (of_char c)"
    by (simp add: of_nat_of_char)
  then have "unat (of_char c :: byte) = of_char c mod 256"
    by (simp add: unat_of_nat)
  then show ?thesis by simp
qed

lemma byte_char_of_char [simp]: "byte_char (of_char c) = c"
  by (simp add: byte_char_def)

lemma to_string_to_bytes [simp]: "to_string (to_bytes s) = s"
  by (simp add: to_string_def to_bytes_def comp_def)

lemma length_to_bytes [simp]: "length (to_bytes s) = length s"
  by (simp add: to_bytes_def)

lemma length_to_string [simp]: "length (to_string b) = length b"
  by (simp add: to_string_def)

lemma to_bytes_append [simp]: "to_bytes (s @ t) = to_bytes s @ to_bytes t"
  by (simp add: to_bytes_def)

lemma to_bytes_Nil_iff [simp]: "to_bytes s = [] \<longleftrightarrow> s = []"
  by (simp add: to_bytes_def)

lemma to_bytes_Nil [simp]: "to_bytes [] = []"
  by (simp add: to_bytes_def)

lemma to_bytes_Cons [simp]: "to_bytes (c # s) = of_char c # to_bytes s"
  by (simp add: to_bytes_def)

lemma to_string_append [simp]: "to_string (a @ b) = to_string a @ to_string b"
  by (simp add: to_string_def)

lemma to_string_Nil [simp]: "to_string [] = []"
  by (simp add: to_string_def)

lemma of_char_byte_eq_iff [simp]: "(of_char c :: byte) = of_char d \<longleftrightarrow> c = d"
  by (metis byte_char_of_char)

lemma take_to_bytes: "take n (to_bytes s) = to_bytes (take n s)"
  by (simp add: to_bytes_def take_map)

lemma drop_to_bytes: "drop n (to_bytes s) = to_bytes (drop n s)"
  by (simp add: to_bytes_def drop_map)

lemma to_bytes_inj [simp]: "to_bytes s = to_bytes t \<longleftrightarrow> s = t"
  by (metis to_string_to_bytes)

subsection \<open>Functions of the strings and bytes packages\<close>

text \<open>\<open>strings.HasPrefix\<close> and \<open>bytes.HasPrefix\<close>.\<close>

definition has_prefix :: "'a list \<Rightarrow> 'a list \<Rightarrow> bool" where
  "has_prefix s p \<longleftrightarrow> take (length p) s = p"

lemma has_prefix_append [simp, go_str]: "has_prefix (p @ s) p"
  by (simp add: has_prefix_def)

lemma has_prefix_Nil [simp, go_str]: "has_prefix s []"
  by (simp add: has_prefix_def)

lemma has_prefix_Cons [simp, go_str]:
  "has_prefix (c # s) (d # p) \<longleftrightarrow> c = d \<and> has_prefix s p"
  by (simp add: has_prefix_def)

lemma has_prefix_Nil_Cons [simp, go_str]: "\<not> has_prefix [] (d # p)"
  by (simp add: has_prefix_def)

lemma has_prefix_iff: "has_prefix s p \<longleftrightarrow> (\<exists>r. s = p @ r)"
  by (metis append_eq_conv_conj append_take_drop_id has_prefix_def)

lemma has_prefix_to_bytes [simp, go_str]:
  "has_prefix (to_bytes s) (to_bytes p) \<longleftrightarrow> has_prefix s p"
  by (simp add: has_prefix_def take_to_bytes)

text \<open>\<open>strings.Join\<close>.\<close>

fun go_join :: "string list \<Rightarrow> string \<Rightarrow> string" where
  "go_join [] sep = []"
| "go_join [x] sep = x"
| "go_join (x # y # ys) sep = x @ sep @ go_join (y # ys) sep"

text \<open>Splitting at every character that satisfies a predicate; the result is never empty.\<close>

fun split_on :: "(char \<Rightarrow> bool) \<Rightarrow> string \<Rightarrow> string list" where
  "split_on p [] = [[]]"
| "split_on p (c # cs) =
     (if p c then [] # split_on p cs
      else (case split_on p cs of [] \<Rightarrow> [[c]] | w # ws \<Rightarrow> (c # w) # ws))"

lemma split_on_not_Nil [simp]: "split_on p s \<noteq> []"
  by (cases s) (auto split: list.splits)

lemma split_on_no_sep: "\<forall>c \<in> set w. \<not> p c \<Longrightarrow> split_on p w = [w]"
  by (induction w) auto

lemma split_on_append_sep:
  "\<forall>c \<in> set w. \<not> p c \<Longrightarrow> p d \<Longrightarrow> split_on p (w @ d # s) = w # split_on p s"
  by (induction w) auto

lemma split_on_pieces: "w \<in> set (split_on p s) \<Longrightarrow> c \<in> set w \<Longrightarrow> \<not> p c"
proof (induction s arbitrary: w)
  case Nil
  then show ?case by simp
next
  case (Cons d s)
  obtain v vs where vs: "split_on p s = v # vs"
    by (meson neq_Nil_conv split_on_not_Nil)
  with Cons show ?case by (fastforce split: if_splits)
qed

lemma split_on_subset: "w \<in> set (split_on p s) \<Longrightarrow> set w \<subseteq> set s"
proof (induction s arbitrary: w)
  case (Cons d s)
  obtain v vs where vs: "split_on p s = v # vs"
    by (meson neq_Nil_conv split_on_not_Nil)
  with Cons show ?case by (fastforce split: if_splits)
qed simp

lemma go_join_set: "c \<in> set (go_join ws sep) \<Longrightarrow> c \<in> set sep \<or> (\<exists>w \<in> set ws. c \<in> set w)"
  by (induction ws sep rule: go_join.induct) auto

text \<open>
  \<open>strings.FieldsFunc\<close>: the maximal runs of characters that do not satisfy the predicate, and
  \<open>strings.Split\<close> at a single-byte separator.
\<close>

definition fields_func :: "(char \<Rightarrow> bool) \<Rightarrow> string \<Rightarrow> string list" where
  "fields_func p s = filter (\<lambda>w. w \<noteq> []) (split_on p s)"

definition split_byte :: "char \<Rightarrow> string \<Rightarrow> string list" where
  "split_byte d s = split_on (\<lambda>c. c = d) s"

lemma fields_func_nonempty: "w \<in> set (fields_func p s) \<Longrightarrow> w \<noteq> []"
  by (simp add: fields_func_def)

lemma fields_func_pieces: "w \<in> set (fields_func p s) \<Longrightarrow> c \<in> set w \<Longrightarrow> \<not> p c"
  by (auto simp: fields_func_def dest: split_on_pieces)

text \<open>\<open>strings.ReplaceAll\<close> with a non-empty pattern, scanning from the left.\<close>

function replace_all :: "string \<Rightarrow> string \<Rightarrow> string \<Rightarrow> string" where
  "replace_all [] old new = []"
| "replace_all (c # cs) old new =
     (if old \<noteq> [] \<and> has_prefix (c # cs) old
      then new @ replace_all (drop (length old) (c # cs)) old new
      else c # replace_all cs old new)"
  by pat_completeness auto
termination
  by (relation "measure (\<lambda>(s, old, new). length s)") (auto simp: neq_Nil_conv)

lemma replace_all_single [go_str]:
  "replace_all s [d] new = concat (map (\<lambda>c. if c = d then new else [c]) s)"
  by (induction s) auto

text \<open>
  \<open>strings.TrimRight\<close> with an ASCII cut set, and \<open>strings.IndexByte\<close> used to cut a string
  before a byte (\<open>v[:IndexByte(v, d)]\<close>).
\<close>

definition trim_right :: "string \<Rightarrow> string \<Rightarrow> string" where
  "trim_right s cutset = rev (dropWhile (\<lambda>c. c \<in> set cutset) (rev s))"

definition index_byte :: "string \<Rightarrow> char \<Rightarrow> int" where
  "index_byte s d = (let n = length (takeWhile (\<lambda>c. c \<noteq> d) s)
                     in if n < length s then int n else - 1)"

lemma index_byte_cut:
  "index_byte s d \<noteq> - 1 \<Longrightarrow> take (nat (index_byte s d)) s = takeWhile (\<lambda>c. c \<noteq> d) s"
  by (simp add: index_byte_def Let_def takeWhile_eq_take [symmetric] split: if_splits)

lemma index_byte_none: "index_byte s d = - 1 \<longleftrightarrow> d \<notin> set s"
proof -
  have "length (takeWhile (\<lambda>c. c \<noteq> d) s) < length s \<longleftrightarrow> d \<in> set s"
    by (induction s) auto
  then show ?thesis by (simp add: index_byte_def Let_def)
qed

text \<open>\<open>strings.ContainsAny\<close> with an ASCII set.\<close>

definition contains_any :: "string \<Rightarrow> string \<Rightarrow> bool" where
  "contains_any s cs \<longleftrightarrow> list_ex (\<lambda>c. c \<in> set cs) s"

text \<open>
  \<open>strings.TrimSpace\<close> removes the code points of \<open>unicode.IsSpace\<close> at both ends.  Their UTF-8
  encodings are listed; a byte string starts (ends) with a space rune exactly when one of the
  encodings is a prefix (suffix), since UTF-8 is self-synchronising.
\<close>

definition space_encodings :: "string list" where
  "space_encodings =
     [[CHR 0x09], [CHR 0x0A], [CHR 0x0B], [CHR 0x0C], [CHR 0x0D], [CHR 0x20],
      [CHR 0xC2, CHR 0x85], [CHR 0xC2, CHR 0xA0], [CHR 0xE1, CHR 0x9A, CHR 0x80]]
     @ map (\<lambda>c. [CHR 0xE2, CHR 0x80, c])
         [CHR 0x80, CHR 0x81, CHR 0x82, CHR 0x83, CHR 0x84, CHR 0x85, CHR 0x86, CHR 0x87, CHR 0x88,
          CHR 0x89, CHR 0x8A, CHR 0xA8, CHR 0xA9, CHR 0xAF]
     @ [[CHR 0xE2, CHR 0x81, CHR 0x9F], [CHR 0xE3, CHR 0x80, CHR 0x80]]"

function trim_encodings :: "string list \<Rightarrow> string \<Rightarrow> string" where
  "trim_encodings encs s =
     (case find (\<lambda>e. e \<noteq> [] \<and> has_prefix s e) encs of
        None \<Rightarrow> s
      | Some e \<Rightarrow> trim_encodings encs (drop (length e) s))"
  by pat_completeness auto
termination
proof (relation "measure (\<lambda>(encs, s). length s)")
  fix encs :: "string list" and s e :: string
  assume "find (\<lambda>e. e \<noteq> [] \<and> has_prefix s e) encs = Some e"
  then have "e \<noteq> []" and "has_prefix s e"
    by (auto simp: find_Some_iff)
  then have "0 < length e" and "s \<noteq> []"
    by (auto simp: has_prefix_def)
  then show "((encs, drop (length e) s), encs, s) \<in> measure (\<lambda>(encs, s). length s)"
    by simp
qed simp

declare trim_encodings.simps [simp del]

definition trim_space :: "string \<Rightarrow> string" where
  "trim_space s =
     rev (trim_encodings (map rev space_encodings) (rev (trim_encodings space_encodings s)))"

subsection \<open>Decimal numerals\<close>

text \<open>\<open>fmt\<close>'s \<open>%d\<close> of a non-negative integer, and of a signed one.\<close>

fun dec_digits :: "nat \<Rightarrow> string" where
  "dec_digits n =
     (if n < 10 then [char_of (n + 48)] else dec_digits (n div 10) @ [char_of (n mod 10 + 48)])"

declare dec_digits.simps [simp del]

definition fmt_d :: "int \<Rightarrow> string" where
  "fmt_d i = (if i < 0 then ''-'' @ dec_digits (nat (- i)) else dec_digits (nat i))"

definition is_digit :: "char \<Rightarrow> bool" where
  "is_digit c \<longleftrightarrow> 48 \<le> (of_char c :: nat) \<and> (of_char c :: nat) \<le> 57"

fun dec_value :: "nat \<Rightarrow> string \<Rightarrow> nat" where
  "dec_value acc [] = acc"
| "dec_value acc (c # cs) = dec_value (acc * 10 + (of_char c - 48)) cs"

text \<open>
  \<open>strconv.Atoi\<close> with its error ignored: 0 when the text is no number, the nearest 64-bit integer
  when the number is out of range.
\<close>

definition atoi :: "string \<Rightarrow> int" where
  "atoi s =
     (let (neg, d) = (case s of
            [] \<Rightarrow> (False, s)
          | c # t \<Rightarrow> if c = CHR ''-'' then (True, t) else if c = CHR ''+'' then (False, t) else (False, s))
      in if d = [] \<or> \<not> list_all is_digit d then 0
         else if neg then max (- int (dec_value 0 d)) (- (2 ^ 63))
         else min (int (dec_value 0 d)) (2 ^ 63 - 1))"

lemma dec_value_append: "dec_value acc (s @ t) = dec_value (dec_value acc s) t"
  by (induction s arbitrary: acc) auto

lemma of_char_char_of_small: "n < 256 \<Longrightarrow> (of_char (char_of (n::nat)) :: nat) = n"
  by simp

lemma dec_value_dec_digits [simp]: "dec_value 0 (dec_digits n) = n"
proof (induction n rule: dec_digits.induct)
  case (1 n)
  have small: "n mod 10 + 48 < 256"
    using mod_less_divisor [of 10 n] by linarith
  show ?case
  proof (cases "n < 10")
    case True
    then have "n + 48 < 256" by simp
    then show ?thesis
      using True by (subst dec_digits.simps) (simp add: of_char_char_of_small)
  next
    case False
    then have IH: "dec_value 0 (dec_digits (n div 10)) = n div 10" by (rule "1.IH")
    show ?thesis
      using False small
      by (subst dec_digits.simps) (simp add: dec_value_append IH)
  qed
qed

lemma dec_digits_inj [simp]: "dec_digits m = dec_digits n \<longleftrightarrow> m = n"
  by (metis dec_value_dec_digits)

lemma dec_digits_digits: "c \<in> set (dec_digits n) \<Longrightarrow> is_digit c"
proof (induction n rule: dec_digits.induct)
  case (1 n)
  have d: "is_digit (char_of (k + 48))" if "k < 10" for k :: nat
    using that by (simp add: is_digit_def)
  show ?case
  proof (cases "n < 10")
    case True
    with 1 d show ?thesis by (subst (asm) dec_digits.simps) auto
  next
    case False
    with "1.prems" have "c \<in> set (dec_digits (n div 10)) \<or> c = char_of (n mod 10 + 48)"
      by (subst (asm) dec_digits.simps) auto
    with False "1.IH" d [of "n mod 10"] show ?thesis by auto
  qed
qed

lemma dec_digits_not_Nil [simp]: "dec_digits n \<noteq> []"
  by (subst dec_digits.simps) simp

subsection \<open>Maps\<close>

text \<open>
  A Go map with string keys.  Writing and deleting keep the keys distinct; a read of a missing key
  gives the zero value, the empty string for string values.
\<close>

definition gomap_ok :: "'v gomap \<Rightarrow> bool" where
  "gomap_ok m \<longleftrightarrow> distinct (map fst m)"

definition gomap_str :: "attrs \<Rightarrow> string \<Rightarrow> string" where
  "gomap_str m k = (case map_of m k of None \<Rightarrow> [] | Some v \<Rightarrow> v)"

lemma gomap_ok_Nil [simp, inv_intros]: "gomap_ok []"
  by (simp add: gomap_ok_def)

lemma gomap_ok_update [simp, inv_intros]: "gomap_ok m \<Longrightarrow> gomap_ok (AList.update k v m)"
  by (simp add: gomap_ok_def distinct_update)

lemma gomap_ok_delete [simp, inv_intros]: "gomap_ok m \<Longrightarrow> gomap_ok (AList.delete k m)"
  by (simp add: gomap_ok_def distinct_delete)

text \<open>
  \<open>sort.Strings\<close> over the keys of a map: the result does not depend on the iteration order.
\<close>

definition sorted_keys :: "'v gomap \<Rightarrow> string list" where
  "sorted_keys m = sort (map fst m)"

lemma sorted_keys_order_independent:
  assumes "gomap_ok m" "gomap_ok m'" "map_of m = map_of m'"
  shows "sorted_keys m = sorted_keys m'"
proof -
  have "set (map fst m) = dom (map_of m)" "set (map fst m') = dom (map_of m')"
    by (simp_all add: dom_map_of_conv_image_fst)
  with assms have "set (map fst m) = set (map fst m')" by simp
  with assms show ?thesis
    by (simp add: sorted_keys_def gomap_ok_def sorted_distinct_set_unique)
qed

lemma set_sorted_keys [simp]: "set (sorted_keys m) = fst ` set m"
  by (simp add: sorted_keys_def)

lemma sorted_sorted_keys [simp]: "sorted (sorted_keys m)"
  by (simp add: sorted_keys_def)

lemma distinct_sorted_keys [simp]: "distinct (sorted_keys m) \<longleftrightarrow> gomap_ok m"
  by (simp add: sorted_keys_def gomap_ok_def)

end
