(* ===== verification/Go_Errors.thy ===== *)
theory Go_Errors
  imports Prelude
begin

text \<open>
  Sentences and errors.  The open Go interface \<open>error\<close> becomes one datatype with a constructor for
  every error value the sources create or inspect: the structured errors of \<open>roserr/roserr.go\<close>, the
  device errors and sentinels of \<open>error.go\<close> and \<open>client.go\<close>, wrapped errors of \<open>fmt.Errorf\<close>, the
  standard library's sentinels and a plain text error for everything else.  \<open>errors.Is\<close> and
  \<open>errors.As\<close> are the library's depth-first walks of the Unwrap tree.
\<close>

subsection \<open>proto/sentence.go\<close>

record sentence =
  sen_word :: string
  sen_tag :: string
  sen_list :: "(string \<times> string) list"
  sen_map :: attrs

definition new_sentence :: sentence where
  "new_sentence = \<lparr>sen_word = [], sen_tag = [], sen_list = [], sen_map = []\<rparr>"

text \<open>
  \<open>Sentence.String\<close>: \<open>%s @%s %#q\<close>.  The quoting of one string by \<open>%#q\<close> (a raw or an interpreted
  Go literal) is the argument \<open>q\<close>; the slice and the struct around it are rendered here.
\<close>

definition sentence_string :: "(string \<Rightarrow> string) \<Rightarrow> sentence \<Rightarrow> string" where
  "sentence_string q sen =
     sen_word sen @ '' @'' @ sen_tag sen @ '' ['' @
     go_join (map (\<lambda>(k, v). ''{'' @ q k @ '' '' @ q v @ ''}'') (sen_list sen)) '' '' @ '']''"

subsection \<open>The taxonomy of roserr\<close>

datatype code =
    CodeUnknownPath | CodeUnknownAttribute | CodeInvalidValue | CodeCommandFailed
  | CodeSessionClosed | CodeValidationSyntax | CodeValidationUnknownAttribute | CodeAuthFailed
  | CodeConnectionRefused | CodeTimeout | CodeDNS | CodeNetwork | CodeTLSCertificate
  | CodeHostKeyMismatch | CodeCapabilityUnsupported

fun code_string :: "code \<Rightarrow> string" where
  "code_string CodeUnknownPath = ''routeros/unknown-path''"
| "code_string CodeUnknownAttribute = ''routeros/unknown-attribute''"
| "code_string CodeInvalidValue = ''routeros/invalid-value''"
| "code_string CodeCommandFailed = ''routeros/command-failed''"
| "code_string CodeSessionClosed = ''routeros/session-closed''"
| "code_string CodeValidationSyntax = ''validation/syntax''"
| "code_string CodeValidationUnknownAttribute = ''validation/unknown-attribute''"
| "code_string CodeAuthFailed = ''auth/failed''"
| "code_string CodeConnectionRefused = ''transport/connection-refused''"
| "code_string CodeTimeout = ''transport/timeout''"
| "code_string CodeDNS = ''transport/dns''"
| "code_string CodeNetwork = ''transport/network''"
| "code_string CodeTLSCertificate = ''transport/tls-certificate''"
| "code_string CodeHostKeyMismatch = ''transport/host-key-mismatch''"
| "code_string CodeCapabilityUnsupported = ''transport/capability-unsupported''"

text \<open>The constants are pairwise different strings, so a constructor is as good an identity.\<close>

lemma code_string_inj [simp]: "code_string c = code_string d \<longleftrightarrow> c = d"
  by (cases c; cases d) simp_all

datatype any = AnyStr string | AnyInt int | AnyStrs "string list"

record ros_context =
  ctx_via :: string
  ctx_host :: string
  ctx_port :: int
  ctx_path :: string
  ctx_extra :: "any gomap"

definition no_context :: ros_context where
  "no_context = \<lparr>ctx_via = [], ctx_host = [], ctx_port = 0, ctx_path = [], ctx_extra = []\<rparr>"

abbreviation via_context :: "string \<Rightarrow> ros_context" where
  "via_context v \<equiv> no_context\<lparr>ctx_via := v\<rparr>"

datatype goerr =
    RosErr (ros_code: code) (ros_summary: string) (ros_remediation: string)
      (ros_ctx: ros_context) (ros_cause: "goerr option")
  | DeviceErr sentence
  | UnknownReplyErr sentence
  | Wrapf string "goerr list"
  | ErrAlreadyAsync
  | ErrAsyncLoopEnded
  | ErrNoChallengeReceived
  | ErrInvalidChallengeReceived
  | IoEOF
  | IoUnexpectedEOF
  | IoShortWrite
  | CtxCanceled
  | CtxDeadlineExceeded
  | ErrInvalidWord string
  | ErrHexInvalidByte char
  | ErrHexLength
  | ExitErr string
  | PlainErr string

text \<open>\<open>New\<close> applies its options in order to an error without remediation, context and cause.\<close>

datatype ros_option =
    WithRemediation string
  | WithContext ros_context
  | WithCause goerr

fun ros_apply :: "ros_option \<Rightarrow> goerr \<Rightarrow> goerr" where
  "ros_apply (WithRemediation h) (RosErr c s r x u) = RosErr c s h x u"
| "ros_apply (WithContext y) (RosErr c s r x u) = RosErr c s r y u"
| "ros_apply (WithCause e) (RosErr c s r x u) = RosErr c s r x (Some e)"
| "ros_apply opt e = e"

definition ros_new :: "code \<Rightarrow> string \<Rightarrow> ros_option list \<Rightarrow> goerr" where
  "ros_new c summary opts = fold ros_apply opts (RosErr c summary [] no_context None)"

lemma ros_apply_code [simp]:
  "is_RosErr e \<Longrightarrow> is_RosErr (ros_apply opt e) \<and> ros_code (ros_apply opt e) = ros_code e
     \<and> ros_summary (ros_apply opt e) = ros_summary e"
  by (cases e; cases opt) simp_all

lemma ros_new_code: "is_RosErr (ros_new c s opts) \<and> ros_code (ros_new c s opts) = c
    \<and> ros_summary (ros_new c s opts) = s"
proof -
  have "is_RosErr e \<Longrightarrow> is_RosErr (fold ros_apply opts e)
      \<and> ros_code (fold ros_apply opts e) = ros_code e
      \<and> ros_summary (fold ros_apply opts e) = ros_summary e" for e
    by (induction opts arbitrary: e) (simp_all add: ros_apply_code)
  from this [of "RosErr c s [] no_context None"] show ?thesis
    by (simp add: ros_new_def)
qed

lemma ros_new_simps [simp]:
  "is_RosErr (ros_new c s opts)" "ros_code (ros_new c s opts) = c"
  "ros_summary (ros_new c s opts) = s"
  using ros_new_code [of c s opts] by simp_all

subsection \<open>Rendering\<close>

text \<open>
  \<open>DeviceError.fetchMessage\<close>, the \<open>Error\<close> methods of \<open>error.go\<close>, and \<open>Error.Error\<close> of roserr.
  Zero context fields are left out.
\<close>

definition fetch_message :: "(string \<Rightarrow> string) \<Rightarrow> sentence \<Rightarrow> string" where
  "fetch_message q sen =
     (let m = gomap_str (sen_map sen) ''message''
      in if m \<noteq> [] then m else ''unknown error: '' @ sentence_string q sen)"

definition ros_text :: "code \<Rightarrow> string \<Rightarrow> string \<Rightarrow> ros_context \<Rightarrow> string" where
  "ros_text c summary remediation x =
     code_string c @ '': '' @ summary
     @ (if ctx_via x \<noteq> [] then '' [via='' @ ctx_via x @ '']'' else [])
     @ (if ctx_host x \<noteq> []
        then '' [host='' @ ctx_host x
             @ (if ctx_port x \<noteq> 0 then '':'' @ fmt_d (ctx_port x) else []) @ '']''
        else [])
     @ (if ctx_path x \<noteq> [] then '' [path='' @ ctx_path x @ '']'' else [])
     @ (if remediation \<noteq> [] then ''; remediation: '' @ remediation else [])"

text \<open>\<open>%#U\<close> of a rune below 256: the code point, and the character itself when it is printable.\<close>

definition upper_hex :: "nat \<Rightarrow> char" where
  "upper_hex n = char_of (if n < 10 then n + 48 else n + 55)"

definition fmt_rune :: "char \<Rightarrow> string" where
  "fmt_rune c =
     (let n = of_char c :: nat in
      ''U+00'' @ [upper_hex (n div 16), upper_hex (n mod 16)]
      @ (if 32 \<le> n \<and> n < 127 then '' '' @ [CHR 0x27, c, CHR 0x27]
         else if 161 \<le> n \<and> n \<noteq> 173
         then '' '' @ [CHR 0x27, char_of (192 + n div 64), char_of (128 + n mod 64), CHR 0x27]
         else []))"

fun error_text :: "(string \<Rightarrow> string) \<Rightarrow> goerr \<Rightarrow> string" where
  "error_text q (RosErr c s r x u) = ros_text c s r x"
| "error_text q (DeviceErr sen) = ''from RouterOS device: '' @ fetch_message q sen"
| "error_text q (UnknownReplyErr sen) = ''unknown RouterOS reply word: '' @ sen_word sen"
| "error_text q (Wrapf m es) = m"
| "error_text q ErrAlreadyAsync = ''method Async() has already been called''"
| "error_text q ErrAsyncLoopEnded = ''method Async(): loop has ended - probably read error''"
| "error_text q ErrNoChallengeReceived = ''no ret (challenge) received''"
| "error_text q ErrInvalidChallengeReceived = ''invalid ret (challenge) hex string received''"
| "error_text q IoEOF = ''EOF''"
| "error_text q IoUnexpectedEOF = ''unexpected EOF''"
| "error_text q IoShortWrite = ''short write''"
| "error_text q CtxCanceled = ''context canceled''"
| "error_text q CtxDeadlineExceeded = ''context deadline exceeded''"
| "error_text q (ErrInvalidWord w) = ''invalid RouterOS sentence word: '' @ q w"
| "error_text q (ErrHexInvalidByte c) = ''encoding/hex: invalid byte: '' @ fmt_rune c"
| "error_text q ErrHexLength = ''encoding/hex: odd length hex string''"
| "error_text q (ExitErr m) = m"
| "error_text q (PlainErr m) = m"

subsection \<open>errors.Is and errors.As\<close>

text \<open>
  Both walk the tree of an error and what it wraps: the error itself first, then its causes from
  the left.  \<open>errors_is\<close> looks for an error that satisfies a match, \<open>errors_as\<close> for the first one a
  partial function accepts.  \<open>Error.Is\<close> matches by code, never by text.
\<close>

fun errors_is :: "(goerr \<Rightarrow> bool) \<Rightarrow> goerr \<Rightarrow> bool" where
  "errors_is m (RosErr c s r x u) \<longleftrightarrow>
     m (RosErr c s r x u) \<or> (case u of None \<Rightarrow> False | Some e \<Rightarrow> errors_is m e)"
| "errors_is m (Wrapf t es) \<longleftrightarrow> m (Wrapf t es) \<or> list_ex (errors_is m) es"
| "errors_is m e \<longleftrightarrow> m e"

fun first_some :: "'a option list \<Rightarrow> 'a option" where
  "first_some [] = None"
| "first_some (None # xs) = first_some xs"
| "first_some (Some x # xs) = Some x"

fun errors_as :: "(goerr \<Rightarrow> 'a option) \<Rightarrow> goerr \<Rightarrow> 'a option" where
  "errors_as f (RosErr c s r x u) =
     (case f (RosErr c s r x u) of
        Some a \<Rightarrow> Some a
      | None \<Rightarrow> (case u of None \<Rightarrow> None | Some e \<Rightarrow> errors_as f e))"
| "errors_as f (Wrapf t es) =
     (case f (Wrapf t es) of Some a \<Rightarrow> Some a | None \<Rightarrow> first_some (map (errors_as f) es))"
| "errors_as f e = f e"

fun ros_is :: "goerr \<Rightarrow> goerr \<Rightarrow> bool" where
  "ros_is (RosErr c s r x u) (RosErr d s' r' x' u') \<longleftrightarrow> c = d"
| "ros_is _ _ \<longleftrightarrow> False"

definition is_code :: "goerr \<Rightarrow> code \<Rightarrow> bool" where
  "is_code err c = errors_is (\<lambda>e. ros_is e (RosErr c [] [] no_context None)) err"

fun as_ros :: "goerr \<Rightarrow> goerr option" where
  "as_ros (RosErr c s r x u) = Some (RosErr c s r x u)"
| "as_ros _ = None"

fun as_device :: "goerr \<Rightarrow> sentence option" where
  "as_device (DeviceErr sen) = Some sen"
| "as_device _ = None"

definition context_of :: "goerr \<Rightarrow> ros_context option" where
  "context_of err = map_option ros_ctx (errors_as as_ros err)"

lemma first_some_eq_None [simp]: "first_some xs = None \<longleftrightarrow> (\<forall>x \<in> set xs. x = None)"
proof (induction xs)
  case (Cons x xs)
  then show ?case by (cases x) auto
qed simp

lemma first_some_Some: "first_some xs = Some a \<Longrightarrow> Some a \<in> set xs"
proof (induction xs)
  case (Cons x xs)
  then show ?case by (cases x) auto
qed simp

text \<open>The two walks agree on whether there is anything to find.\<close>

lemma errors_as_is: "errors_as f err \<noteq> None \<longleftrightarrow> errors_is (\<lambda>e. f e \<noteq> None) err"
proof (induction f err rule: errors_as.induct)
  case (1 f c s r x u)
  then show ?case by (cases "f (RosErr c s r x u)"; cases u) auto
next
  case (2 f t es)
  then show ?case
    by (cases "f (Wrapf t es)") (auto simp: list_ex_iff)
qed simp_all

lemma errors_as_sound: "errors_as f err = Some a \<Longrightarrow> errors_is (\<lambda>e. f e = Some a) err"
proof (induction f err rule: errors_as.induct)
  case (1 f c s r x u)
  then show ?case by (auto split: option.splits)
next
  case (2 f t es)
  then show ?case
    by (fastforce simp: list_ex_iff split: option.splits dest: first_some_Some)
qed simp_all

subsection \<open>The Unwrap tree\<close>

text \<open>The errors reachable from an error, in the order of the library's walks.\<close>

fun unwrap_tree :: "goerr \<Rightarrow> goerr list" where
  "unwrap_tree (RosErr c s r x u) =
     RosErr c s r x u # (case u of None \<Rightarrow> [] | Some e \<Rightarrow> unwrap_tree e)"
| "unwrap_tree (Wrapf t es) = Wrapf t es # concat (map unwrap_tree es)"
| "unwrap_tree e = [e]"

lemma first_some_append:
  "first_some (xs @ ys) = (case first_some xs of None \<Rightarrow> first_some ys | Some a \<Rightarrow> Some a)"
proof (induction xs)
  case (Cons x xs)
  then show ?case by (cases x) simp_all
qed simp

lemma first_some_concat: "first_some (concat xss) = first_some (map first_some xss)"
proof (induction xss)
  case (Cons xs xss)
  then show ?case by (cases "first_some xs") (simp_all add: first_some_append del: first_some_eq_None)
qed simp

lemma first_some_single: "first_some [x] = x"
  by (cases x) simp_all

lemma errors_as_tree: "errors_as f e = first_some (map f (unwrap_tree e))"
proof (induction f e rule: errors_as.induct)
  case (1 f c s r x u)
  then show ?case by (cases "f (RosErr c s r x u)"; cases u) simp_all
next
  case (2 f t es)
  show ?case
  proof (cases "f (Wrapf t es)")
    case None
    with 2 have "map (errors_as f) es = map (\<lambda>e. first_some (map f (unwrap_tree e))) es" by simp
    with None show ?thesis by (simp add: map_concat comp_def first_some_concat cong: map_cong)
  qed simp
qed (simp_all add: first_some_single)

lemma errors_is_tree: "errors_is m e \<longleftrightarrow> (\<exists>x \<in> set (unwrap_tree e). m x)"
proof (induction m e rule: errors_is.induct)
  case (1 m c s r x u)
  then show ?case by (cases u) auto
next
  case (2 m t es)
  then show ?case by (auto simp: list_ex_iff)
qed simp_all

subsection \<open>Properties\<close>

text \<open>Errors are identified by code alone, anywhere in the chain: \<open>IsCode\<close> holds exactly when some
error of the Unwrap tree is a structured error with that code, and \<open>ContextOf\<close> gives the context of the
first structured error in it.\<close>

lemma error_identity:
  "(is_code e c \<longleftrightarrow> (\<exists>x \<in> set (unwrap_tree e). is_RosErr x \<and> ros_code x = c))
   \<and> context_of e = (case filter is_RosErr (unwrap_tree e) of [] \<Rightarrow> None | x # _ \<Rightarrow> Some (ros_ctx x))"
proof
  have "ros_is x (RosErr c [] [] no_context None) \<longleftrightarrow> is_RosErr x \<and> ros_code x = c" for x
    by (cases x) simp_all
  then show "is_code e c \<longleftrightarrow> (\<exists>x \<in> set (unwrap_tree e). is_RosErr x \<and> ros_code x = c)"
    by (simp add: is_code_def errors_is_tree)
  have as: "as_ros x = (if is_RosErr x then Some x else None)" for x by (cases x) simp_all
  have "first_some (map as_ros xs) = (case filter is_RosErr xs of [] \<Rightarrow> None | x # _ \<Rightarrow> Some x)" for xs
    by (induction xs) (simp_all add: as)
  then show "context_of e = (case filter is_RosErr (unwrap_tree e) of [] \<Rightarrow> None | x # _ \<Rightarrow> Some (ros_ctx x))"
    by (simp add: context_of_def errors_as_tree split: list.split)
qed

end
