(* ===== verification/Io_Context.thy ===== *)
theory Io_Context
  imports Go_Errors
begin

text \<open>
  \<open>Close\<close> and \<open>Cancel\<close> of the readers and writers in \<open>proto/io_context.go\<close>.  Both run in goroutines of
  their own: a step is one access to the flag or to the channel, so a check and the action it guards
  can be separated by steps of others.  \<open>Cancel\<close> interrupts a read only while one waits in its select.
\<close>

datatype io_pc = CloseCheck | CloseStore | CloseDone | CancelCheck | CancelSend | Finished

record io_state =
  io_flag :: bool
  io_done :: bool
  io_reading :: bool
  io_panic :: bool
  io_threads :: "io_pc list"

definition io_start :: "bool \<Rightarrow> io_pc list \<Rightarrow> io_state" where
  "io_start reading ts =
     \<lparr>io_flag = False, io_done = False, io_reading = reading, io_panic = False, io_threads = ts\<rparr>"

definition io_step :: "nat \<Rightarrow> io_state \<Rightarrow> io_state" where
  "io_step i s =
     (if i < length (io_threads s) \<and> \<not> io_panic s then
        (case io_threads s ! i of
           CloseCheck \<Rightarrow>
             s\<lparr>io_threads := (io_threads s)[i := (if io_flag s then Finished else CloseStore)]\<rparr>
         | CloseStore \<Rightarrow> s\<lparr>io_flag := True, io_threads := (io_threads s)[i := CloseDone]\<rparr>
         | CloseDone \<Rightarrow>
             if io_done s then s\<lparr>io_panic := True\<rparr>
             else s\<lparr>io_done := True, io_reading := False, io_threads := (io_threads s)[i := Finished]\<rparr>
         | CancelCheck \<Rightarrow>
             s\<lparr>io_threads := (io_threads s)[i := (if io_flag s then Finished else CancelSend)]\<rparr>
         | CancelSend \<Rightarrow>
             if io_done s then s\<lparr>io_panic := True\<rparr>
             else s\<lparr>io_reading := False, io_threads := (io_threads s)[i := Finished]\<rparr>
         | Finished \<Rightarrow> s)
      else s)"

definition io_run :: "nat list \<Rightarrow> io_state \<Rightarrow> io_state" where
  "io_run sched s = fold io_step sched s"

text \<open>One closer and no canceller: no schedule panics.\<close>

definition one_closer :: "io_state \<Rightarrow> bool" where
  "one_closer s \<longleftrightarrow>
     \<not> io_panic s \<and> (\<exists>pc. io_threads s = [pc] \<and> pc \<in> {CloseCheck, CloseStore, CloseDone, Finished}
       \<and> (pc = CloseStore \<or> pc = CloseDone \<longrightarrow> \<not> io_done s) \<and> (pc = CloseCheck \<longrightarrow> io_flag s = io_done s))"

lemma one_closer_step: "one_closer s \<Longrightarrow> one_closer (io_step i s)"
  by (auto simp: one_closer_def io_step_def split: io_pc.splits)

lemma close_alone_safe: "\<not> io_panic (io_run sched (io_start reading [CloseCheck]))"
proof -
  have "one_closer s \<Longrightarrow> one_closer (fold io_step sched s)" for s
    by (induction sched arbitrary: s) (simp_all add: one_closer_step)
  moreover have "one_closer (io_start reading [CloseCheck])"
    by (simp add: one_closer_def io_start_def)
  ultimately show ?thesis by (simp add: io_run_def one_closer_def)
qed

text \<open>
  A \<open>Cancel\<close> that has passed its check before \<open>Close\<close> closes the channel sends on a closed channel; and
  one that runs while no read waits is lost: the next read does not see it.
\<close>

lemma cancel_close_race_panics:
  "io_panic (io_run [0, 1, 1, 1, 0] (io_start True [CancelCheck, CloseCheck]))"
  by code_simp

lemma cancel_without_reader_is_lost:
  "io_run [0, 0] (io_start False [CancelCheck]) = (io_start False [CancelCheck])\<lparr>io_threads := [Finished]\<rparr>"
  by code_simp

end
