(* ===== verification/Proto_Reader.thy ===== *)
theory Proto_Reader
  imports Go_Errors
begin

text \<open>
  \<open>proto/reader.go\<close>: the RouterOS wire reader.  The buffered connection under it is a stream: the
  bytes that are still to come and the error that every read reports once they are consumed (end of
  file, a network error, or the \<open>io.EOF\<close> that a cancelled \<open>ctxReader.Read\<close> returns).  A length is
  an \<open>int64\<close>, computed bit by bit as the code does.
\<close>

subsection \<open>Streams and io.ReadFull\<close>

record stream =
  pending :: "byte list"
  fin :: goerr

type_synonym 'a reader = "stream \<Rightarrow> (goerr + 'a) \<times> stream"

definition read_full :: "nat \<Rightarrow> byte list reader" where
  "read_full n s =
     (if n \<le> length (pending s)
      then (Inr (take n (pending s)), s\<lparr>pending := drop n (pending s)\<rparr>)
      else if pending s = [] then (Inl (fin s), s)
      else (Inl (if fin s = IoEOF then IoUnexpectedEOF else fin s), s\<lparr>pending := []\<rparr>))"

subsection \<open>Lengths\<close>

definition number_of :: "byte list \<Rightarrow> int64" where
  "number_of b = foldl (\<lambda>num ch. push_bit 8 num OR ucast ch) 0 b"

definition read_number :: "nat \<Rightarrow> int64 reader" where
  "read_number k s =
     (case read_full k s of
        (Inl e, s') \<Rightarrow> (Inl e, s')
      | (Inr b, s') \<Rightarrow> (Inr (number_of b), s'))"

definition read_more :: "nat \<Rightarrow> (int64 \<Rightarrow> int64) \<Rightarrow> int64 reader" where
  "read_more k f s =
     (case read_number k s of
        (Inl e, s') \<Rightarrow> (Inl e, s')
      | (Inr n, s') \<Rightarrow> (Inr (f n), s'))"

text \<open>\<open>l & ^m << j | n\<close>: in Go \<open>&\<close> and \<open><<\<close> have one precedence and associate to the left.\<close>

definition join_length :: "int64 \<Rightarrow> int64 \<Rightarrow> nat \<Rightarrow> int64 \<Rightarrow> int64" where
  "join_length l m j n = push_bit j (l AND NOT m) OR n"

definition read_length :: "int64 reader" where
  "read_length s =
     (case read_number 1 s of
        (Inl e, s1) \<Rightarrow> (Inl e, s1)
      | (Inr l, s1) \<Rightarrow>
          if l AND 0x80 = 0x00 then (Inr l, s1)
          else if l AND 0xC0 = 0x80 then
            read_more 1 (join_length l 0xC0 8) s1
          else if l AND 0xE0 = 0xC0 then
            read_more 2 (join_length l 0xE0 16) s1
          else if l AND 0xF0 = 0xE0 then
            read_more 3 (join_length l 0xF0 24) s1
          else if l AND 0xF8 = 0xF0 then
            read_more 4 (\<lambda>n. n) s1
          else (Inr l, s1))"

definition read_word :: "byte list reader" where
  "read_word s =
     (case read_length s of
        (Inl e, s') \<Rightarrow> (Inl e, s')
      | (Inr l, s') \<Rightarrow> read_full (nat (sint l)) s')"

subsection \<open>Every successful read consumes input\<close>

lemma read_full_consumes:
  "read_full n s = (Inr b, s') \<Longrightarrow>
     length b = n \<and> pending s = b @ pending s' \<and> fin s' = fin s"
  by (auto simp: read_full_def split: if_splits)

lemma read_full_error_fin: "read_full n s = (r, s') \<Longrightarrow> fin s' = fin s"
  by (auto simp: read_full_def split: if_splits)

lemma read_number_consumes:
  "read_number n s = (Inr l, s') \<Longrightarrow>
     \<exists>b. length b = n \<and> pending s = b @ pending s' \<and> fin s' = fin s \<and> l = number_of b"
  by (auto simp: read_number_def split: prod.splits sum.splits dest!: read_full_consumes)

lemma read_more_consumes:
  "read_more k f s = (Inr l, s') \<Longrightarrow>
     \<exists>b. length b = k \<and> pending s = b @ pending s' \<and> fin s' = fin s \<and> l = f (number_of b)"
  by (auto simp: read_more_def split: prod.splits sum.splits dest!: read_number_consumes)

lemma read_length_consumes:
  assumes "read_length s = (Inr l, s')"
  shows "\<exists>b. b \<noteq> [] \<and> length b \<le> 5 \<and> pending s = b @ pending s' \<and> fin s' = fin s"
proof -
  obtain l0 s1 where first: "read_number 1 s = (Inr l0, s1)"
    using assms by (auto simp: read_length_def split: prod.splits sum.splits)
  then obtain b0 where b0: "length b0 = 1" "pending s = b0 @ pending s1" "fin s1 = fin s"
    by (auto dest: read_number_consumes)
  from assms first
  have "(s' = s1) \<or> (\<exists>k f. k \<le> 4 \<and> read_more k f s1 = (Inr l, s'))"
    unfolding read_length_def
    by (auto split: if_splits)
  then obtain b1 where b1: "length b1 \<le> 4" "pending s1 = b1 @ pending s'" "fin s' = fin s1"
    by (auto dest!: read_more_consumes)
  have "b0 @ b1 \<noteq> []" using b0(1) by auto
  moreover have "length (b0 @ b1) \<le> 5" using b0(1) b1(1) by simp
  ultimately show ?thesis
    using b0(2,3) b1(2,3) by (metis append.assoc)
qed

lemma read_word_consumes:
  assumes "read_word s = (Inr w, s')"
  shows "\<exists>h. h \<noteq> [] \<and> pending s = h @ w @ pending s' \<and> fin s' = fin s"
proof -
  obtain l s1 where l: "read_length s = (Inr l, s1)" and w: "read_full (nat (sint l)) s1 = (Inr w, s')"
    using assms by (auto simp: read_word_def split: prod.splits sum.splits)
  from read_length_consumes [OF l] obtain h where
    "h \<noteq> []" "pending s = h @ pending s1" "fin s1 = fin s" by blast
  with read_full_consumes [OF w] show ?thesis by auto
qed

lemma read_word_shorter:
  "read_word s = (Inr w, s') \<Longrightarrow> length (pending s') < length (pending s)"
  by (auto dest!: read_word_consumes)

subsection \<open>The value of a length\<close>

lemma number_of_snoc [codec]: "number_of (b @ [c]) = push_bit 8 (number_of b) OR ucast c"
  by (simp add: number_of_def)

lemma number_of_Nil [simp, codec]: "number_of [] = 0"
  by (simp add: number_of_def)

lemma number_of_single [simp, codec]: "number_of [c] = ucast c"
  by (simp add: number_of_def)

lemma bit_number_of: "bit (number_of b) n \<Longrightarrow> n < 8 * length b"
proof (induction b arbitrary: n rule: rev_induct)
  case (snoc c b)
  from snoc.prems consider "8 \<le> n" "bit (number_of b) (n - 8)" | "bit c n"
    by (auto simp: number_of_snoc bit_or_iff bit_push_bit_iff bit_unsigned_iff)
  then show ?case
    using snoc.IH [of "n - 8"] by cases (auto dest: bit_imp_le_length)
qed simp

lemma word_bits_less:
  fixes x :: "'a::len word"
  assumes "\<And>n. bit x n \<Longrightarrow> n < k"
  shows "uint x < 2 ^ k"
proof -
  have "take_bit k x = x"
    by (rule bit_word_eqI) (auto simp: bit_take_bit_iff dest: assms)
  then have "uint x = take_bit k (uint x)"
    by (metis unsigned_take_bit_eq)
  then show ?thesis
    by (metis take_bit_int_less_exp)
qed

lemma sint_small:
  fixes x :: int64
  assumes "uint x < 2 ^ 63"
  shows "sint x = uint x"
proof -
  have "- (2 ^ 63) \<le> uint x" by (rule order_trans [of _ 0]) simp_all
  then have "signed_take_bit 63 (uint x) = uint x"
    using assms by (rule signed_take_bit_int_eq_self)
  then show ?thesis by (simp add: sint_uint)
qed

lemma read_length_bits:
  assumes "read_length s = (Inr l, s')" and "bit l n"
  shows "n < 32"
proof -
  obtain l0 s1 where first: "read_number 1 s = (Inr l0, s1)"
    using assms(1) by (auto simp: read_length_def split: prod.splits sum.splits)
  then obtain b0 where "length b0 = 1" "l0 = number_of b0"
    by (auto dest: read_number_consumes)
  then have l0: "bit l0 m \<Longrightarrow> m < 8" for m
    using bit_number_of [of b0 m] by simp
  have more: "n < 32" if "read_more k (join_length l0 m j) s1 = (Inr l, s')"
    "j \<le> 24" "k \<le> 3" for k j m
    using read_more_consumes [OF that(1)] that(2,3) assms(2)
    by (auto simp: join_length_def bit_or_iff bit_push_bit_iff bit_and_iff dest!: l0 bit_number_of)
  have more4: "n < 32" if "read_more 4 (\<lambda>n. n) s1 = (Inr l, s')"
    using read_more_consumes [OF that] assms(2) by (auto dest!: bit_number_of)
  from assms(1) first show ?thesis
    unfolding read_length_def
    using assms(2) l0 [of n]
    by (auto split: if_splits dest: more more4)
qed

lemma read_length_range:
  assumes "read_length s = (Inr l, s')"
  shows "0 \<le> sint l \<and> sint l < 2 ^ 32 \<and> sint l = uint l"
proof -
  have "uint l < 2 ^ 32"
    by (rule word_bits_less) (rule read_length_bits [OF assms])
  then show ?thesis
    by (simp add: sint_small)
qed

subsection \<open>Sentences\<close>

text \<open>
  One iteration of the loop of \<open>ReadSentence\<close> on a non-empty word \<open>b\<close>: the first word names the
  sentence, a \<open>.tag=\<close> word sets the tag, a word that starts with \<open>=\<close> is a pair split at the next
  \<open>=\<close>, and any other word is an error.
\<close>

definition split_pair :: "byte list \<Rightarrow> byte list \<times> byte list" where
  "split_pair b =
     (takeWhile (\<lambda>c. c \<noteq> of_char CHR ''='') b, drop 1 (dropWhile (\<lambda>c. c \<noteq> of_char CHR ''='') b))"

definition sentence_word :: "sentence \<Rightarrow> byte list \<Rightarrow> goerr + sentence" where
  "sentence_word sen b =
     (if sen_word sen = [] then Inr (sen\<lparr>sen_word := to_string b\<rparr>)
      else if has_prefix b (to_bytes ''.tag='') then Inr (sen\<lparr>sen_tag := to_string (drop 5 b)\<rparr>)
      else if has_prefix b (to_bytes ''='') then
        (let (k, v) = split_pair (drop 1 b); p = (to_string k, to_string v) in
         Inr (sen\<lparr>sen_list := sen_list sen @ [p],
                  sen_map := AList.update (fst p) (snd p) (sen_map sen)\<rparr>))
      else Inl (ErrInvalidWord (to_string b)))"

function read_loop :: "sentence \<Rightarrow> stream \<Rightarrow> (goerr + sentence) \<times> stream" where
  "read_loop sen s =
     (case read_word s of
        (Inl e, s') \<Rightarrow> (Inl e, s')
      | (Inr b, s') \<Rightarrow>
          if b = [] then (Inr sen, s')
          else (case sentence_word sen b of
                  Inl e \<Rightarrow> (Inl e, s')
                | Inr sen' \<Rightarrow> read_loop sen' s'))"
  by pat_completeness auto
termination
  by (relation "measure (\<lambda>(sen, s). length (pending s))") (auto intro: read_word_shorter [OF sym])

declare read_loop.simps [simp del]

definition read_sentence :: "sentence reader" where
  "read_sentence s = read_loop new_sentence s"

lemma read_loop_consumes:
  "read_loop sen s = (Inr sen', s') \<Longrightarrow>
     length (pending s') < length (pending s) \<and> fin s' = fin s"
proof (induction sen s rule: read_loop.induct)
  case (1 sen s)
  obtain b s1 where w: "read_word s = (Inr b, s1)"
    using "1.prems" by (subst (asm) read_loop.simps) (auto split: prod.splits sum.splits)
  from read_word_shorter [OF w] have sh: "length (pending s1) < length (pending s)" .
  from read_word_consumes [OF w] have f: "fin s1 = fin s" by blast
  show ?case
  proof (cases "b = []")
    case True
    with "1.prems" w sh f show ?thesis by (subst (asm) read_loop.simps) simp
  next
    case False
    with "1.prems" w obtain sen1 where "sentence_word sen b = Inr sen1"
      and "read_loop sen1 s1 = (Inr sen', s')"
      by (subst (asm) read_loop.simps) (auto split: sum.splits)
    with "1.IH" [OF w [symmetric] refl False] sh f show ?thesis by fastforce
  qed
qed

lemma read_sentence_consumes:
  "read_sentence s = (Inr sen, s') \<Longrightarrow>
     length (pending s') < length (pending s) \<and> fin s' = fin s"
  by (simp add: read_sentence_def read_loop_consumes)

end
