(* ===== verification/Ctx_Reader.thy ===== *)
theory Ctx_Reader
  imports Proto_Reader "HOL-Library.Sublist"
begin

text \<open>
  \<open>ctxReader.Read\<close> of \<open>proto/io_context.go\<close> with its goroutines, and \<open>io.ReadFull\<close> on top of it.  Every
  \<open>Read\<close> starts a goroutine that reads from the buffered reader of the connection into a buffer of its own and puts
  the result on a channel of its own; the caller waits for that channel or for \<open>done\<close>.  The stream of \<open>Proto_Reader\<close> is what
  is left of the connection when all that is abstracted from; the lemmas here say when that is right.
\<close>

subsection \<open>The connection under the reader\<close>

text \<open>
  One \<open>Read\<close> of the connection into a buffer of \<open>n > 0\<close> bytes: at least one byte and at most
  \<open>n\<close>, as many as the network has ready (\<open>k\<close>), or the error at the end.
\<close>

definition source_read :: "nat \<Rightarrow> nat \<Rightarrow> stream \<Rightarrow> (byte list \<times> goerr option) \<times> stream" where
  "source_read k n s =
     (if pending s = [] then (([], Some (fin s)), s)
      else (let m = max 1 (min k n) in
            ((take m (pending s), None), s\<lparr>pending := drop m (pending s)\<rparr>)))"

lemma source_read_bytes:
  assumes "source_read k n s = ((b, None), s')"
  shows "b \<noteq> [] \<and> (n > 0 \<longrightarrow> length b \<le> n) \<and> pending s = b @ pending s' \<and> fin s' = fin s"
  using assms by (auto simp: source_read_def Let_def split: if_splits)

lemma source_read_end:
  "source_read k n s = ((b, Some e), s') \<longleftrightarrow> b = [] \<and> e = fin s \<and> s' = s \<and> pending s = []"
  by (auto simp: source_read_def Let_def)

text \<open>\<open>io.ReadFull\<close>: \<open>ready\<close> gives the number of ready bytes at each of its reads.\<close>

function read_full_by :: "(nat \<Rightarrow> nat) \<Rightarrow> nat \<Rightarrow> byte list \<Rightarrow> byte list reader" where
  "read_full_by ready n got s =
     (if length got \<ge> n then (Inr got, s)
      else
        (case source_read (ready (length got)) (n - length got) s of
           ((b, None), s') \<Rightarrow> read_full_by ready n (got @ b) s'
         | ((b, Some e), s') \<Rightarrow>
             (Inl (if e = IoEOF \<and> got \<noteq> [] then IoUnexpectedEOF else e), s')))"
  by pat_completeness auto
termination
proof (relation "measure (\<lambda>(ready, n, got, s). n - length got)", goal_cases)
  case (2 ready n got s x s' b)
  then have "source_read (ready (length got)) (n - length got) s = ((b, None), s')" by simp
  from source_read_bytes [OF this] 2(1) show ?case by (cases b) auto
qed simp

declare read_full_by.simps [simp del]

subsection \<open>The buffered reader\<close>

text \<open>
  \<open>bufio.Reader\<close> of the standard library, which all goroutines share: its array, the positions it reads from
  and writes to, and the error it keeps.  Its \<open>Read\<close> is not one step: it looks at the positions, reads the
  connection (into the array, or straight into a large buffer of the caller), and then moves the positions and
  copies.  A goroutine is before the first of these steps (\<open>Fetching\<close>), in its read of the connection (\<open>Filling\<close>,
  \<open>Direct\<close>), behind it with \<open>m\<close> bytes in the array (\<open>Filled\<close>), or has its result on its channel.
\<close>

definition rd_size :: nat where
  "rd_size = 4096"

record bufrd =
  brarr :: "nat \<Rightarrow> byte"
  br :: nat
  bw :: nat
  brerr :: "goerr option"

definition new_bufrd :: bufrd where
  "new_bufrd = \<lparr>brarr = (\<lambda>j. 0), br = 0, bw = 0, brerr = None\<rparr>"

definition put_bytes :: "byte list \<Rightarrow> (nat \<Rightarrow> byte) \<Rightarrow> nat \<Rightarrow> byte" where
  "put_bytes x arr j = (if j < length x then x ! j else arr j)"

datatype fetcher = Fetching nat | Filling nat | Direct nat | Filled nat nat | Fetched "byte list" "goerr option"

text \<open>The copy out of the array; a write position behind its end is a slice out of range (no result).\<close>

definition buf_copy :: "nat \<Rightarrow> bufrd \<Rightarrow> (fetcher \<times> bufrd) option" where
  "buf_copy n b =
     (if rd_size < bw b then None
      else (let r = min (bw b) (br b + n) in
            Some (Fetched (map (brarr b) [br b ..< r]) None, b\<lparr>br := r\<rparr>)))"

fun fetch_step :: "nat \<Rightarrow> fetcher \<Rightarrow> bufrd \<Rightarrow> stream \<Rightarrow> ((fetcher \<times> bufrd) option) \<times> stream" where
  "fetch_step k (Fetching n) b src =
     ((if br b = bw b
       then (case brerr b of
               Some e \<Rightarrow> Some (Fetched [] (Some e), b\<lparr>brerr := None\<rparr>)
             | None \<Rightarrow>
                 if rd_size \<le> n then Some (Direct n, b) else Some (Filling n, b\<lparr>br := 0, bw := 0\<rparr>))
       else buf_copy n b), src)"
| "fetch_step k (Filling n) b src =
     (case source_read k rd_size src of
        ((x, e), src') \<Rightarrow> (Some (Filled n (length x), b\<lparr>brarr := put_bytes x (brarr b), brerr := e\<rparr>), src'))"
| "fetch_step k (Direct n) b src =
     (case source_read k n src of ((x, e), src') \<Rightarrow> (Some (Fetched x e, b\<lparr>brerr := None\<rparr>), src'))"
| "fetch_step k (Filled n m) b src =
     ((if m = 0 then Some (Fetched [] (brerr b), b\<lparr>brerr := None\<rparr>) else buf_copy n (b\<lparr>bw := bw b + m\<rparr>)), src)"
| "fetch_step k (Fetched x e) b src = (None, src)"

subsection \<open>Reads, goroutines and the done channel\<close>

text \<open>
  \<open>cwaiting\<close> is the goroutine whose result the current \<open>Read\<close> waits for, \<open>cresults\<close> what the reads have
  returned so far; \<open>cabandoned\<close> records how many had returned when a read first left its goroutine behind.  A panic
  ends the process.
\<close>

record cstate =
  csource :: stream
  cbuf :: bufrd
  cfetchers :: "nat \<rightharpoonup> fetcher"
  cnext :: nat
  cwaiting :: "nat option"
  cclosed :: bool
  cresults :: "(byte list \<times> goerr option) list"
  cabandoned :: "nat option"
  cpanic :: bool

definition cinit :: "stream \<Rightarrow> cstate" where
  "cinit s = \<lparr>csource = s, cbuf = new_bufrd, cfetchers = Map.empty, cnext = 0, cwaiting = None, cclosed = False,
     cresults = [], cabandoned = None, cpanic = False\<rparr>"

definition ctx_read_begin :: "nat \<Rightarrow> cstate \<Rightarrow> cstate option" where
  "ctx_read_begin n s =
     (if cwaiting s = None \<and> n > 0
      then Some (s\<lparr>cfetchers := (cfetchers s)(cnext s \<mapsto> Fetching n), cwaiting := Some (cnext s),
             cnext := cnext s + 1\<rparr>)
      else None)"

fun has_fetched :: "fetcher \<Rightarrow> bool" where
  "has_fetched (Fetched x e) = True"
| "has_fetched _ = False"

text \<open>A step of goroutine \<open>i\<close>; \<open>k\<close> is how many bytes the network has ready if it is one that reads them.\<close>

definition ctx_fetch :: "nat \<Rightarrow> nat \<Rightarrow> cstate \<Rightarrow> cstate option" where
  "ctx_fetch i k s =
     (case cfetchers s i of
        None \<Rightarrow> None
      | Some f \<Rightarrow>
          if has_fetched f then None
          else (case fetch_step k f (cbuf s) (csource s) of
                  (None, src) \<Rightarrow> Some (s\<lparr>cpanic := True\<rparr>)
                | (Some (f', b), src) \<Rightarrow>
                    Some (s\<lparr>csource := src, cbuf := b, cfetchers := (cfetchers s)(i \<mapsto> f')\<rparr>)))"

text \<open>The two branches of the select.\<close>

definition ctx_read_out :: "cstate \<Rightarrow> cstate option" where
  "ctx_read_out s =
     (case cwaiting s of
        None \<Rightarrow> None
      | Some i \<Rightarrow>
          (case cfetchers s i of
             Some (Fetched b e) \<Rightarrow> Some (s\<lparr>cwaiting := None, cresults := cresults s @ [(b, e)]\<rparr>)
           | _ \<Rightarrow> None))"

definition ctx_read_done :: "cstate \<Rightarrow> cstate" where
  "ctx_read_done s =
     s\<lparr>cwaiting := None, cresults := cresults s @ [([], Some IoEOF)],
       cabandoned := (case cabandoned s of None \<Rightarrow> Some (length (cresults s)) | Some m \<Rightarrow> Some m)\<rparr>"

text \<open>\<open>Cancel\<close>: its send meets a waiting select, or is dropped, or is not tried on a closed reader.\<close>

definition ctx_cancel :: "cstate \<Rightarrow> cstate" where
  "ctx_cancel s = (if cclosed s \<or> cwaiting s = None then s else ctx_read_done s)"

datatype cevent = CRead nat | CFetch nat nat | COut | CDone | CCancel | CClose

fun cstep :: "cevent \<Rightarrow> cstate \<Rightarrow> cstate option" where
  "cstep (CRead n) s = ctx_read_begin n s"
| "cstep (CFetch i k) s = ctx_fetch i k s"
| "cstep COut s = ctx_read_out s"
| "cstep CDone s = (if cclosed s \<and> cwaiting s \<noteq> None then Some (ctx_read_done s) else None)"
| "cstep CCancel s = Some (ctx_cancel s)"
| "cstep CClose s = Some (s\<lparr>cclosed := True\<rparr>)"

inductive ctrans :: "cstate \<Rightarrow> cstate \<Rightarrow> bool" where
  cstep: "\<not> cpanic s \<Longrightarrow> cstep e s = Some s' \<Longrightarrow> ctrans s s'"

inductive creach :: "stream \<Rightarrow> cstate \<Rightarrow> bool" for src where
  creach_init: "creach src (cinit src)"
| creach_next: "creach src s \<Longrightarrow> ctrans s s' \<Longrightarrow> creach src s'"

inductive_cases ctransE: "ctrans s s'"

fun crun :: "cevent list \<Rightarrow> cstate \<Rightarrow> cstate option" where
  "crun [] s = Some s"
| "crun (e # es) s =
     (if cpanic s then None else case cstep e s of None \<Rightarrow> None | Some s' \<Rightarrow> crun es s')"

lemma creach_crun: "creach src s \<Longrightarrow> crun es s = Some s' \<Longrightarrow> creach src s'"
proof (induction es arbitrary: s)
  case (Cons e es)
  then obtain s1 where "\<not> cpanic s" "cstep e s = Some s1" "crun es s1 = Some s'"
    by (auto split: option.splits if_splits)
  with Cons show ?case by (meson creach.creach_next ctrans.cstep)
qed simp

subsection \<open>Reads of a stream\<close>

text \<open>The reference: results that are, one after the other, reads of a stream of bytes that ends in an error.\<close>

fun stream_reads :: "byte list \<Rightarrow> goerr \<Rightarrow> (byte list \<times> goerr option) list \<Rightarrow> bool" where
  "stream_reads bs e [] = True"
| "stream_reads bs e ((b, None) # rs) = (b \<noteq> [] \<and> prefix b bs \<and> stream_reads (drop (length b) bs) e rs)"
| "stream_reads bs e ((b, Some x) # rs) = (b = [] \<and> x = e \<and> bs = [] \<and> stream_reads bs e rs)"

lemma stream_reads_append:
  "stream_reads bs e (rs @ rs') \<longleftrightarrow>
     stream_reads bs e rs \<and> stream_reads (drop (length (concat (map fst rs))) bs) e rs'"
  by (induction bs e rs rule: stream_reads.induct) (auto simp: add.commute)

lemma stream_reads_prefix: "stream_reads bs e rs \<Longrightarrow> prefix (concat (map fst rs)) bs"
  by (induction bs e rs rule: stream_reads.induct) (auto simp: prefix_def)

subsection \<open>The invariant\<close>

text \<open>The bytes on their way: those the current read will return, and those in the array.\<close>

definition unread :: "bufrd \<Rightarrow> byte list" where
  "unread b = map (brarr b) [br b ..< bw b]"

fun fetch_bytes :: "bufrd \<Rightarrow> fetcher \<Rightarrow> byte list" where
  "fetch_bytes b (Fetched x e) = x @ unread b"
| "fetch_bytes b (Filled n m) = map (brarr b) [0 ..< m]"
| "fetch_bytes b f = unread b"

definition calm_buf :: "bufrd \<Rightarrow> bool" where
  "calm_buf b \<longleftrightarrow> br b \<le> bw b \<and> bw b \<le> rd_size \<and> brerr b = None"

text \<open>A goroutine that is alone in the buffered reader; \<open>bs\<close> is what the connection still has.\<close>

fun fetch_ok :: "goerr \<Rightarrow> bufrd \<Rightarrow> byte list \<Rightarrow> fetcher \<Rightarrow> bool" where
  "fetch_ok x b bs (Fetching n) = (n > 0 \<and> calm_buf b)"
| "fetch_ok x b bs (Filling n) = (n > 0 \<and> br b = 0 \<and> bw b = 0 \<and> brerr b = None)"
| "fetch_ok x b bs (Direct n) = (n > 0 \<and> br b = bw b \<and> calm_buf b)"
| "fetch_ok x b bs (Filled n m) =
     (n > 0 \<and> br b = 0 \<and> bw b = 0 \<and> m \<le> rd_size \<and> (if m = 0 then brerr b = Some x \<and> bs = [] else brerr b = None))"
| "fetch_ok x b bs (Fetched y e) =
     (calm_buf b \<and> (case e of None \<Rightarrow> y \<noteq> [] | Some z \<Rightarrow> y = [] \<and> z = x \<and> unread b = [] \<and> bs = []))"

lemma map_upt_split: "i \<le> j \<Longrightarrow> j \<le> k \<Longrightarrow> map f [i ..< k] = map f [i ..< j] @ map f [j ..< k]"
  by (metis le_add_diff_inverse map_append upt_add_eq_append)

lemma map_put_bytes [simp]: "map (put_bytes x arr) [0 ..< length x] = x"
proof -
  have "map (put_bytes x arr) [0 ..< length x] = map ((!) x) [0 ..< length x]"
    by (rule map_cong) (simp_all add: put_bytes_def)
  then show ?thesis by (simp add: map_nth)
qed

lemma buf_copy_ok:
  assumes "br b < bw b" "bw b \<le> rd_size" "brerr b = None" "n > 0"
  shows "\<exists>f b'. buf_copy n b = Some (f, b') \<and> fetch_ok x b' bs f \<and> fetch_bytes b' f = unread b"
proof -
  let ?r = "min (bw b) (br b + n)"
  have "map (brarr b) [br b ..< bw b] = map (brarr b) [br b ..< ?r] @ map (brarr b) [?r ..< bw b]"
    using assms(1) by (intro map_upt_split) simp_all
  with assms show ?thesis by (auto simp: buf_copy_def Let_def calm_buf_def unread_def)
qed

text \<open>A step of a goroutine that is alone loses nothing.\<close>

lemma fetch_step_ok:
  assumes "fetch_ok (fin src) b (pending src) f" "\<not> has_fetched f"
  shows "\<exists>f' b' src'. fetch_step k f b src = (Some (f', b'), src') \<and> fin src' = fin src
    \<and> fetch_ok (fin src) b' (pending src') f' \<and> fetch_bytes b' f' @ pending src' = fetch_bytes b f @ pending src"
proof (cases f)
  case (Fetching n)
  show ?thesis
  proof (cases "br b = bw b")
    case True
    with assms(1) Fetching show ?thesis by (auto simp: calm_buf_def unread_def)
  next
    case False
    with assms(1) Fetching buf_copy_ok [of b n "fin src" "pending src"] show ?thesis
      by (fastforce simp: calm_buf_def)
  qed
next
  case (Filling n)
  obtain x e src' where r: "source_read k rd_size src = ((x, e), src')" by (metis surj_pair)
  show ?thesis
  proof (cases e)
    case None
    with r source_read_bytes [of k rd_size src x src'] assms(1) Filling show ?thesis
      by (auto simp: unread_def rd_size_def)
  next
    case (Some z)
    with r have "x = []" "z = fin src" "src' = src" "pending src = []" by (simp_all add: source_read_end)
    with r Some assms(1) Filling show ?thesis by (simp add: unread_def)
  qed
next
  case (Direct n)
  obtain x e src' where r: "source_read k n src = ((x, e), src')" by (metis surj_pair)
  show ?thesis
  proof (cases e)
    case None
    with r source_read_bytes [of k n src x src'] assms(1) Direct show ?thesis
      by (auto simp: unread_def calm_buf_def)
  next
    case (Some z)
    with r have "x = []" "z = fin src" "src' = src" "pending src = []" by (simp_all add: source_read_end)
    with r Some assms(1) Direct show ?thesis by (simp add: unread_def calm_buf_def)
  qed
next
  case (Filled n m)
  show ?thesis
  proof (cases "m = 0")
    case True
    with assms(1) Filled show ?thesis by (auto simp: calm_buf_def unread_def)
  next
    case False
    with assms(1) Filled buf_copy_ok [of "b\<lparr>bw := bw b + m\<rparr>" n "fin src" "pending src"] show ?thesis
      by (fastforce simp: unread_def)
  qed
qed (use assms(2) in simp)

text \<open>The results of the reads before the first one that was interrupted.\<close>

definition clean_results :: "cstate \<Rightarrow> (byte list \<times> goerr option) list" where
  "clean_results s = (case cabandoned s of None \<Rightarrow> cresults s | Some m \<Rightarrow> take m (cresults s))"

definition on_the_way :: "cstate \<Rightarrow> byte list" where
  "on_the_way s =
     (case cwaiting s of
        None \<Rightarrow> unread (cbuf s)
      | Some i \<Rightarrow> (case cfetchers s i of None \<Rightarrow> [] | Some f \<Rightarrow> fetch_bytes (cbuf s) f))"

definition cinv :: "stream \<Rightarrow> cstate \<Rightarrow> bool" where
  "cinv src s \<longleftrightarrow>
     fin (csource s) = fin src \<and> stream_reads (pending src) (fin src) (clean_results s)
   \<and> (\<forall>i. cfetchers s i \<noteq> None \<longrightarrow> i < cnext s) \<and> (\<forall>m. cabandoned s = Some m \<longrightarrow> m \<le> length (cresults s))
   \<and> (cabandoned s = None \<longrightarrow>
        \<not> cpanic s \<and> pending src = concat (map fst (cresults s)) @ on_the_way s @ pending (csource s)
      \<and> (\<forall>i f. cfetchers s i = Some f \<longrightarrow> cwaiting s \<noteq> Some i \<longrightarrow> has_fetched f)
      \<and> (case cwaiting s of
           None \<Rightarrow> calm_buf (cbuf s)
         | Some i \<Rightarrow> \<exists>f. cfetchers s i = Some f \<and> fetch_ok (fin src) (cbuf s) (pending (csource s)) f))"

lemma cinv_init: "cinv src (cinit src)"
  by (simp add: cinv_def cinit_def clean_results_def on_the_way_def new_bufrd_def unread_def calm_buf_def)

lemma cinv_begin:
  assumes "cinv src s" "ctx_read_begin n s = Some s'"
  shows "cinv src s'"
proof -
  from assms(2) have s': "cwaiting s = None" "n > 0" "s' = s\<lparr>cfetchers := (cfetchers s)(cnext s \<mapsto> Fetching n),
      cwaiting := Some (cnext s), cnext := cnext s + 1\<rparr>"
    by (auto simp: ctx_read_begin_def split: if_splits)
  with assms(1) show ?thesis
    by (auto simp: cinv_def clean_results_def on_the_way_def less_Suc_eq split: option.splits)
qed

lemma cinv_out:
  assumes "cinv src s" "ctx_read_out s = Some s'"
  shows "cinv src s'"
proof -
  from assms(2) obtain i b e where s': "cwaiting s = Some i" "cfetchers s i = Some (Fetched b e)"
    "s' = s\<lparr>cwaiting := None, cresults := cresults s @ [(b, e)]\<rparr>"
    by (auto simp: ctx_read_out_def split: option.splits fetcher.splits)
  show ?thesis
  proof (cases "cabandoned s")
    case None
    with assms(1) s' have p: "pending src = concat (map fst (cresults s)) @ b @ unread (cbuf s) @ pending (csource s)"
      "fetch_ok (fin src) (cbuf s) (pending (csource s)) (Fetched b e)"
      by (auto simp: cinv_def on_the_way_def)
    then have "stream_reads (drop (length (concat (map fst (cresults s)))) (pending src)) (fin src) [(b, e)]"
      by (cases e) auto
    moreover have "has_fetched f" if "cfetchers s j = Some f" for j f
      using assms(1) None s'(1,2) that by (cases "j = i") (auto simp: cinv_def)
    ultimately show ?thesis
      using assms(1) None s' p
      by (simp add: cinv_def clean_results_def on_the_way_def stream_reads_append)
  next
    case (Some m)
    with assms(1) s' show ?thesis by (auto simp: cinv_def clean_results_def)
  qed
qed

lemma cinv_done: "cinv src s \<Longrightarrow> cinv src (ctx_read_done s)"
  by (auto simp: cinv_def ctx_read_done_def clean_results_def split: option.splits)

lemma fetch_step_fin: "fetch_step k f b src = (r, src') \<Longrightarrow> fin src' = fin src"
  by (cases f) (auto simp: source_read_def Let_def split: prod.splits if_splits)

lemma cinv_fetch:
  assumes "cinv src s" "ctx_fetch i k s = Some s'"
  shows "cinv src s'"
proof -
  from assms(2) obtain f where f: "cfetchers s i = Some f" "\<not> has_fetched f"
    by (auto simp: ctx_fetch_def split: option.splits if_splits)
  show ?thesis
  proof (cases "cabandoned s")
    case None
    with assms(1) f have w: "cwaiting s = Some i" by (auto simp: cinv_def)
    with assms(1) None f have "fetch_ok (fin (csource s)) (cbuf s) (pending (csource s)) f" by (auto simp: cinv_def)
    from fetch_step_ok [OF this f(2), of k] obtain f' b' src' where
      st: "fetch_step k f (cbuf s) (csource s) = (Some (f', b'), src')" "fin src' = fin (csource s)"
        "fetch_ok (fin (csource s)) b' (pending src') f'"
        "fetch_bytes b' f' @ pending src' = fetch_bytes (cbuf s) f @ pending (csource s)" by blast
    with assms(2) f have "s' = s\<lparr>csource := src', cbuf := b', cfetchers := (cfetchers s)(i \<mapsto> f')\<rparr>"
      by (simp add: ctx_fetch_def)
    moreover have "has_fetched g" if "cfetchers s j = Some g" "j \<noteq> i" for j g
      using assms(1) None w that by (auto simp: cinv_def)
    ultimately show ?thesis
      using assms(1) None w f(1) st by (auto simp: cinv_def clean_results_def on_the_way_def)
  next
    case (Some m)
    obtain r src' where st: "fetch_step k f (cbuf s) (csource s) = (r, src')" by force
    have "fin src' = fin (csource s)" using st by (rule fetch_step_fin)
    moreover have "i < cnext s" using assms(1) f(1) by (simp add: cinv_def)
    ultimately show ?thesis
      using assms f Some st
      by (cases r) (auto simp: cinv_def clean_results_def ctx_fetch_def split: if_splits)
  qed
qed

lemma cinv_step:
  assumes "cinv src s" "cstep e s = Some s'"
  shows "cinv src s'"
proof (cases e)
  case CDone
  with assms(2) have "s' = ctx_read_done s" by (simp split: if_splits)
  with assms(1) show ?thesis by (simp add: cinv_done)
next
  case CCancel
  with assms show ?thesis by (auto simp: ctx_cancel_def cinv_done)
next
  case CClose
  with assms(2) have s': "s' = s\<lparr>cclosed := True\<rparr>" by simp
  have "clean_results s' = clean_results s" "on_the_way s' = on_the_way s"
    by (simp_all add: s' clean_results_def on_the_way_def split: option.split)
  with assms(1) s' show ?thesis by (cases "cwaiting s") (simp_all add: cinv_def)
qed (use assms in \<open>simp_all, metis cinv_begin, metis cinv_fetch, metis cinv_out\<close>)

lemma creach_cinv: "creach src s \<Longrightarrow> cinv src s"
  by (induction rule: creach.induct) (use cinv_init cinv_step in \<open>blast elim: ctransE\<close>)+

lemma read_full_split:
  assumes "pending s = b @ pending s'" "fin s' = fin s" "b \<noteq> []" "length b \<le> m"
  shows "read_full m s =
    (if length b = m then (Inr b, s')
     else case read_full (m - length b) s' of
         (Inr b', s'') \<Rightarrow> (Inr (b @ b'), s'')
       | (Inl e, s'') \<Rightarrow> (Inl (if e = IoEOF then IoUnexpectedEOF else e), s''))"
  using assms by (cases s; cases s') (auto simp: read_full_def)

text \<open>\<open>io.ReadFull\<close> over reads of any sizes gives the same bytes, the same error and the same rest as taking
them from the stream at once.\<close>

lemma read_full_fragments: "read_full_by ready n [] s = read_full n s"
proof -
  have "read_full_by ready n got s =
      (if n \<le> length got then (Inr got, s)
       else case read_full (n - length got) s of
           (Inr b, s') \<Rightarrow> (Inr (got @ b), s')
         | (Inl e, s') \<Rightarrow> (Inl (if e = IoEOF \<and> got \<noteq> [] then IoUnexpectedEOF else e), s'))" for got
  proof (induction ready n got s rule: read_full_by.induct)
    case (1 ready n got s)
    obtain b e s' where sr: "source_read (ready (length got)) (n - length got) s = ((b, e), s')"
      by (metis surj_pair)
    show ?case
    proof (cases e)
      case (Some x)
      with sr have "b = []" "x = fin s" "s' = s" "pending s = []" by (simp_all add: source_read_end)
      with sr Some show ?thesis by (subst read_full_by.simps) (simp add: read_full_def)
    next
      case None
      from source_read_bytes [OF sr [unfolded None]]
      have p: "b \<noteq> []" "pending s = b @ pending s'" "fin s' = fin s" by simp_all
      show ?thesis
      proof (cases "length got < n")
        case True
        with source_read_bytes [OF sr [unfolded None]] have n: "length b \<le> n - length got" by simp
        from True sr None have "read_full_by ready n got s = read_full_by ready n (got @ b) s'"
          by (subst read_full_by.simps) simp
        also have "\<dots> = (if n \<le> length (got @ b) then (Inr (got @ b), s')
            else case read_full (n - length (got @ b)) s' of
                (Inr b', s'') \<Rightarrow> (Inr ((got @ b) @ b'), s'')
              | (Inl e, s'') \<Rightarrow> (Inl (if e = IoEOF \<and> got @ b \<noteq> [] then IoUnexpectedEOF else e), s''))"
          using "1.IH" [OF _ sr [symmetric] refl None] True by simp
        finally show ?thesis using True n p(1) read_full_split [OF p(2,3,1) n]
          by (auto split: prod.splits sum.splits)
      qed (subst read_full_by.simps, simp)
    qed
  qed
  then show ?thesis by (simp add: read_full_def)
qed

subsection \<open>Properties\<close>

text \<open>C20: The goroutines of \<open>ctxReader\<close> and the buffered reader they share are invisible as long as no \<open>Read\<close> is
interrupted: in every schedule, and however many bytes the connection gives at a time, what the reads return are reads of
the connection's stream, with its own error after its last byte; every byte taken from the connection has been returned or
waits in the buffer, and nothing panics.  The results of the reads before the first interrupted one keep that for ever.\<close>

theorem reads_are_the_stream:
  assumes "creach src s"
  shows "stream_reads (pending src) (fin src) (clean_results s)
    \<and> (cabandoned s = None \<longrightarrow> clean_results s = cresults s \<and> \<not> cpanic s
        \<and> (cwaiting s = None \<longrightarrow>
             pending src = concat (map fst (cresults s)) @ unread (cbuf s) @ pending (csource s)))"
  using creach_cinv [OF assms] by (auto simp: cinv_def clean_results_def on_the_way_def)

definition sample_source :: stream where
  "sample_source = \<lparr>pending = [1, 2, 3, 4, 5], fin = IoEOF\<rparr>"

text \<open>Three bytes arrive, two reads of two bytes: the second is served with what is left in the array.\<close>

lemma sample_reads:
  "map_option cresults (crun [CRead 2, CFetch 0 0, CFetch 0 3, CFetch 0 0, COut, CRead 2, CFetch 1 0, COut,
       CRead 9, CFetch 2 0, CFetch 2 9, CFetch 2 0, COut, CRead 1, CFetch 3 0, CFetch 3 1, CFetch 3 0, COut]
       (cinit sample_source))
     = Some [([1, 2], None), ([3], None), ([4, 5], None), ([], Some IoEOF)]"
  by code_simp

lemma reads_are_the_stream_witness:
  "\<exists>s. creach sample_source s \<and> cabandoned s = None \<and> cwaiting s = None \<and> unread (cbuf s) = [3]
     \<and> pending (csource s) = [4, 5] \<and> concat (map fst (cresults s)) = [1, 2]"
proof -
  let ?es = "[CRead 2, CFetch 0 0, CFetch 0 3, CFetch 0 0, COut]"
  have "case crun ?es (cinit sample_source) of None \<Rightarrow> False
      | Some s \<Rightarrow> cabandoned s = None \<and> cwaiting s = None \<and> unread (cbuf s) = [3] \<and> pending (csource s) = [4, 5]"
    by code_simp
  then obtain s where s: "crun ?es (cinit sample_source) = Some s"
    "cabandoned s = None" "cwaiting s = None" "unread (cbuf s) = [3]" "pending (csource s) = [4, 5]"
    by (auto split: option.splits)
  have r: "creach sample_source s" by (rule creach_crun [OF creach_init s(1)])
  have "pending sample_source = concat (map fst (cresults s)) @ unread (cbuf s) @ pending (csource s)"
    using reads_are_the_stream [OF r] s(2,3) by blast
  then have "[1, 2] @ [3, 4, 5] = concat (map fst (cresults s)) @ [3, 4, 5]"
    by (simp only: s(4,5)) (simp add: sample_source_def)
  then have "concat (map fst (cresults s)) = [1, 2]" by (simp only: append_same_eq)
  with r s show ?thesis by blast
qed

text \<open>Decoding does not depend on how the network fragments the bytes: \<open>readNumber\<close> and \<open>readWord\<close>, with
\<open>io.ReadFull\<close> spelled out as a loop over reads of any sizes, give the same values, the same errors and the
same rest as on the stream.\<close>

lemma fragments_do_not_matter:
  "read_number k s =
     (case read_full_by ready k [] s of
        (Inl e, s') \<Rightarrow> (Inl e, s')
      | (Inr b, s') \<Rightarrow> (Inr (number_of b), s'))
   \<and> read_word s =
     (case read_length s of
        (Inl e, s') \<Rightarrow> (Inl e, s')
      | (Inr l, s') \<Rightarrow> read_full_by ready (nat (sint l)) [] s')"
  by (simp add: read_number_def read_word_def read_full_fragments split: prod.split sum.split)

text \<open>
  A read that is interrupted leaves its goroutine behind in the buffered reader.  Whatever that goroutine takes from the
  connection is lost to the next read; and when the next read enters the buffered reader before it has finished, the two
  move the same positions: the second returns bytes from the wrong place of the array, among them bytes that no device
  has sent.
\<close>

lemma cancelled_read_loses_bytes:
  "map_option cresults (crun [CRead 2, CFetch 0 0, CCancel, CFetch 0 2, CFetch 0 0, CRead 2, CFetch 1 0, CFetch 1 2,
       CFetch 1 0, COut] (cinit sample_source))
     = Some [([], Some IoEOF), ([3, 4], None)]"
  by code_simp

lemma cancelled_read_invents_bytes:
  "map_option cresults (crun [CRead 2, CFetch 0 0, CCancel, CRead 2, CFetch 1 0, CFetch 0 3, CFetch 0 0, CFetch 1 2,
       CFetch 1 0, COut] (cinit sample_source))
     = Some [([], Some IoEOF), ([3, 0], None)]"
  by code_simp

end
