(* ===== verification/Proto_Writer.thy ===== *)
theory Proto_Writer
  imports Go_Errors
begin

text \<open>
  \<open>proto/writer.go\<close> over \<open>proto/io_context.go\<close>: the sentence writer.  The connection accepts bytes
  until a point of its own choosing and then fails with an error; \<open>bufio.Writer\<close> buffers in front of
  it with the library's default size, and the writer keeps the first error of a sentence and the
  mutex that \<open>BeginSentence\<close> locks and \<open>EndSentence\<close> unlocks.
\<close>

subsection \<open>Length prefixes\<close>

definition encode_length :: "int64 \<Rightarrow> byte list" where
  "encode_length l =
     (if l <s 0x80 then [ucast l]
      else if l <s 0x4000 then [ucast (drop_bit 8 l) OR 0x80, ucast l]
      else if l <s 0x200000 then [ucast (drop_bit 16 l) OR 0xC0, ucast (drop_bit 8 l), ucast l]
      else if l <s 0x10000000 then
        [ucast (drop_bit 24 l) OR 0xE0, ucast (drop_bit 16 l), ucast (drop_bit 8 l), ucast l]
      else [0xF0, ucast (drop_bit 24 l), ucast (drop_bit 16 l), ucast (drop_bit 8 l), ucast l])"

definition word_bytes :: "string \<Rightarrow> byte list" where
  "word_bytes w = encode_length (word_of_nat (length (to_bytes w))) @ to_bytes w"

definition sentence_bytes :: "string list \<Rightarrow> byte list" where
  "sentence_bytes ws = concat (map word_bytes ws) @ word_bytes []"

subsection \<open>The connection and bufio.Writer\<close>

text \<open>
  \<open>room\<close> is how many more bytes the connection takes before it breaks with \<open>cerr\<close>; \<open>None\<close> is a
  connection that never breaks.  \<open>sent\<close> is everything it has taken.
\<close>

record conn =
  sent :: "byte list"
  room :: "nat option"
  cerr :: goerr

definition conn_write :: "byte list \<Rightarrow> conn \<Rightarrow> (nat \<times> goerr option) \<times> conn" where
  "conn_write b c =
     (case room c of
        None \<Rightarrow> ((length b, None), c\<lparr>sent := sent c @ b\<rparr>)
      | Some n \<Rightarrow>
          if length b \<le> n
          then ((length b, None), c\<lparr>sent := sent c @ b, room := Some (n - length b)\<rparr>)
          else ((n, Some (cerr c)), c\<lparr>sent := sent c @ take n b, room := Some 0\<rparr>))"

record bufw =
  bconn :: conn
  buf :: "byte list"
  berr :: "goerr option"

definition buf_size :: nat where
  "buf_size = 4096"

definition buf_flush :: "bufw \<Rightarrow> goerr option \<times> bufw" where
  "buf_flush w =
     (case berr w of
        Some e \<Rightarrow> (Some e, w)
      | None \<Rightarrow>
          if buf w = [] then (None, w)
          else
            (case conn_write (buf w) (bconn w) of
               ((n, None), c) \<Rightarrow>
                 if n < length (buf w)
                 then (Some IoShortWrite,
                       w\<lparr>bconn := c, buf := drop n (buf w), berr := Some IoShortWrite\<rparr>)
                 else (None, w\<lparr>bconn := c, buf := []\<rparr>)
             | ((n, Some e), c) \<Rightarrow>
                 (Some e, w\<lparr>bconn := c, buf := drop n (buf w), berr := Some e\<rparr>)))"

text \<open>
  The loop of \<open>bufio.Writer.Write\<close>: while the data does not fit and no error has occurred, an empty
  buffer is bypassed and a part-filled one is filled up and flushed.
\<close>

definition buf_step :: "byte list \<Rightarrow> bufw \<Rightarrow> nat \<times> bufw" where
  "buf_step p w =
     (if buf w = []
      then (case conn_write p (bconn w) of
              ((n, e), c) \<Rightarrow> (n, w\<lparr>bconn := c, berr := e\<rparr>))
      else (let n = min (length p) (buf_size - length (buf w)) in
            (n, snd (buf_flush (w\<lparr>buf := buf w @ take n p\<rparr>)))))"

lemma conn_write_full:
  "conn_write b c = ((n, None), c') \<Longrightarrow> n = length b \<and> sent c' = sent c @ b"
  by (auto simp: conn_write_def split: option.splits if_splits)

lemma conn_write_prefix:
  "conn_write b c = ((n, e), c') \<Longrightarrow> n \<le> length b \<and> sent c' = sent c @ take n b"
  by (auto simp: conn_write_def split: option.splits if_splits)

lemma buf_flush_result:
  "buf_flush w = (r, w') \<Longrightarrow> berr w' = r"
  by (auto simp: buf_flush_def split: option.splits prod.splits if_splits)

lemma buf_flush_empties: "buf_flush w = (None, w') \<Longrightarrow> buf w' = []"
  by (auto simp: buf_flush_def split: option.splits prod.splits if_splits)

lemma buf_step_progress:
  assumes "buf_step p w = (n, w')" "berr w = None" "buf_size - length (buf w) < length p"
  shows "berr w' \<noteq> None \<or> length (drop n p) < length p
    \<or> length (drop n p) = length p \<and> length (buf w') < length (buf w)"
proof (cases "buf w = []")
  case True
  obtain e c where cw: "conn_write p (bconn w) = ((n, e), c)" and e: "berr w' = e"
    using assms(1) True by (auto simp: buf_step_def split: prod.splits)
  show ?thesis
  proof (cases e)
    case None
    with cw have "n = length p" by (simp add: conn_write_full)
    with assms(3) show ?thesis by auto
  qed (simp add: e)
next
  case False
  then have n: "n = min (length p) (buf_size - length (buf w))"
    and w': "w' = snd (buf_flush (w\<lparr>buf := buf w @ take n p\<rparr>))"
    using assms(1) by (auto simp: buf_step_def Let_def)
  obtain r w1 where fl: "buf_flush (w\<lparr>buf := buf w @ take n p\<rparr>) = (r, w1)" by force
  with w' have w1: "w' = w1" by simp
  show ?thesis
  proof (cases r)
    case None
    with fl have "buf w' = []" by (simp add: w1 buf_flush_empties)
    with False n assms(3) show ?thesis by (cases n) auto
  next
    case (Some e)
    with fl show ?thesis by (simp add: w1 buf_flush_result)
  qed
qed

function buf_write :: "byte list \<Rightarrow> bufw \<Rightarrow> goerr option \<times> bufw" where
  "buf_write p w =
     (if buf_size - length (buf w) < length p \<and> berr w = None
      then (let (n, w') = buf_step p w in buf_write (drop n p) w')
      else case berr w of
             Some e \<Rightarrow> (Some e, w)
           | None \<Rightarrow> (None, w\<lparr>buf := buf w @ p\<rparr>))"
  by pat_completeness auto
termination
proof (relation "measures [\<lambda>(p, w). if berr w = None then 1 else 0, \<lambda>(p, w). length p,
    \<lambda>(p, w). length (buf w)]")
  fix p :: "byte list" and w n w' x
  assume "buf_size - length (buf w) < length p \<and> berr w = None" "x = buf_step p w" "(n, w') = x"
  with buf_step_progress [of p w n w']
  show "((drop n p, w'), p, w) \<in> measures [\<lambda>(p, w). if berr w = None then 1 else 0,
      \<lambda>(p, w). length p, \<lambda>(p, w). length (buf w)]"
    by auto
qed simp

declare buf_write.simps [simp del]

text \<open>
  Nothing is lost, reordered or duplicated: until the first error the bytes sent followed by the
  bytes buffered are the bytes written.  The invariant of the buffer: fewer than its size are kept.
\<close>

definition accepted :: "bufw \<Rightarrow> byte list" where
  "accepted w = sent (bconn w) @ buf w"

lemma buf_flush_accepted:
  "buf_flush w = (r, w') \<Longrightarrow> accepted w' = accepted w"
  by (auto simp: buf_flush_def accepted_def split: option.splits prod.splits if_splits
      dest: conn_write_prefix)

lemma buf_step_accepted:
  assumes "buf_step p w = (n, w')" and "berr w = None"
  shows "accepted w' = accepted w @ take n p"
proof (cases "buf w = []")
  case True
  with assms show ?thesis
    by (auto simp: buf_step_def accepted_def split: prod.splits dest: conn_write_prefix)
next
  case False
  with assms have "w' = snd (buf_flush (w\<lparr>buf := buf w @ take n p\<rparr>))"
    by (auto simp: buf_step_def Let_def)
  then have "accepted w' = accepted (w\<lparr>buf := buf w @ take n p\<rparr>)"
    by (metis buf_flush_accepted prod.collapse)
  then show ?thesis by (simp add: accepted_def)
qed

lemma buf_write_accepted:
  "buf_write p w = (None, w') \<Longrightarrow> accepted w' = accepted w @ p \<and> berr w' = None"
proof (induction p w rule: buf_write.induct)
  case (1 p w)
  show ?case
  proof (cases "buf_size - length (buf w) < length p \<and> berr w = None")
    case True
    obtain n w1 where st: "buf_step p w = (n, w1)" by force
    with True "1.prems" have "buf_write (drop n p) w1 = (None, w')"
      by (simp add: buf_write.simps [of p w])
    with "1.IH" [OF True] st have "accepted w' = accepted w1 @ drop n p \<and> berr w' = None"
      by simp
    with buf_step_accepted [OF st] True show ?thesis by simp
  next
    case False
    with "1.prems" show ?thesis
      by (auto simp: buf_write.simps [of p w] accepted_def split: option.splits)
  qed
qed

lemma buf_write_error:
  "buf_write p w = (Some e, w') \<Longrightarrow>
     berr w' = Some e \<and> (\<exists>k \<le> length p. accepted w' = accepted w @ take k p)"
proof (induction p w rule: buf_write.induct)
  case (1 p w)
  show ?case
  proof (cases "buf_size - length (buf w) < length p \<and> berr w = None")
    case True
    obtain n w1 where st: "buf_step p w = (n, w1)" by force
    with True "1.prems" have "buf_write (drop n p) w1 = (Some e, w')"
      by (simp add: buf_write.simps [of p w])
    with "1.IH" [OF True] st have
      "berr w' = Some e \<and> (\<exists>k \<le> length p - n. accepted w' = accepted w1 @ take k (drop n p))"
      by simp
    then obtain k where "berr w' = Some e" "k \<le> length p - n"
      "accepted w' = accepted w1 @ take k (drop n p)"
      by blast
    moreover have "accepted w1 = accepted w @ take n p"
      using buf_step_accepted [OF st] True by simp
    ultimately show ?thesis
      by (intro conjI exI [of _ "min (n + k) (length p)"]) (auto simp: take_add min_def)
  next
    case False
    with "1.prems" show ?thesis
      by (auto simp: buf_write.simps [of p w] intro: exI [of _ 0] split: option.splits)
  qed
qed

subsection \<open>The sentence writer\<close>

text \<open>
  \<open>werr\<close> is the first error of any call, \<open>wlocked\<close> the mutex.  \<open>ctxWriter.Write\<close> runs the
  buffered write in a goroutine and selects between its result and the \<open>done\<close> channel; a call whose
  select takes \<open>done\<close> (the argument \<open>intr\<close>, possible only after \<open>Close\<close> or during a \<open>Cancel\<close>)
  reports \<open>io.EOF\<close> while the goroutine still completes.
\<close>

record writer =
  wbuf :: bufw
  werr :: "goerr option"
  wlocked :: bool

definition new_writer :: "conn \<Rightarrow> writer" where
  "new_writer c = \<lparr>wbuf = \<lparr>bconn = c, buf = [], berr = None\<rparr>, werr = None, wlocked = False\<rparr>"

definition ctx_write :: "bool \<Rightarrow> byte list \<Rightarrow> bufw \<Rightarrow> goerr option \<times> bufw" where
  "ctx_write intr b w =
     (let (r, w') = buf_write b w in (if intr then Some IoEOF else r, w'))"

definition write_bytes :: "bool \<Rightarrow> byte list \<Rightarrow> writer \<Rightarrow> writer" where
  "write_bytes intr b w =
     (case werr w of
        Some e \<Rightarrow> w
      | None \<Rightarrow> (let (r, bw) = ctx_write intr b (wbuf w) in
                 (case r of None \<Rightarrow> w\<lparr>wbuf := bw\<rparr> | Some e \<Rightarrow> w\<lparr>wbuf := bw, werr := Some e\<rparr>)))"

definition write_word :: "bool \<Rightarrow> string \<Rightarrow> writer \<Rightarrow> writer" where
  "write_word intr word w =
     (let b = to_bytes word in
      write_bytes intr b (write_bytes intr (encode_length (word_of_nat (length b))) w))"

definition flush_writer :: "writer \<Rightarrow> writer" where
  "flush_writer w =
     (case werr w of
        Some e \<Rightarrow> w
      | None \<Rightarrow> (let (r, bw) = buf_flush (wbuf w) in
                 (case r of None \<Rightarrow> w\<lparr>wbuf := bw\<rparr> | Some e \<Rightarrow> w\<lparr>wbuf := bw, werr := Some e\<rparr>)))"

text \<open>\<open>BeginSentence\<close> blocks while the mutex is held: \<open>None\<close>.\<close>

definition begin_sentence :: "writer \<Rightarrow> writer option" where
  "begin_sentence w = (if wlocked w then None else Some (w\<lparr>wlocked := True\<rparr>))"

definition end_sentence :: "bool \<Rightarrow> writer \<Rightarrow> goerr option \<times> writer" where
  "end_sentence intr w =
     (let w' = flush_writer (write_word intr [] w) in (werr w', w'\<lparr>wlocked := False\<rparr>))"

definition write_words :: "bool \<Rightarrow> string list \<Rightarrow> writer \<Rightarrow> writer" where
  "write_words intr ws w = fold (write_word intr) ws w"

text \<open>A whole sentence, as every caller writes one.\<close>

definition send_sentence :: "bool \<Rightarrow> string list \<Rightarrow> writer \<Rightarrow> (goerr option \<times> writer) option" where
  "send_sentence intr ws w =
     (case begin_sentence w of
        None \<Rightarrow> None
      | Some w1 \<Rightarrow> Some (end_sentence intr (write_words intr ws w1)))"

definition wire :: "writer \<Rightarrow> byte list" where
  "wire w = accepted (wbuf w)"

lemma write_bytes_locked [simp]: "wlocked (write_bytes intr b w) = wlocked w"
  by (simp add: write_bytes_def split: option.split prod.split)

lemma write_word_locked [simp]: "wlocked (write_word intr x w) = wlocked w"
  by (simp add: write_word_def Let_def)

lemma write_words_locked [simp]: "wlocked (write_words intr xs w) = wlocked w"
  unfolding write_words_def by (induction xs arbitrary: w) simp_all

text \<open>Once there is an error nothing more is written and the error is kept.\<close>

lemma write_bytes_sticky: "werr w = Some e \<Longrightarrow> write_bytes intr b w = w"
  by (simp add: write_bytes_def)

lemma write_word_sticky: "werr w = Some e \<Longrightarrow> write_word intr x w = w"
  by (simp add: write_word_def write_bytes_sticky Let_def)

lemma write_words_sticky: "werr w = Some e \<Longrightarrow> write_words intr xs w = w"
  unfolding write_words_def by (induction xs) (simp_all add: write_word_sticky)

text \<open>Without an error the bytes of the words have been accepted in order.\<close>

lemma write_bytes_ok:
  assumes "werr (write_bytes intr b w) = None"
  shows "werr w = None \<and> wire (write_bytes intr b w) = wire w @ b"
proof (cases "werr w")
  case None
  obtain r bw where bw: "buf_write b (wbuf w) = (r, bw)" by force
  with assms None have "r = None" "\<not> intr"
    by (auto simp: write_bytes_def ctx_write_def split: option.splits if_splits)
  with None bw buf_write_accepted [of b "wbuf w" bw] show ?thesis
    by (simp add: write_bytes_def ctx_write_def wire_def)
next
  case (Some e)
  with assms show ?thesis by (simp add: write_bytes_sticky)
qed

lemma write_word_ok:
  assumes "werr (write_word intr x w) = None"
  shows "werr w = None \<and> wire (write_word intr x w) = wire w @ word_bytes x"
proof -
  let ?w1 = "write_bytes intr (encode_length (word_of_nat (length (to_bytes x)))) w"
  have two: "write_word intr x w = write_bytes intr (to_bytes x) ?w1"
    by (simp add: write_word_def Let_def)
  from write_bytes_ok [of intr "to_bytes x" ?w1] assms two
  have "werr ?w1 = None" and "wire (write_word intr x w) = wire ?w1 @ to_bytes x"
    by simp_all
  with write_bytes_ok [of intr _ w] show ?thesis
    by (simp add: word_bytes_def)
qed

lemma write_words_ok:
  "werr (write_words intr xs w) = None \<Longrightarrow>
     werr w = None \<and> wire (write_words intr xs w) = wire w @ concat (map word_bytes xs)"
proof (induction xs arbitrary: w)
  case Nil
  then show ?case by (simp add: write_words_def)
next
  case (Cons x xs)
  then have "werr (write_words intr xs (write_word intr x w)) = None"
    by (simp add: write_words_def)
  from Cons.IH [OF this] write_word_ok [of intr x w] show ?case
    by (simp add: write_words_def)
qed

lemma flush_writer_ok:
  assumes "werr (flush_writer w) = None"
  shows "werr w = None \<and> wire (flush_writer w) = wire w \<and> buf (wbuf (flush_writer w)) = []"
proof (cases "werr w")
  case None
  obtain r bw where fl: "buf_flush (wbuf w) = (r, bw)" by force
  with assms None have "r = None" by (auto simp: flush_writer_def split: option.splits)
  with None fl show ?thesis
    by (simp add: flush_writer_def wire_def buf_flush_accepted buf_flush_empties)
next
  case (Some e)
  with assms show ?thesis by (simp add: flush_writer_def)
qed

text \<open>A healthy connection: no error so far and no limit on what it takes.\<close>

definition healthy :: "writer \<Rightarrow> bool" where
  "healthy w \<longleftrightarrow> werr w = None \<and> berr (wbuf w) = None \<and> room (bconn (wbuf w)) = None"

lemma buf_flush_healthy:
  assumes "berr w = None" "room (bconn w) = None"
  shows "\<exists>w'. buf_flush w = (None, w') \<and> berr w' = None \<and> room (bconn w') = None"
  using assms by (auto simp: buf_flush_def conn_write_def)

lemma buf_write_healthy:
  "berr w = None \<Longrightarrow> room (bconn w) = None \<Longrightarrow>
     \<exists>w'. buf_write p w = (None, w') \<and> berr w' = None \<and> room (bconn w') = None"
proof (induction p w rule: buf_write.induct)
  case (1 p w)
  show ?case
  proof (cases "buf_size - length (buf w) < length p \<and> berr w = None")
    case True
    obtain n w1 where st: "buf_step p w = (n, w1)" by force
    have "berr w1 = None \<and> room (bconn w1) = None"
    proof (cases "buf w = []")
      case True
      with st "1.prems" show ?thesis by (auto simp: buf_step_def conn_write_def)
    next
      case False
      with st have "w1 = snd (buf_flush (w\<lparr>buf := buf w @ take n p\<rparr>))"
        by (auto simp: buf_step_def Let_def)
      with buf_flush_healthy [of "w\<lparr>buf := buf w @ take n p\<rparr>"] "1.prems" show ?thesis by auto
    qed
    with "1.IH" [OF True] st True show ?thesis
      by (simp add: buf_write.simps [of p w])
  next
    case False
    with "1.prems" show ?thesis by (simp add: buf_write.simps [of p w])
  qed
qed

lemma write_bytes_healthy: "healthy w \<Longrightarrow> healthy (write_bytes False b w)"
  using buf_write_healthy [of "wbuf w" b]
  by (auto simp: healthy_def write_bytes_def ctx_write_def)

lemma write_words_healthy: "healthy w \<Longrightarrow> healthy (write_words False xs w)"
  unfolding write_words_def
  by (induction xs arbitrary: w) (simp_all add: write_word_def write_bytes_healthy Let_def)

lemma flush_writer_healthy: "healthy w \<Longrightarrow> healthy (flush_writer w)"
  using buf_flush_healthy [of "wbuf w"] by (auto simp: healthy_def flush_writer_def)

subsection \<open>Sending a sentence\<close>

lemma end_sentence_ok:
  assumes "end_sentence intr (write_words intr ws w) = (None, w')"
  shows "sent (bconn (wbuf w')) = wire w @ sentence_bytes ws \<and> buf (wbuf w') = [] \<and> \<not> wlocked w'"
proof -
  let ?w2 = "write_word intr [] (write_words intr ws w)"
  from assms have e: "werr (flush_writer ?w2) = None" and w': "w' = (flush_writer ?w2)\<lparr>wlocked := False\<rparr>"
    by (auto simp: end_sentence_def Let_def)
  from flush_writer_ok [OF e] have f: "werr ?w2 = None" "wire (flush_writer ?w2) = wire ?w2"
    "buf (wbuf (flush_writer ?w2)) = []" by simp_all
  from write_word_ok [OF f(1)] write_words_ok [of intr ws w]
  have "wire ?w2 = wire w @ sentence_bytes ws"
    by (simp add: sentence_bytes_def)
  with f w' show ?thesis
    by (simp add: wire_def accepted_def)
qed

lemma end_sentence_healthy:
  assumes "healthy w"
  shows "\<exists>w'. end_sentence False (write_words False ws w) = (None, w') \<and> healthy w'"
proof -
  have h: "healthy (flush_writer (write_word False [] (write_words False ws w)))"
    using assms
    by (simp add: write_words_healthy flush_writer_healthy write_word_def write_bytes_healthy Let_def)
  then show ?thesis
    by (simp add: end_sentence_def Let_def healthy_def)
qed

lemma send_sentence_ok:
  "send_sentence intr ws w = Some (None, w') \<Longrightarrow>
     sent (bconn (wbuf w')) = wire w @ sentence_bytes ws \<and> buf (wbuf w') = [] \<and> \<not> wlocked w'"
  by (auto simp: send_sentence_def begin_sentence_def wire_def split: if_splits
      dest!: end_sentence_ok)

lemma send_sentence_healthy:
  assumes "healthy w" "\<not> wlocked w"
  shows "\<exists>w'. send_sentence False ws w = Some (None, w') \<and> healthy w'"
  using end_sentence_healthy [of "w\<lparr>wlocked := True\<rparr>" ws] assms
  by (simp add: send_sentence_def begin_sentence_def healthy_def)

lemma send_sentence_unlocks:
  "send_sentence intr ws w = Some (r, w') \<Longrightarrow> \<not> wlocked w' \<and> werr w' = r"
  by (auto simp: send_sentence_def begin_sentence_def end_sentence_def Let_def split: if_splits)

lemma send_sentence_sticky:
  assumes "werr w = Some e" "\<not> wlocked w"
  shows "send_sentence intr ws w = Some (Some e, w)"
proof -
  have "write_words intr ws (w\<lparr>wlocked := True\<rparr>) = w\<lparr>wlocked := True\<rparr>"
    using assms(1) by (simp add: write_words_sticky)
  with assms show ?thesis
    by (simp add: send_sentence_def begin_sentence_def end_sentence_def write_word_sticky
        flush_writer_def)
qed

subsection \<open>Properties\<close>

text \<open>A sentence that is reported as sent is on the connection: exactly the bytes of its words and of
the empty word follow what was there, nothing stays in the buffer, and the mutex is free.\<close>

lemma send_sentence_exact:
  assumes "send_sentence intr ws w = Some (None, w')"
  shows "sent (bconn (wbuf w')) = wire w @ sentence_bytes ws \<and> buf (wbuf w') = [] \<and> \<not> wlocked w'"
  using send_sentence_ok [OF assms] .

lemma send_sentence_exact_witness:
  "\<exists>w'. send_sentence False [''/x''] (new_writer \<lparr>sent = [], room = None, cerr = IoEOF\<rparr>) = Some (None, w')
     \<and> sent (bconn (wbuf w')) = [2, 47, 120, 0]"
proof -
  have h: "healthy (new_writer \<lparr>sent = [], room = None, cerr = IoEOF\<rparr>)"
    "\<not> wlocked (new_writer \<lparr>sent = [], room = None, cerr = IoEOF\<rparr>)"
    "wire (new_writer \<lparr>sent = [], room = None, cerr = IoEOF\<rparr>) = []"
    by (simp_all add: healthy_def new_writer_def wire_def accepted_def)
  have b: "sentence_bytes [''/x''] = [2, 47, 120, 0]" by code_simp
  from send_sentence_healthy [OF h(1,2)] obtain w' where
    w': "send_sentence False [''/x''] (new_writer \<lparr>sent = [], room = None, cerr = IoEOF\<rparr>) = Some (None, w')"
    by blast
  from send_sentence_exact [OF this] w' show ?thesis by (auto simp: h(3) b)
qed

text \<open>The first write error is kept: every later sentence reports it, writes nothing, and still
releases the mutex.\<close>

lemma write_errors_stick:
  assumes "send_sentence intr ws w = Some (Some e, w')"
  shows "send_sentence intr' ws' w' = Some (Some e, w')"
proof -
  from send_sentence_unlocks [OF assms] have "\<not> wlocked w'" "werr w' = Some e" by simp_all
  then show ?thesis by (rule send_sentence_sticky [rotated])
qed

text \<open>Over a connection that does not fail every sentence is sent in full, however long it is compared
with the buffer.\<close>

lemma send_sentence_succeeds:
  assumes "healthy w" "\<not> wlocked w"
  shows "\<exists>w'. send_sentence False ws w = Some (None, w') \<and> healthy w' \<and> \<not> wlocked w'
       \<and> sent (bconn (wbuf w')) = wire w @ sentence_bytes ws"
  using send_sentence_healthy [OF assms, of ws] send_sentence_ok [of False ws w] by blast

end
