(* ===== verification/Ctx_Writer.thy ===== *)
theory Ctx_Writer
  imports Proto_Writer
begin

text \<open>
  \<open>ctxWriter.Write\<close> of \<open>proto/io_context.go\<close> with its goroutines, under the writer of \<open>proto/writer.go\<close>.  Every
  \<open>Write\<close> starts a goroutine that writes a copy of the bytes to the one buffered writer; an interrupted
  \<open>Write\<close> returns while its goroutine may still be at it.  The buffered writer is not safe for concurrent
  use, so the question is who can be in it at the same time; the sequential writer, in which an
  interrupted write has completed, is the specification.
\<close>

subsection \<open>The sequential writer\<close>

datatype wop = OpWrite "byte list" | OpFlush

fun do_wop :: "bool \<times> wop \<Rightarrow> writer \<Rightarrow> writer" where
  "do_wop (intr, OpWrite b) w = write_bytes intr b w"
| "do_wop (intr, OpFlush) w = flush_writer w"

definition do_wops :: "(bool \<times> wop) list \<Rightarrow> writer \<Rightarrow> writer" where
  "do_wops h w = fold do_wop h w"

lemma do_wops_snoc [simp]: "do_wops (h @ [op]) w = do_wop op (do_wops h w)"
  by (simp add: do_wops_def)

lemma do_wops_Nil [simp]: "do_wops [] w = w"
  by (simp add: do_wops_def)

subsection \<open>Writes and their goroutines\<close>

text \<open>
  A goroutine is in its write of the buffered writer, or has put its result on its channel.  \<open>xwaiting\<close> is
  the goroutine the current \<open>Write\<close> waits for, \<open>xops\<close> lists the calls of the writer in their order.
\<close>

datatype sender = Sending "byte list" | Delivered "goerr option"

record xstate =
  xw :: writer
  xgos :: "nat \<rightharpoonup> sender"
  xnext :: nat
  xwaiting :: "nat option"
  xclosed :: bool
  xops :: "wop list"

definition xinit :: "writer \<Rightarrow> xstate" where
  "xinit w = \<lparr>xw = w, xgos = Map.empty, xnext = 0, xwaiting = None, xclosed = False, xops = []\<rparr>"

text \<open>\<open>writer.write\<close> up to the select: nothing is written after an error.\<close>

definition ctx_write_begin :: "byte list \<Rightarrow> xstate \<Rightarrow> xstate option" where
  "ctx_write_begin b s =
     (if xwaiting s \<noteq> None then None
      else if werr (xw s) \<noteq> None then Some s
      else Some (s\<lparr>xgos := (xgos s)(xnext s \<mapsto> Sending b), xwaiting := Some (xnext s), xnext := xnext s + 1,
             xops := xops s @ [OpWrite b]\<rparr>))"

definition ctx_send :: "nat \<Rightarrow> xstate \<Rightarrow> xstate option" where
  "ctx_send i s =
     (case xgos s i of
        Some (Sending b) \<Rightarrow>
          (case buf_write b (wbuf (xw s)) of
             (r, bw) \<Rightarrow> Some (s\<lparr>xw := (xw s)\<lparr>wbuf := bw\<rparr>, xgos := (xgos s)(i \<mapsto> Delivered r)\<rparr>))
      | _ \<Rightarrow> None)"

text \<open>The two branches of the select, with the error \<open>writer.write\<close> keeps.\<close>

definition ctx_write_out :: "xstate \<Rightarrow> xstate option" where
  "ctx_write_out s =
     (case xwaiting s of
        None \<Rightarrow> None
      | Some i \<Rightarrow>
          (case xgos s i of
             Some (Delivered r) \<Rightarrow>
               Some (s\<lparr>xwaiting := None, xw := (case r of None \<Rightarrow> xw s | Some e \<Rightarrow> (xw s)\<lparr>werr := Some e\<rparr>)\<rparr>)
           | _ \<Rightarrow> None))"

definition ctx_write_done :: "xstate \<Rightarrow> xstate" where
  "ctx_write_done s = s\<lparr>xwaiting := None, xw := (xw s)\<lparr>werr := Some IoEOF\<rparr>\<rparr>"

definition ctx_write_cancel :: "xstate \<Rightarrow> xstate" where
  "ctx_write_cancel s = (if xclosed s \<or> xwaiting s = None then s else ctx_write_done s)"

definition ctx_flush :: "xstate \<Rightarrow> xstate option" where
  "ctx_flush s =
     (if xwaiting s \<noteq> None then None
      else if werr (xw s) \<noteq> None then Some s
      else Some (s\<lparr>xw := flush_writer (xw s), xops := xops s @ [OpFlush]\<rparr>))"

datatype xevent = XWrite "byte list" | XSend nat | XOut | XDone | XCancel | XClose | XFlush

fun xstep :: "xevent \<Rightarrow> xstate \<Rightarrow> xstate option" where
  "xstep (XWrite b) s = ctx_write_begin b s"
| "xstep (XSend i) s = ctx_send i s"
| "xstep XOut s = ctx_write_out s"
| "xstep XDone s = (if xclosed s \<and> xwaiting s \<noteq> None then Some (ctx_write_done s) else None)"
| "xstep XCancel s = Some (ctx_write_cancel s)"
| "xstep XClose s = Some (s\<lparr>xclosed := True\<rparr>)"
| "xstep XFlush s = ctx_flush s"

inductive xreach :: "writer \<Rightarrow> xstate \<Rightarrow> bool" for w0 where
  xreach_init: "xreach w0 (xinit w0)"
| xreach_next: "xreach w0 s \<Longrightarrow> xstep e s = Some s' \<Longrightarrow> xreach w0 s'"

fun xrun :: "xevent list \<Rightarrow> xstate \<Rightarrow> xstate option" where
  "xrun [] s = Some s"
| "xrun (e # es) s = (case xstep e s of None \<Rightarrow> None | Some s' \<Rightarrow> xrun es s')"

lemma xreach_xrun: "xreach w0 s \<Longrightarrow> xrun es s = Some s' \<Longrightarrow> xreach w0 s'"
  by (induction es arbitrary: s) (auto split: option.splits intro: xreach.xreach_next)

subsection \<open>The invariant\<close>

text \<open>
  Four situations: nobody is in the buffer; the current write is; an interrupted one is, and then the
  sticky error keeps everybody else out; the current write has finished but has not been received.
\<close>

definition sending :: "xstate \<Rightarrow> nat \<Rightarrow> byte list \<Rightarrow> bool" where
  "sending s i b \<longleftrightarrow> xgos s i = Some (Sending b)"

definition alone :: "xstate \<Rightarrow> nat \<Rightarrow> byte list \<Rightarrow> bool" where
  "alone s i b \<longleftrightarrow> sending s i b \<and> (\<forall>j c. sending s j c \<longrightarrow> j = i)"

definition quiet_buffer :: "xstate \<Rightarrow> bool" where
  "quiet_buffer s \<longleftrightarrow> (\<forall>i b. \<not> sending s i b)"

definition xidle :: "writer \<Rightarrow> (bool \<times> wop) list \<Rightarrow> xstate \<Rightarrow> bool" where
  "xidle w0 h s \<longleftrightarrow>
     xwaiting s = None \<and> quiet_buffer s \<and> xw s = do_wops h w0 \<and> xops s = map snd h"

definition xbusy :: "writer \<Rightarrow> (bool \<times> wop) list \<Rightarrow> xstate \<Rightarrow> bool" where
  "xbusy w0 h s \<longleftrightarrow>
     (\<exists>i b. xwaiting s = Some i \<and> alone s i b \<and> werr (do_wops h w0) = None
        \<and> xw s = do_wops h w0 \<and> xops s = map snd h @ [OpWrite b])"

definition xleft :: "writer \<Rightarrow> (bool \<times> wop) list \<Rightarrow> xstate \<Rightarrow> bool" where
  "xleft w0 h s \<longleftrightarrow>
     (\<exists>i b. xwaiting s = None \<and> alone s i b \<and> werr (do_wops h w0) = None
        \<and> xw s = (do_wops h w0)\<lparr>werr := Some IoEOF\<rparr> \<and> xops s = map snd h @ [OpWrite b])"

definition xready :: "writer \<Rightarrow> (bool \<times> wop) list \<Rightarrow> xstate \<Rightarrow> bool" where
  "xready w0 h s \<longleftrightarrow>
     (\<exists>i b r bw. xwaiting s = Some i \<and> quiet_buffer s \<and> xgos s i = Some (Delivered r)
        \<and> werr (do_wops h w0) = None \<and> buf_write b (wbuf (do_wops h w0)) = (r, bw)
        \<and> xw s = (do_wops h w0)\<lparr>wbuf := bw\<rparr> \<and> xops s = map snd h @ [OpWrite b])"

definition xinv :: "writer \<Rightarrow> xstate \<Rightarrow> bool" where
  "xinv w0 s \<longleftrightarrow> (\<exists>h. xidle w0 h s \<or> xbusy w0 h s \<or> xleft w0 h s \<or> xready w0 h s)"

lemmas xinv_defs = xidle_def xbusy_def xleft_def xready_def alone_def quiet_buffer_def sending_def

lemma xinv_init: "xinv w0 (xinit w0)"
  unfolding xinv_def by (rule exI [of _ "[]"]) (simp add: xidle_def quiet_buffer_def sending_def xinit_def)

lemma xinv_begin:
  assumes "xinv w0 s" "ctx_write_begin b s = Some s'"
  shows "xinv w0 s'"
proof (cases "werr (xw s) = None")
  case False
  with assms show ?thesis by (auto simp: ctx_write_begin_def split: if_splits)
next
  case True
  with assms(2) have s': "xwaiting s = None" "s' = s\<lparr>xgos := (xgos s)(xnext s \<mapsto> Sending b),
      xwaiting := Some (xnext s), xnext := xnext s + 1, xops := xops s @ [OpWrite b]\<rparr>"
    by (auto simp: ctx_write_begin_def split: if_splits)
  with assms(1) True obtain h where "xidle w0 h s" by (auto simp: xinv_def xbusy_def xleft_def xready_def)
  with True s' have "xbusy w0 h s'" by (auto simp: xinv_defs)
  then show ?thesis by (auto simp: xinv_def)
qed

lemma xinv_send:
  assumes "xinv w0 s" "ctx_send i s = Some s'"
  shows "xinv w0 s'"
proof -
  obtain b r bw where g: "sending s i b" and bw: "buf_write b (wbuf (xw s)) = (r, bw)"
    and s': "s' = s\<lparr>xw := (xw s)\<lparr>wbuf := bw\<rparr>, xgos := (xgos s)(i \<mapsto> Delivered r)\<rparr>"
    using assms(2) by (auto simp: ctx_send_def sending_def split: option.splits sender.splits prod.splits)
  from assms(1) g obtain h where "xbusy w0 h s \<or> xleft w0 h s"
    by (auto simp: xinv_def xidle_def xready_def quiet_buffer_def)
  then show ?thesis
  proof
    assume "xbusy w0 h s"
    with g have b: "xwaiting s = Some i" "alone s i b" "werr (do_wops h w0) = None"
      "xw s = do_wops h w0" "xops s = map snd h @ [OpWrite b]" by (auto simp: xinv_defs)
    then have "quiet_buffer s'" by (auto simp: quiet_buffer_def alone_def sending_def s')
    with b bw have "xready w0 h s'"
      unfolding xready_def by (intro exI [of _ i] exI [of _ b] exI [of _ r] exI [of _ bw]) (simp add: s')
    then show ?thesis by (auto simp: xinv_def)
  next
    assume l: "xleft w0 h s"
    with g have w: "werr (do_wops h w0) = None" "xw s = (do_wops h w0)\<lparr>werr := Some IoEOF\<rparr>"
      "xops s = map snd h @ [OpWrite b]" "xwaiting s = None" by (auto simp: xinv_defs)
    from l g have "quiet_buffer s'" by (auto simp: xinv_defs s')
    with w bw have "xidle w0 (h @ [(True, OpWrite b)]) s'"
      by (simp add: xidle_def s' write_bytes_def ctx_write_def)
    then show ?thesis by (auto simp: xinv_def)
  qed
qed

lemma xinv_out:
  assumes "xinv w0 s" "ctx_write_out s = Some s'"
  shows "xinv w0 s'"
proof -
  obtain i r where w: "xwaiting s = Some i" "xgos s i = Some (Delivered r)"
    and s': "s' = s\<lparr>xwaiting := None, xw := (case r of None \<Rightarrow> xw s | Some e \<Rightarrow> (xw s)\<lparr>werr := Some e\<rparr>)\<rparr>"
    using assms(2) by (auto simp: ctx_write_out_def split: option.splits sender.splits)
  with assms(1) obtain h where "xready w0 h s" by (auto simp: xinv_def xidle_def xbusy_def xleft_def alone_def sending_def)
  with w obtain b bw where h: "werr (do_wops h w0) = None" "buf_write b (wbuf (do_wops h w0)) = (r, bw)"
    "xw s = (do_wops h w0)\<lparr>wbuf := bw\<rparr>" "xops s = map snd h @ [OpWrite b]" "quiet_buffer s"
    by (auto simp: xready_def)
  then have "xidle w0 (h @ [(False, OpWrite b)]) s'"
    by (auto simp: xidle_def s' write_bytes_def ctx_write_def quiet_buffer_def sending_def split: option.split)
  then show ?thesis by (auto simp: xinv_def)
qed

lemma xinv_done:
  assumes "xinv w0 s" "xwaiting s \<noteq> None"
  shows "xinv w0 (ctx_write_done s)"
proof -
  from assms obtain h where "xbusy w0 h s \<or> xready w0 h s"
    by (auto simp: xinv_def xidle_def xleft_def)
  then show ?thesis
  proof
    assume "xbusy w0 h s"
    then have "xleft w0 h (ctx_write_done s)"
      by (auto simp: xbusy_def xleft_def ctx_write_done_def alone_def sending_def)
    then show ?thesis by (auto simp: xinv_def)
  next
    assume "xready w0 h s"
    then obtain b r bw where h: "werr (do_wops h w0) = None" "buf_write b (wbuf (do_wops h w0)) = (r, bw)"
      "xw s = (do_wops h w0)\<lparr>wbuf := bw\<rparr>" "xops s = map snd h @ [OpWrite b]" "quiet_buffer s"
      by (auto simp: xready_def)
    then have "xidle w0 (h @ [(True, OpWrite b)]) (ctx_write_done s)"
      by (simp add: xidle_def ctx_write_done_def write_bytes_def ctx_write_def quiet_buffer_def sending_def)
    then show ?thesis by (auto simp: xinv_def)
  qed
qed

lemma xinv_flush:
  assumes "xinv w0 s" "ctx_flush s = Some s'"
  shows "xinv w0 s'"
proof (cases "werr (xw s) = None")
  case False
  with assms show ?thesis by (auto simp: ctx_flush_def split: if_splits)
next
  case True
  with assms(2) have s': "xwaiting s = None" "s' = s\<lparr>xw := flush_writer (xw s), xops := xops s @ [OpFlush]\<rparr>"
    by (auto simp: ctx_flush_def split: if_splits)
  with assms(1) True obtain h where "xidle w0 h s" by (auto simp: xinv_def xbusy_def xleft_def xready_def)
  with s' have "xidle w0 (h @ [(False, OpFlush)]) s'"
    by (simp add: xidle_def quiet_buffer_def sending_def)
  then show ?thesis by (auto simp: xinv_def)
qed

lemma xinv_close: "xinv w0 (s\<lparr>xclosed := True\<rparr>) = xinv w0 s"
  by (simp add: xinv_def xinv_defs)

lemma xinv_step:
  assumes "xinv w0 s" "xstep e s = Some s'"
  shows "xinv w0 s'"
proof (cases e)
  case XDone
  with assms(2) have "s' = ctx_write_done s" "xwaiting s \<noteq> None" by (simp_all split: if_splits)
  with assms(1) show ?thesis by (simp add: xinv_done)
next
  case XCancel
  with assms show ?thesis by (auto simp: ctx_write_cancel_def xinv_done)
next
  case XClose
  with assms show ?thesis using xinv_close [of w0 s] by auto
qed (use assms in \<open>simp_all, metis xinv_begin, metis xinv_send, metis xinv_out, metis xinv_flush\<close>)

lemma xreach_xinv: "xreach w0 s \<Longrightarrow> xinv w0 s"
  by (induction rule: xreach.induct) (auto intro: xinv_init xinv_step)

subsection \<open>Properties\<close>

text \<open>C21: The goroutines of \<open>ctxWriter\<close> never meet in the buffered writer: at most one is in it, none while
the writer could begin a write or a flush; and once it is out, the writer is exactly the sequential one
after the same calls, in which an interrupted write has completed and reported \<open>io.EOF\<close>.\<close>

theorem interrupted_writes_are_safe:
  assumes "xreach w0 s"
  shows "(\<forall>i b j c. xgos s i = Some (Sending b) \<longrightarrow> xgos s j = Some (Sending c) \<longrightarrow> i = j)
    \<and> (xwaiting s = None \<longrightarrow> werr (xw s) = None \<longrightarrow> (\<forall>i b. xgos s i \<noteq> Some (Sending b)))
    \<and> (xwaiting s = None \<longrightarrow> (\<forall>i b. xgos s i \<noteq> Some (Sending b)) \<longrightarrow>
         (\<exists>h. map snd h = xops s \<and> xw s = fold do_wop h w0))"
proof -
  obtain h where "xidle w0 h s \<or> xbusy w0 h s \<or> xleft w0 h s \<or> xready w0 h s"
    using xreach_xinv [OF assms] by (auto simp: xinv_def)
  then show ?thesis
    by (elim disjE) (auto simp: xinv_defs do_wops_def intro: exI [of _ h])
qed

lemma interrupted_writes_are_safe_witness:
  "\<exists>s h. xreach (new_writer \<lparr>sent = [], room = None, cerr = IoEOF\<rparr>) s \<and> werr (xw s) = Some IoEOF
     \<and> map snd h = [OpWrite [1], OpWrite [2]]
     \<and> xw s = fold do_wop h (new_writer \<lparr>sent = [], room = None, cerr = IoEOF\<rparr>)"
proof -
  let ?w = "new_writer \<lparr>sent = [], room = None, cerr = IoEOF\<rparr>"
  let ?es = "[XWrite [1], XSend 0, XOut, XWrite [2], XClose, XDone, XWrite [3], XFlush, XSend 1]"
  have "case xrun ?es (xinit ?w) of None \<Rightarrow> False
      | Some s \<Rightarrow> xwaiting s = None \<and> werr (xw s) = Some IoEOF \<and> xops s = [OpWrite [1], OpWrite [2]]
          \<and> xgos s = [0 \<mapsto> Delivered None, 1 \<mapsto> Delivered None]"
    by (simp add: ctx_write_begin_def ctx_send_def ctx_write_out_def ctx_write_done_def ctx_flush_def xinit_def
        new_writer_def buf_write.simps buf_size_def)
  then obtain s where s: "xrun ?es (xinit ?w) = Some s" "xwaiting s = None" "werr (xw s) = Some IoEOF"
    "xops s = [OpWrite [1], OpWrite [2]]" "xgos s = [0 \<mapsto> Delivered None, 1 \<mapsto> Delivered None]"
    by (auto split: option.splits)
  have r: "xreach ?w s" by (rule xreach_xrun [OF xreach_init s(1)])
  have "\<forall>i b. xgos s i \<noteq> Some (Sending b)" by (simp add: s(5))
  with interrupted_writes_are_safe [OF r] s(2)
  obtain h where "map snd h = xops s" "xw s = fold do_wop h ?w" by blast
  with r s(3,4) show ?thesis by (intro exI conjI) simp_all
qed

end
