(* ===== verification/Wire_Sharing.thy ===== *)
theory Wire_Sharing
  imports Proto_Writer
begin

text \<open>
  Many goroutines, one writer.  Calls (\<open>run.go\<close>), listeners (\<open>listen.go\<close>) and cancellations (\<open>cancel.go\<close>)
  write their sentences word by word, each between \<open>BeginSentence\<close> and \<open>EndSentence\<close>; a step here is one of
  these calls, so the words of different goroutines could mix in any order the writer's mutex permits.
  The sequential writer, one whole sentence after the other, is the specification.
\<close>

subsection \<open>One sentence after the other\<close>

fun send_all :: "string list list \<Rightarrow> writer \<Rightarrow> (goerr option list \<times> writer) option" where
  "send_all [] w = Some ([], w)"
| "send_all (ws # wss) w =
     (case send_sentence False ws w of
        None \<Rightarrow> None
      | Some (e, w') \<Rightarrow> map_option (map_prod ((#) e) id) (send_all wss w'))"

lemma send_all_snoc:
  "send_all (wss @ [ws]) w =
     (case send_all wss w of
        None \<Rightarrow> None
      | Some (es, w') \<Rightarrow> map_option (map_prod (\<lambda>e. es @ [e]) id) (send_sentence False ws w'))"
  by (induction wss arbitrary: w)
    (auto split: option.splits simp: option.map_comp comp_def split_beta intro: option.map_cong)

lemma send_all_unlocked: "send_all wss w = Some (es, w') \<Longrightarrow> \<not> wlocked w \<Longrightarrow> \<not> wlocked w'"
proof (induction wss arbitrary: w es)
  case (Cons ws wss)
  then obtain e w1 es' where "send_sentence False ws w = Some (e, w1)" "send_all wss w1 = Some (es', w')"
    by (auto split: option.splits)
  with Cons.IH send_sentence_unlocks show ?case by blast
qed simp

lemma send_all_healthy:
  assumes "healthy w" "\<not> wlocked w"
  shows "\<exists>w'. send_all wss w = Some (replicate (length wss) None, w') \<and> healthy w' \<and> \<not> wlocked w'
     \<and> wire w' = wire w @ concat (map sentence_bytes wss)"
  using assms
proof (induction wss arbitrary: w)
  case (Cons ws wss)
  obtain w1 where w1: "send_sentence False ws w = Some (None, w1)" "healthy w1"
    using send_sentence_healthy [OF Cons.prems] by blast
  with send_sentence_ok [OF w1(1)] have "\<not> wlocked w1" "wire w1 = wire w @ sentence_bytes ws"
    by (auto simp: wire_def accepted_def)
  with Cons.IH [OF w1(2)] w1(1) show ?case by auto
qed auto

subsection \<open>Goroutines\<close>

text \<open>
  A goroutine has not begun, has written some words of its sentence, or has returned.  \<open>wdone\<close> lists the
  goroutines whose sentence has ended, with what \<open>EndSentence\<close> reported, in the order in which they ended;
  \<open>wholder\<close> is the goroutine that holds the mutex.  \<open>shared_abandon\<close> is the early return of
  \<open>RunArgsContext\<close> when the asynchronous loop has ended: all words are written, \<open>EndSentence\<close> is not called.
\<close>

datatype wpc = WIdle | WWriting nat | WEnded

record wstate =
  wshared :: writer
  wpcs :: "nat \<Rightarrow> wpc"
  wholder :: "nat option"
  wdone :: "(nat \<times> goerr option) list"

definition winit :: "writer \<Rightarrow> wstate" where
  "winit w = \<lparr>wshared = w, wpcs = (\<lambda>_. WIdle), wholder = None, wdone = []\<rparr>"

definition shared_begin :: "nat \<Rightarrow> wstate \<Rightarrow> wstate option" where
  "shared_begin i s =
     (if wpcs s i = WIdle
      then map_option (\<lambda>w. s\<lparr>wshared := w, wpcs := (wpcs s)(i := WWriting 0), wholder := Some i\<rparr>)
             (begin_sentence (wshared s))
      else None)"

definition shared_word :: "(nat \<Rightarrow> string list) \<Rightarrow> nat \<Rightarrow> wstate \<Rightarrow> wstate option" where
  "shared_word given i s =
     (case wpcs s i of
        WWriting k \<Rightarrow>
          if k < length (given i)
          then Some (s\<lparr>wshared := write_word False (given i ! k) (wshared s),
                       wpcs := (wpcs s)(i := WWriting (Suc k))\<rparr>)
          else None
      | _ \<Rightarrow> None)"

definition shared_end :: "(nat \<Rightarrow> string list) \<Rightarrow> nat \<Rightarrow> wstate \<Rightarrow> wstate option" where
  "shared_end given i s =
     (if wpcs s i = WWriting (length (given i))
      then (case end_sentence False (wshared s) of
              (e, w) \<Rightarrow> Some (s\<lparr>wshared := w, wpcs := (wpcs s)(i := WEnded), wholder := None,
                              wdone := wdone s @ [(i, e)]\<rparr>))
      else None)"

definition shared_abandon :: "(nat \<Rightarrow> string list) \<Rightarrow> nat \<Rightarrow> wstate \<Rightarrow> wstate option" where
  "shared_abandon given i s =
     (if wpcs s i = WWriting (length (given i)) then Some (s\<lparr>wpcs := (wpcs s)(i := WEnded)\<rparr>) else None)"

inductive wreach :: "(nat \<Rightarrow> string list) \<Rightarrow> writer \<Rightarrow> wstate \<Rightarrow> bool" for given w0 where
  wreach_init: "wreach given w0 (winit w0)"
| wreach_begin: "wreach given w0 s \<Longrightarrow> shared_begin i s = Some s' \<Longrightarrow> wreach given w0 s'"
| wreach_word: "wreach given w0 s \<Longrightarrow> shared_word given i s = Some s' \<Longrightarrow> wreach given w0 s'"
| wreach_end: "wreach given w0 s \<Longrightarrow> shared_end given i s = Some s' \<Longrightarrow> wreach given w0 s'"
| wreach_abandon: "wreach given w0 s \<Longrightarrow> shared_abandon given i s = Some s' \<Longrightarrow> wreach given w0 s'"

subsection \<open>The shared writer is a sequential one\<close>

text \<open>The state of the sequential writer and the words of the sentence that is open on top of it.\<close>

definition open_words :: "(nat \<Rightarrow> string list) \<Rightarrow> wstate \<Rightarrow> nat \<Rightarrow> string list" where
  "open_words given s i = (case wpcs s i of WWriting k \<Rightarrow> take k (given i) | _ \<Rightarrow> given i)"

definition wowner ::
  "(nat \<Rightarrow> string list) \<Rightarrow> (nat \<Rightarrow> wpc) \<Rightarrow> nat option \<Rightarrow> nat list \<Rightarrow> bool" where
  "wowner given pcs holder ended \<longleftrightarrow>
     (\<forall>i k. pcs i = WWriting k \<longrightarrow> holder = Some i \<and> k \<le> length (given i))
   \<and> (\<forall>i. holder = Some i \<longrightarrow> pcs i \<noteq> WIdle \<and> i \<notin> set ended)
   \<and> (\<forall>i \<in> set ended. pcs i = WEnded) \<and> distinct ended"

lemma wowner_begin:
  "wowner given pcs None ended \<Longrightarrow> pcs i = WIdle \<Longrightarrow> wowner given (pcs(i := WWriting 0)) (Some i) ended"
  by (fastforce simp: wowner_def)

lemma wowner_word:
  "wowner given pcs (Some i) ended \<Longrightarrow> k < length (given i)
     \<Longrightarrow> wowner given (pcs(i := WWriting (Suc k))) (Some i) ended"
  by (auto simp: wowner_def)

lemma wowner_end:
  "wowner given pcs (Some i) ended \<Longrightarrow> wowner given (pcs(i := WEnded)) None (ended @ [i])"
  by (fastforce simp: wowner_def)

lemma wowner_abandon:
  "wowner given pcs (Some i) ended \<Longrightarrow> wowner given (pcs(i := WEnded)) (Some i) ended"
  by (auto simp: wowner_def)

definition wserial :: "(nat \<Rightarrow> string list) \<Rightarrow> writer \<Rightarrow> wstate \<Rightarrow> writer \<Rightarrow> bool" where
  "wserial given w0 s w \<longleftrightarrow>
     send_all (map (given \<circ> fst) (wdone s)) w0 = Some (map snd (wdone s), w) \<and> \<not> wlocked w
   \<and> wshared s = (case wholder s of
        None \<Rightarrow> w
      | Some i \<Rightarrow> write_words False (open_words given s i) (w\<lparr>wlocked := True\<rparr>))"

definition winv :: "(nat \<Rightarrow> string list) \<Rightarrow> writer \<Rightarrow> wstate \<Rightarrow> bool" where
  "winv given w0 s \<longleftrightarrow> wowner given (wpcs s) (wholder s) (map fst (wdone s)) \<and> (\<exists>w. wserial given w0 s w)"

lemma winv_init: "\<not> wlocked w0 \<Longrightarrow> winv given w0 (winit w0)"
  by (simp add: winv_def wowner_def wserial_def winit_def)

lemma winv_begin:
  assumes "winv given w0 s" "shared_begin i s = Some s'"
  shows "winv given w0 s'"
proof -
  from assms(1) obtain w where own: "wowner given (wpcs s) (wholder s) (map fst (wdone s))" and w: "wserial given w0 s w" by (auto simp: winv_def)
  from assms(2) have free: "wpcs s i = WIdle" "\<not> wlocked (wshared s)"
    and s': "s' = s\<lparr>wshared := (wshared s)\<lparr>wlocked := True\<rparr>, wpcs := (wpcs s)(i := WWriting 0), wholder := Some i\<rparr>"
    by (auto simp: shared_begin_def begin_sentence_def split: if_splits)
  have none: "wholder s = None" using w free(2) by (cases "wholder s") (auto simp: wserial_def)
  have "wserial given w0 s' w"
    using w none by (simp add: wserial_def s' open_words_def write_words_def)
  with own none free(1) show ?thesis by (auto simp: winv_def s' intro: wowner_begin)
qed

lemma winv_word:
  assumes "winv given w0 s" "shared_word given i s = Some s'"
  shows "winv given w0 s'"
proof -
  from assms(1) obtain w where own: "wowner given (wpcs s) (wholder s) (map fst (wdone s))" and w: "wserial given w0 s w" by (auto simp: winv_def)
  obtain k where k: "wpcs s i = WWriting k" "k < length (given i)"
    and s': "s' = s\<lparr>wshared := write_word False (given i ! k) (wshared s), wpcs := (wpcs s)(i := WWriting (Suc k))\<rparr>"
    using assms(2) by (auto simp: shared_word_def split: wpc.splits if_splits)
  with own have h: "wholder s = Some i" by (simp add: wowner_def)
  have "write_word False (given i ! k) (write_words False (take k (given i)) w1)
      = write_words False (take (Suc k) (given i)) w1" for w1
    using k(2) by (simp add: write_words_def take_Suc_conv_app_nth)
  with w k(1) h have "wserial given w0 s' w" by (simp add: wserial_def s' open_words_def)
  with own h k show ?thesis by (auto simp: winv_def s' intro: wowner_word)
qed

lemma winv_end:
  assumes "winv given w0 s" "shared_end given i s = Some s'"
  shows "winv given w0 s'"
proof -
  from assms(1) obtain w where own: "wowner given (wpcs s) (wholder s) (map fst (wdone s))" and w: "wserial given w0 s w" by (auto simp: winv_def)
  have k: "wpcs s i = WWriting (length (given i))" using assms(2) by (simp add: shared_end_def split: if_splits)
  obtain e w' where e: "end_sentence False (wshared s) = (e, w')" by fastforce
  have s': "s' = s\<lparr>wshared := w', wpcs := (wpcs s)(i := WEnded), wholder := None, wdone := wdone s @ [(i, e)]\<rparr>"
    using assms(2) k e by (simp add: shared_end_def)
  from own k have h: "wholder s = Some i" by (simp add: wowner_def)
  with w k e have "send_sentence False (given i) w = Some (e, w')"
    by (simp add: wserial_def open_words_def send_sentence_def begin_sentence_def)
  moreover have "\<not> wlocked w'" using e by (auto simp: end_sentence_def Let_def)
  ultimately have "wserial given w0 s' w'" using w by (simp add: wserial_def s' send_all_snoc)
  with own h show ?thesis by (auto simp: winv_def s' intro: wowner_end)
qed

lemma winv_abandon:
  assumes "winv given w0 s" "shared_abandon given i s = Some s'"
  shows "winv given w0 s'"
proof -
  from assms(1) obtain w where own: "wowner given (wpcs s) (wholder s) (map fst (wdone s))" and w: "wserial given w0 s w" by (auto simp: winv_def)
  have k: "wpcs s i = WWriting (length (given i))" and s': "s' = s\<lparr>wpcs := (wpcs s)(i := WEnded)\<rparr>"
    using assms(2) by (auto simp: shared_abandon_def split: if_splits)
  with own have h: "wholder s = Some i" by (simp add: wowner_def)
  with w k have "wserial given w0 s' w" by (simp add: wserial_def s' open_words_def)
  with own h show ?thesis by (auto simp: winv_def s' intro: wowner_abandon)
qed

lemma wreach_winv: "wreach given w0 s \<Longrightarrow> \<not> wlocked w0 \<Longrightarrow> winv given w0 s"
  by (induction rule: wreach.induct) (auto intro: winv_init winv_begin winv_word winv_end winv_abandon)

lemma wserial_wire:
  assumes "healthy w0" "\<not> wlocked w0" "wserial given w0 s w"
  shows "wire (wshared s) = wire w0 @ concat (map (sentence_bytes \<circ> given \<circ> fst) (wdone s))
      @ (case wholder s of None \<Rightarrow> [] | Some i \<Rightarrow> concat (map word_bytes (open_words given s i)))"
proof -
  from send_all_healthy [OF assms(1,2), of "map (given \<circ> fst) (wdone s)"] assms(3)
  have hw: "healthy w" "wire w = wire w0 @ concat (map (sentence_bytes \<circ> given \<circ> fst) (wdone s))"
    by (auto simp: wserial_def comp_assoc)
  have l: "wire (w\<lparr>wlocked := True\<rparr>) = wire w" "healthy (w\<lparr>wlocked := True\<rparr>)"
    using hw(1) by (simp_all add: wire_def healthy_def)
  have "wire (write_words False ws (w\<lparr>wlocked := True\<rparr>)) = wire w @ concat (map word_bytes ws)" for ws
    using write_words_ok [of False ws "w\<lparr>wlocked := True\<rparr>"] write_words_healthy [OF l(2), of ws] l(1)
    by (simp add: healthy_def)
  with assms(3) hw(2) show ?thesis by (simp add: wserial_def split: option.split)
qed

subsection \<open>Properties\<close>

text \<open>C12: Sentences are atomic: however the goroutines' calls interleave, the shared writer is in the state that
sending the finished sentences one whole sentence after the other gives -- with the same error reported
to each goroutine -- plus the words the holder of the mutex has written so far; over a sound connection
the wire holds exactly the finished sentences in order and a beginning of one more.\<close>

theorem sentences_are_atomic:
  assumes "wreach given w0 s" "\<not> wlocked w0"
  shows "\<exists>w. send_all (map (given \<circ> fst) (wdone s)) w0 = Some (map snd (wdone s), w)
     \<and> distinct (map fst (wdone s))
     \<and> (case wholder s of
          None \<Rightarrow> wshared s = w
        | Some i \<Rightarrow> wshared s = write_words False (open_words given s i) (w\<lparr>wlocked := True\<rparr>))
     \<and> (healthy w0 \<longrightarrow> wire (wshared s) = wire w0 @ concat (map (sentence_bytes \<circ> given \<circ> fst) (wdone s))
          @ (case wholder s of None \<Rightarrow> [] | Some i \<Rightarrow> concat (map word_bytes (open_words given s i))))"
proof -
  have "winv given w0 s" using assms by (rule wreach_winv)
  then obtain w where w: "wserial given w0 s w" and d: "distinct (map fst (wdone s))"
    by (auto simp: winv_def wowner_def)
  have "wire (wshared s) = wire w0 @ concat (map (sentence_bytes \<circ> given \<circ> fst) (wdone s))
      @ (case wholder s of None \<Rightarrow> [] | Some i \<Rightarrow> concat (map word_bytes (open_words given s i)))"
    if "healthy w0"
    using that assms(2) w by (rule wserial_wire)
  with w d show ?thesis by (auto simp: wserial_def split: option.split)
qed

lemma sentences_are_atomic_witness:
  "\<exists>s. wreach (\<lambda>i. if i = 0 then [''/a''] else [''/b'', ''=x=1''])
       (new_writer \<lparr>sent = [], room = None, cerr = IoEOF\<rparr>) s
     \<and> wire (wshared s) = sentence_bytes [''/b'', ''=x=1''] @ word_bytes ''/a''"
proof -
  let ?g = "\<lambda>i :: nat. if i = 0 then [''/a''] else [''/b'', ''=x=1'']"
  let ?w = "new_writer \<lparr>sent = [], room = None, cerr = IoEOF\<rparr>"
  let ?step = "\<lambda>f s. case s of None \<Rightarrow> None | Some s \<Rightarrow> f s"
  let ?run = "?step (shared_word ?g 0) (?step (shared_begin 0) (?step (shared_end ?g 1)
      (?step (shared_word ?g 1) (?step (shared_word ?g 1) (shared_begin 1 (winit ?w))))))"
  have c: "case ?run of None \<Rightarrow> False
      | Some s \<Rightarrow> wholder s = Some 0 \<and> wpcs s 0 = WWriting 1 \<and> wdone s = [(1, None)]"
    by code_simp
  then obtain s where s: "?run = Some s" "wholder s = Some 0" "wpcs s 0 = WWriting 1" "wdone s = [(1, None)]"
    by (cases ?run) simp_all
  then have r: "wreach ?g ?w s"
    by (auto split: option.splits) (meson wreach.intros)
  have w: "\<not> wlocked ?w" "healthy ?w" "wire ?w = []"
    by (simp_all add: new_writer_def healthy_def wire_def accepted_def)
  from sentences_are_atomic [OF r w(1)] w(2) s(2-4) have "wire (wshared s) = wire ?w @ sentence_bytes [''/b'', ''=x=1''] @ word_bytes ''/a''"
    by (auto simp: open_words_def)
  with r w(3) show ?thesis by auto
qed

end
