(* ===== verification/Proto_Codec.thy ===== *)
theory Proto_Codec
  imports Proto_Reader Proto_Writer
begin

text \<open>
  The reader inverts the writer: lengths, words and sentences.  The abstract contract of a sentence
  is on the level of its words (\<open>parse_words\<close>); the byte-level \<open>ReadSentence\<close> refines it on any
  stream that starts with the encoding of the words.
\<close>

subsection \<open>Lengths\<close>

lemma int64_sless:
  fixes l c :: int64
  assumes "uint l < 2 ^ 63" "uint c < 2 ^ 63"
  shows "l <s c \<longleftrightarrow> uint l < uint c"
  using assms by (simp add: word_sless_alt sint_small)

lemma bits_below:
  fixes l :: int64
  assumes "uint l < 2 ^ k" "bit l n"
  shows "n < k"
proof -
  have "take_bit k (uint l) = uint l"
    using assms(1) by (simp add: take_bit_int_eq_self)
  then have "take_bit k l = l"
    by (metis unsigned_take_bit_eq word_eq_iff_unsigned)
  with assms(2) show ?thesis
    by (metis bit_take_bit_iff)
qed

lemma bit_marker_int:
  assumes "m = push_bit i (mask k :: int)"
  shows "bit m n \<longleftrightarrow> i \<le> n \<and> n < i + k"
  using assms by (auto simp: bit_push_bit_iff bit_mask_iff possible_bit_def)

lemma bit_markers [codec]:
  "bit (0x80 :: int) n \<longleftrightarrow> n = 7" "bit (0xC0 :: int) n \<longleftrightarrow> 6 \<le> n \<and> n < 8"
  "bit (0xE0 :: int) n \<longleftrightarrow> 5 \<le> n \<and> n < 8" "bit (0xF0 :: int) n \<longleftrightarrow> 4 \<le> n \<and> n < 8"
  "bit (0xF8 :: int) n \<longleftrightarrow> 3 \<le> n \<and> n < 8"
  using bit_marker_int [of "0x80" 7 1 n] bit_marker_int [of "0xC0" 6 2 n]
    bit_marker_int [of "0xE0" 5 3 n] bit_marker_int [of "0xF0" 4 4 n]
    bit_marker_int [of "0xF8" 3 5 n]
  by (auto simp: mask_eq_exp_minus_1)

lemma bit_join_length [codec]:
  "bit (join_length l m j n) k \<longleftrightarrow>
     k < 64 \<and> (j \<le> k \<and> bit l (k - j) \<and> \<not> bit m (k - j) \<or> bit n k)"
  unfolding join_length_def bit_or_iff bit_push_bit_iff bit_and_iff bit_not_iff possible_bit_def
  by (auto dest: bit_imp_le_length)

lemma first_byte2:
  fixes l :: int64
  assumes "uint l < 2 ^ 14"
  defines "f \<equiv> (ucast ((ucast (drop_bit 8 l) :: byte) OR 0x80) :: int64)"
  shows "f AND 0x80 \<noteq> 0" "f AND 0xC0 = 0x80" "join_length f 0xC0 8 (ucast (ucast l :: byte)) = l"
proof -
  note b = bits_below [OF assms(1)]
  have "bit (f AND 0x80) 7"
    by (simp add: f_def codec bit_simps)
  then show "f AND 0x80 \<noteq> 0" by force
  show "f AND 0xC0 = 0x80"
    unfolding f_def by (rule bit_word_eqI) (auto simp: codec bit_simps dest: b)
  show "join_length f 0xC0 8 (ucast (ucast l :: byte)) = l"
    unfolding f_def
    by (rule bit_word_eqI) (auto simp: codec bit_simps dest: b)
qed

lemma first_byte3:
  fixes l :: int64
  assumes "uint l < 2 ^ 21"
  defines "f \<equiv> (ucast ((ucast (drop_bit 16 l) :: byte) OR 0xC0) :: int64)"
  shows "f AND 0x80 \<noteq> 0" "f AND 0xC0 \<noteq> 0x80" "f AND 0xE0 = 0xC0"
    "join_length f 0xE0 16 (number_of [ucast (drop_bit 8 l), ucast l]) = l"
proof -
  note b = bits_below [OF assms(1)]
  have "bit (f AND 0x80) 7" "bit (f AND 0xC0) 6"
    by (simp_all add: f_def codec bit_simps)
  then show "f AND 0x80 \<noteq> 0" "f AND 0xC0 \<noteq> 0x80" by (force simp: codec bit_simps)+
  show "f AND 0xE0 = 0xC0"
    unfolding f_def by (rule bit_word_eqI) (auto simp: codec bit_simps dest: b)
  show "join_length f 0xE0 16 (number_of [ucast (drop_bit 8 l), ucast l]) = l"
    unfolding f_def number_of_def
    by (rule bit_word_eqI) (auto simp: codec bit_simps dest: b)
qed

lemma first_byte4:
  fixes l :: int64
  assumes "uint l < 2 ^ 28"
  defines "f \<equiv> (ucast ((ucast (drop_bit 24 l) :: byte) OR 0xE0) :: int64)"
  shows "f AND 0x80 \<noteq> 0" "f AND 0xC0 \<noteq> 0x80" "f AND 0xE0 \<noteq> 0xC0" "f AND 0xF0 = 0xE0"
    "join_length f 0xF0 24 (number_of [ucast (drop_bit 16 l), ucast (drop_bit 8 l), ucast l]) = l"
proof -
  note b = bits_below [OF assms(1)]
  have "bit (f AND 0x80) 7" "bit (f AND 0xC0) 6" "bit (f AND 0xE0) 5"
    by (simp_all add: f_def codec bit_simps)
  then show "f AND 0x80 \<noteq> 0" "f AND 0xC0 \<noteq> 0x80" "f AND 0xE0 \<noteq> 0xC0"
    by (force simp: codec bit_simps)+
  show "f AND 0xF0 = 0xE0"
    unfolding f_def by (rule bit_word_eqI) (auto simp: codec bit_simps dest: b)
  show "join_length f 0xF0 24 (number_of [ucast (drop_bit 16 l), ucast (drop_bit 8 l), ucast l]) = l"
  proof (rule bit_word_eqI)
    fix n assume "n < LENGTH(64)"
    then show "bit (join_length f 0xF0 24
        (number_of [ucast (drop_bit 16 l), ucast (drop_bit 8 l), ucast l])) n = bit l n"
      by (cases "n < 8"; cases "n < 16"; cases "n < 24")
        (auto simp: f_def number_of_def codec bit_simps dest: b)
  qed
qed

lemma four_bytes:
  fixes l :: int64
  assumes "uint l < 2 ^ 32"
  shows "number_of [ucast (drop_bit 24 l), ucast (drop_bit 16 l), ucast (drop_bit 8 l), ucast l] = l"
proof (rule bit_word_eqI)
  fix n assume "n < LENGTH(64)"
  then show "bit (number_of [ucast (drop_bit 24 l), ucast (drop_bit 16 l), ucast (drop_bit 8 l),
      ucast l]) n = bit l n"
    by (cases "n < 8"; cases "n < 16"; cases "n < 24")
      (auto simp: number_of_def codec bit_simps dest: bits_below [OF assms])
qed

lemma one_byte:
  fixes l :: int64
  assumes "uint l < 2 ^ 7"
  shows "(ucast (ucast l :: byte) :: int64) AND 0x80 = 0" "(ucast (ucast l :: byte) :: int64) = l"
  by (rule bit_word_eqI, auto simp: codec bit_simps dest: bits_below [OF assms])+

text \<open>Reading a number from a stream that starts with its bytes.\<close>

lemma read_number_bytes:
  "length b = k \<Longrightarrow> read_number k (s\<lparr>pending := b @ rest\<rparr>) = (Inr (number_of b), s\<lparr>pending := rest\<rparr>)"
  by (simp add: read_number_def read_full_def)

lemma read_more_bytes:
  "length b = k \<Longrightarrow>
     read_more k f (s\<lparr>pending := b @ rest\<rparr>) = (Inr (f (number_of b)), s\<lparr>pending := rest\<rparr>)"
  by (simp add: read_more_def read_number_bytes)

lemma read_length_first:
  "read_length (s\<lparr>pending := c # rest\<rparr>) =
     (let l = ucast c; s1 = s\<lparr>pending := rest\<rparr> in
      if l AND 0x80 = 0x00 then (Inr l, s1)
      else if l AND 0xC0 = 0x80 then read_more 1 (join_length l 0xC0 8) s1
      else if l AND 0xE0 = 0xC0 then read_more 2 (join_length l 0xE0 16) s1
      else if l AND 0xF0 = 0xE0 then read_more 3 (join_length l 0xF0 24) s1
      else if l AND 0xF8 = 0xF0 then read_more 4 (\<lambda>n. n) s1
      else (Inr l, s1))"
  using read_number_bytes [of "[c]" 1 rest s]
  by (simp add: read_length_def Let_def)

lemma read_encode_length:
  assumes "uint l < 2 ^ 32"
  shows "read_length (s\<lparr>pending := encode_length l @ rest\<rparr>) = (Inr l, s\<lparr>pending := rest\<rparr>)"
proof -
  have less: "l <s c \<longleftrightarrow> uint l < uint c" if "uint c < 2 ^ 63" for c :: int64
    using assms that by (intro int64_sless) simp_all
  consider "uint l < 2 ^ 7" | "2 ^ 7 \<le> uint l" "uint l < 2 ^ 14" | "2 ^ 14 \<le> uint l" "uint l < 2 ^ 21"
    | "2 ^ 21 \<le> uint l" "uint l < 2 ^ 28" | "2 ^ 28 \<le> uint l"
    by linarith
  then show ?thesis
  proof cases
    case 1
    then have "encode_length l = [ucast l]" by (simp add: encode_length_def less)
    with one_byte [OF 1] show ?thesis by (simp add: read_length_first)
  next
    case 2
    then have "encode_length l = [ucast (drop_bit 8 l) OR 0x80, ucast l]"
      by (simp add: encode_length_def less)
    with first_byte2 [OF 2(2)] read_more_bytes [of "[ucast l]" 1] show ?thesis
      by (simp add: read_length_first Let_def)
  next
    case 3
    then have "encode_length l = [ucast (drop_bit 16 l) OR 0xC0, ucast (drop_bit 8 l), ucast l]"
      by (simp add: encode_length_def less)
    with first_byte3 [OF 3(2)] read_more_bytes [of "[ucast (drop_bit 8 l), ucast l]" 2]
    show ?thesis by (simp add: read_length_first Let_def)
  next
    case 4
    then have "encode_length l =
        [ucast (drop_bit 24 l) OR 0xE0, ucast (drop_bit 16 l), ucast (drop_bit 8 l), ucast l]"
      by (simp add: encode_length_def less)
    with first_byte4 [OF 4(2)]
      read_more_bytes [of "[ucast (drop_bit 16 l), ucast (drop_bit 8 l), ucast l]" 3]
    show ?thesis by (simp add: read_length_first Let_def)
  next
    case 5
    then have "encode_length l = [0xF0, ucast (drop_bit 24 l), ucast (drop_bit 16 l),
        ucast (drop_bit 8 l), ucast l]"
      by (simp add: encode_length_def less)
    with four_bytes [OF assms] read_more_bytes [of "[ucast (drop_bit 24 l), ucast (drop_bit 16 l),
        ucast (drop_bit 8 l), ucast l]" 4]
    show ?thesis by (simp add: read_length_first Let_def)
  qed
qed

subsection \<open>Words\<close>

lemma uint_length_word:
  assumes "length w < 2 ^ 32"
  shows "uint (word_of_nat (length w) :: int64) = int (length w)"
proof -
  have "length w < 2 ^ 64"
    using assms by simp
  then show ?thesis
    by (simp add: unsigned_of_nat take_bit_nat_eq_self)
qed

lemma read_word_bytes:
  assumes "length w < 2 ^ 32"
  shows "read_word (s\<lparr>pending := word_bytes w @ rest\<rparr>) = (Inr (to_bytes w), s\<lparr>pending := rest\<rparr>)"
proof -
  let ?l = "word_of_nat (length w) :: int64"
  have u: "uint ?l = int (length w)" by (rule uint_length_word [OF assms])
  with assms have lt: "uint ?l < 2 ^ 32" by simp
  then have "sint ?l = int (length w)" using u by (simp add: sint_small)
  then have n: "nat (sint ?l) = length w" by simp
  from read_encode_length [OF lt, of "to_bytes w @ rest" s] show ?thesis
    by (simp add: read_word_def word_bytes_def n read_full_def)
qed

subsection \<open>Sentences as lists of words\<close>

text \<open>The contract of \<open>ReadSentence\<close>, word by word and without bytes.\<close>

definition cut_pair :: "string \<Rightarrow> string \<times> string" where
  "cut_pair x = (takeWhile (\<lambda>c. c \<noteq> CHR ''='') x, drop 1 (dropWhile (\<lambda>c. c \<noteq> CHR ''='') x))"

definition word_step :: "sentence \<Rightarrow> string \<Rightarrow> goerr + sentence" where
  "word_step sen w =
     (if sen_word sen = [] then Inr (sen\<lparr>sen_word := w\<rparr>)
      else if has_prefix w ''.tag='' then Inr (sen\<lparr>sen_tag := drop 5 w\<rparr>)
      else if has_prefix w ''='' then
        (let p = cut_pair (drop 1 w) in
         Inr (sen\<lparr>sen_list := sen_list sen @ [p],
                  sen_map := AList.update (fst p) (snd p) (sen_map sen)\<rparr>))
      else Inl (ErrInvalidWord w))"

fun parse_words :: "sentence \<Rightarrow> string list \<Rightarrow> (goerr + sentence) \<times> string list" where
  "parse_words sen [] = (Inr sen, [])"
| "parse_words sen (w # ws) =
     (case word_step sen w of
        Inl e \<Rightarrow> (Inl e, ws)
      | Inr sen' \<Rightarrow> parse_words sen' ws)"

lemma split_pair_to_bytes:
  "split_pair (to_bytes x) = (to_bytes (fst (cut_pair x)), to_bytes (snd (cut_pair x)))"
proof -
  have "takeWhile (\<lambda>c. c \<noteq> of_char d) (to_bytes x) = to_bytes (takeWhile (\<lambda>c. c \<noteq> d) x)"
    and "dropWhile (\<lambda>c. c \<noteq> of_char d) (to_bytes x) = to_bytes (dropWhile (\<lambda>c. c \<noteq> d) x)" for d
    by (induction x) auto
  then show ?thesis
    by (simp only: split_pair_def cut_pair_def drop_to_bytes fst_conv snd_conv)
qed

lemma sentence_word_to_bytes: "sentence_word sen (to_bytes w) = word_step sen w"
  by (simp only: sentence_word_def word_step_def has_prefix_to_bytes drop_to_bytes
      split_pair_to_bytes to_string_to_bytes Let_def case_prod_conv fst_conv snd_conv
      prod.collapse)

definition sendable :: "string list \<Rightarrow> bool" where
  "sendable ws \<longleftrightarrow> (\<forall>w \<in> set ws. w \<noteq> [] \<and> length w < 2 ^ 32)"

lemma sentence_bytes_Cons: "sentence_bytes (w # ws) = word_bytes w @ sentence_bytes ws"
  by (simp add: sentence_bytes_def)

lemma read_loop_refines:
  assumes "sendable ws"
  shows "read_loop sen (s\<lparr>pending := sentence_bytes ws @ rest\<rparr>) =
     (case parse_words sen ws of
        (Inr sen', ws') \<Rightarrow> (Inr sen', s\<lparr>pending := rest\<rparr>)
      | (Inl e, ws') \<Rightarrow> (Inl e, s\<lparr>pending := sentence_bytes ws' @ rest\<rparr>))"
  using assms
proof (induction ws arbitrary: sen)
  case Nil
  have "read_word (s\<lparr>pending := word_bytes [] @ rest\<rparr>) = (Inr [], s\<lparr>pending := rest\<rparr>)"
    using read_word_bytes [of "[]" rest s] by simp
  then show ?case
    by (subst read_loop.simps) (simp add: sentence_bytes_def)
next
  case (Cons w ws)
  then have "length w < 2 ^ 32" "w \<noteq> []" "sendable ws" by (auto simp: sendable_def)
  with read_word_bytes [of w "sentence_bytes ws @ rest" s] Cons.IH show ?case
    by (subst read_loop.simps)
      (auto simp: sentence_bytes_Cons sentence_word_to_bytes split: sum.split)
qed

lemma read_sentence_refines:
  assumes "sendable ws"
  shows "read_sentence (s\<lparr>pending := sentence_bytes ws @ rest\<rparr>) =
     (case parse_words new_sentence ws of
        (Inr sen', ws') \<Rightarrow> (Inr sen', s\<lparr>pending := rest\<rparr>)
      | (Inl e, ws') \<Rightarrow> (Inl e, s\<lparr>pending := sentence_bytes ws' @ rest\<rparr>))"
  using read_loop_refines [OF assms] by (simp add: read_sentence_def)

subsection \<open>More input never changes a successful read\<close>

text \<open>Nor does the error that waits behind the input.\<close>

definition prolong :: "byte list \<Rightarrow> goerr \<Rightarrow> stream \<Rightarrow> stream" where
  "prolong m f s = s\<lparr>pending := pending s @ m, fin := f\<rparr>"

lemma read_full_prolong:
  "read_full n s = (Inr b, s') \<Longrightarrow> read_full n (prolong m f s) = (Inr b, prolong m f s')"
  by (auto simp: read_full_def prolong_def split: if_splits)

lemma read_number_prolong:
  "read_number n s = (Inr b, s') \<Longrightarrow> read_number n (prolong m f s) = (Inr b, prolong m f s')"
  by (auto simp: read_number_def read_full_prolong split: prod.splits sum.splits)

lemma read_more_prolong:
  "read_more n g s = (Inr b, s') \<Longrightarrow> read_more n g (prolong m f s) = (Inr b, prolong m f s')"
  by (auto simp: read_more_def read_number_prolong split: prod.splits sum.splits)

lemma read_length_prolong:
  assumes "read_length s = (Inr l, s')"
  shows "read_length (prolong m f s) = (Inr l, prolong m f s')"
proof -
  obtain l0 s1 where first: "read_number 1 s = (Inr l0, s1)"
    using assms by (auto simp: read_length_def split: prod.splits sum.splits)
  from assms first show ?thesis
    unfolding read_length_def read_number_prolong [OF first]
    by (auto simp: read_more_prolong split: if_splits)
qed

lemma read_word_prolong:
  assumes "read_word s = (Inr b, s')"
  shows "read_word (prolong m f s) = (Inr b, prolong m f s')"
proof -
  obtain l s1 where l: "read_length s = (Inr l, s1)" and w: "read_full (nat (sint l)) s1 = (Inr b, s')"
    using assms by (auto simp: read_word_def split: prod.splits sum.splits)
  show ?thesis
    by (simp add: read_word_def read_length_prolong [OF l] read_full_prolong [OF w])
qed

lemma read_loop_prolong:
  "read_loop sen s = (Inr sen', s') \<Longrightarrow> read_loop sen (prolong m f s) = (Inr sen', prolong m f s')"
proof (induction sen s rule: read_loop.induct)
  case (1 sen s)
  obtain b s1 where w: "read_word s = (Inr b, s1)"
    using "1.prems" by (subst (asm) read_loop.simps) (auto split: prod.splits sum.splits)
  show ?case
  proof (cases "b = []")
    case True
    with "1.prems" w have "sen' = sen" "s' = s1"
      by (subst (asm) read_loop.simps, simp)+
    then show ?thesis
      by (subst read_loop.simps) (simp add: read_word_prolong [OF w] True)
  next
    case False
    with "1.prems" w obtain sen1 where st: "sentence_word sen b = Inr sen1"
      and "read_loop sen1 s1 = (Inr sen', s')"
      by (subst (asm) read_loop.simps) (auto split: sum.splits)
    with "1.IH" [OF w [symmetric] refl False] False show ?thesis
      by (subst read_loop.simps) (simp add: read_word_prolong [OF w])
  qed
qed

lemma read_sentence_prolong:
  "read_sentence s = (Inr sen, s') \<Longrightarrow> read_sentence (prolong m f s) = (Inr sen, prolong m f s')"
  by (simp add: read_sentence_def read_loop_prolong)

lemma truncated_sentence_fails:
  assumes "sendable ws" "parse_words new_sentence ws = (Inr sen, ws')"
    and "p @ m = sentence_bytes ws" "m \<noteq> []"
  shows "\<exists>e s'. read_sentence (s\<lparr>pending := p\<rparr>) = (Inl e, s')"
proof (rule ccontr)
  assume "\<not> ?thesis"
  then obtain sen1 s' where "read_sentence (s\<lparr>pending := p\<rparr>) = (Inr sen1, s')"
    by (metis surj_pair sum.exhaust)
  then have "read_sentence (s\<lparr>pending := p @ m\<rparr>) = (Inr sen1, prolong m (fin s) s')"
    using read_sentence_prolong [of "s\<lparr>pending := p\<rparr>" sen1 s' m "fin s"] by (simp add: prolong_def)
  moreover have "read_sentence (s\<lparr>pending := p @ m\<rparr>) = (Inr sen, s\<lparr>pending := []\<rparr>)"
    using read_sentence_refines [OF assms(1), of "[]" s] assms(2,3) by simp
  ultimately have "pending (s\<lparr>pending := []\<rparr>) = pending (prolong m (fin s) s')" by simp
  with assms(4) show False by (simp add: prolong_def)
qed

subsection \<open>Attribute words\<close>

definition pair_word :: "string \<times> string \<Rightarrow> string" where
  "pair_word p = ''='' @ fst p @ ''='' @ snd p"

definition add_pairs :: "(string \<times> string) list \<Rightarrow> sentence \<Rightarrow> sentence" where
  "add_pairs ps sen =
     sen\<lparr>sen_list := sen_list sen @ ps,
        sen_map := fold (\<lambda>p. AList.update (fst p) (snd p)) ps (sen_map sen)\<rparr>"

lemma word_step_pair:
  assumes "sen_word sen \<noteq> []" "CHR ''='' \<notin> set (fst p)"
  shows "word_step sen (pair_word p) = Inr (add_pairs [p] sen)"
proof -
  have "takeWhile (\<lambda>c. c \<noteq> CHR ''='') (fst p @ CHR ''='' # snd p) = fst p"
    "dropWhile (\<lambda>c. c \<noteq> CHR ''='') (fst p @ CHR ''='' # snd p) = CHR ''='' # snd p"
    using assms(2) by (auto simp: takeWhile_append dropWhile_append)
  with assms(1) show ?thesis
    by (simp add: word_step_def pair_word_def cut_pair_def add_pairs_def Let_def)
qed

lemma parse_pairs:
  assumes "sen_word sen \<noteq> []" "\<forall>p \<in> set ps. CHR ''='' \<notin> set (fst p)"
  shows "parse_words sen (map pair_word ps @ ws) = parse_words (add_pairs ps sen) ws"
  using assms
proof (induction ps arbitrary: sen)
  case Nil
  then show ?case by (simp add: add_pairs_def)
next
  case (Cons p ps)
  then show ?case
    by (simp add: word_step_pair) (simp add: add_pairs_def)
qed

lemma map_of_update_fold:
  "distinct (map fst ps) \<Longrightarrow> set (map fst ps) \<inter> fst ` set m = {} \<Longrightarrow>
     map_of (fold (\<lambda>p. AList.update (fst p) (snd p)) ps m) = map_of m ++ map_of ps"
proof (induction ps arbitrary: m)
  case (Cons p ps)
  have "fst ` set (AList.update (fst p) (snd p) m) = insert (fst p) (fst ` set m)"
    by (simp add: dom_update)
  moreover have "map_of ps (fst p) = None"
    using Cons.prems(1) by (simp add: map_of_eq_None_iff)
  ultimately show ?case
    using Cons by (cases p) (auto simp: update_conv' map_add_def fun_eq_iff split: option.split)
qed simp

subsection \<open>Properties\<close>

text \<open>C28: The length prefix round-trips: what \<open>encodeLength\<close> writes for any length below 2^32,
\<open>readLength\<close> reads back, leaving the rest of the input; the prefix has the size of its range.\<close>

theorem length_roundtrip:
  assumes "uint l < 2 ^ 32"
  shows "read_length (s\<lparr>pending := encode_length l @ rest\<rparr>) = (Inr l, s\<lparr>pending := rest\<rparr>)
       \<and> length (encode_length l) =
           (if uint l < 2 ^ 7 then 1 else if uint l < 2 ^ 14 then 2 else if uint l < 2 ^ 21 then 3
            else if uint l < 2 ^ 28 then 4 else 5)"
proof -
  have less: "l <s c \<longleftrightarrow> uint l < uint c" if "uint c < 2 ^ 63" for c :: int64
    using that assms by (intro int64_sless) simp_all
  have "length (encode_length l) =
      (if uint l < 2 ^ 7 then 1 else if uint l < 2 ^ 14 then 2 else if uint l < 2 ^ 21 then 3
       else if uint l < 2 ^ 28 then 4 else 5)"
    by (simp add: encode_length_def less)
  with read_encode_length [OF assms] show ?thesis by blast
qed

lemma length_roundtrip_witness:
  "read_length \<lparr>pending = encode_length 200 @ [7], fin = IoEOF\<rparr> = (Inr 200, \<lparr>pending = [7], fin = IoEOF\<rparr>)
   \<and> length (encode_length 200) = 2"
  using length_roundtrip [of 200, where s = "\<lparr>pending = [], fin = IoEOF\<rparr>" and rest = "[7]"] by simp

text \<open>C39: Every length the reader accepts is a non-negative number below 2^32, whatever bytes arrive: the
allocation that follows never sees a negative or wrapped length.\<close>

theorem read_length_bounds:
  assumes "read_length s = (Inr l, s')"
  shows "0 \<le> sint l \<and> sint l < 2 ^ 32
       \<and> (\<exists>b. 1 \<le> length b \<and> length b \<le> 5 \<and> pending s = b @ pending s')"
  using read_length_range [OF assms] read_length_consumes [OF assms]
  by (metis One_nat_def Suc_leI length_greater_0_conv)

lemma read_length_bounds_witness:
  "\<exists>s' l. read_length \<lparr>pending = [0xF0, 0xFF, 0xFF, 0xFF, 0xFF], fin = IoEOF\<rparr> = (Inr l, s')
     \<and> l = 0xFFFFFFFF \<and> 0 \<le> sint l \<and> sint l < 2 ^ 32"
proof -
  have r: "read_length \<lparr>pending = [0xF0, 0xFF, 0xFF, 0xFF, 0xFF], fin = IoEOF\<rparr>
      = (Inr 0xFFFFFFFF, \<lparr>pending = [], fin = IoEOF\<rparr>)"
    by code_simp
  from read_length_bounds [OF r] r show ?thesis by blast
qed

text \<open>Reading refines the word-by-word parse: on the bytes of any sendable list of words the reader
gives the sentence that the words say, or the error of the first bad word, and stops exactly there.\<close>

lemma sentence_reader_refines:
  assumes "sendable ws"
  shows "read_sentence (s\<lparr>pending := sentence_bytes ws @ rest\<rparr>) =
     (case parse_words new_sentence ws of
        (Inr sen, ws') \<Rightarrow> (Inr sen, s\<lparr>pending := rest\<rparr>)
      | (Inl e, ws') \<Rightarrow> (Inl e, s\<lparr>pending := sentence_bytes ws' @ rest\<rparr>))"
  using read_sentence_refines [OF assms] .

lemma sentence_reader_refines_witness:
  "read_sentence \<lparr>pending = sentence_bytes [''!re'', ''.tag=r1'', ''=a=b''] @ [0], fin = IoEOF\<rparr>
   = (Inr \<lparr>sen_word = ''!re'', sen_tag = ''r1'', sen_list = [(''a'', ''b'')], sen_map = [(''a'', ''b'')]\<rparr>,
      \<lparr>pending = [0], fin = IoEOF\<rparr>)"
proof -
  have s: "sendable [''!re'', ''.tag=r1'', ''=a=b'']" by (simp add: sendable_def)
  have p: "parse_words new_sentence [''!re'', ''.tag=r1'', ''=a=b''] =
      (Inr \<lparr>sen_word = ''!re'', sen_tag = ''r1'', sen_list = [(''a'', ''b'')], sen_map = [(''a'', ''b'')]\<rparr>, [])"
    by code_simp
  from sentence_reader_refines [OF s, where s = "\<lparr>pending = [], fin = IoEOF\<rparr>" and rest = "[0]"] show ?thesis
    by (simp add: p del: parse_words.simps)
qed

text \<open>C29: A connection cut inside a sentence never yields a sentence: from any proper prefix of the bytes
of a well-formed sentence the reader returns an error.\<close>

theorem truncated_sentence_is_error:
  assumes "sendable ws" "parse_words new_sentence ws = (Inr sen, ws')"
    and "p @ m = sentence_bytes ws" "m \<noteq> []"
  shows "\<exists>e s'. read_sentence (s\<lparr>pending := p\<rparr>) = (Inl e, s')"
  using truncated_sentence_fails [OF assms] .

lemma truncated_sentence_is_error_witness:
  "\<exists>e s'. read_sentence \<lparr>pending = [5, 33, 100, 111, 110, 101], fin = IoEOF\<rparr> = (Inl e, s')"
proof -
  have s: "sendable [''!done'']" by (simp add: sendable_def)
  have p: "parse_words new_sentence [''!done''] = (Inr (new_sentence\<lparr>sen_word := ''!done''\<rparr>), [])"
    by code_simp
  have b: "[5, 33, 100, 111, 110, 101] @ [0] = sentence_bytes [''!done'']" by code_simp
  from truncated_sentence_is_error [OF s p b, of "\<lparr>pending = [], fin = IoEOF\<rparr>"] show ?thesis by simp
qed

end
