(* ===== verification/Client_Sync.thy ===== *)
theory Client_Sync
  imports Proto_Codec
begin

text \<open>
  The native-api client in synchronous mode: \<open>reply.go\<close>, \<open>run.go\<close> (\<open>runArgsContextSync\<close>) and the
  login of \<open>client.go\<close>.  A Go call with two results is a pair of an optional reply and an optional
  error, since both can be set; a call that blocks on a mutex or dereferences nil is not a result
  and has its own outcome.
\<close>

subsection \<open>reply.go\<close>

record reply =
  re_sens :: "sentence list"
  done_sen :: "sentence option"

definition empty_reply :: reply where
  "empty_reply = \<lparr>re_sens = [], done_sen = None\<rparr>"

definition reply_string :: "(string \<Rightarrow> string) \<Rightarrow> reply \<Rightarrow> string" where
  "reply_string q r =
     concat (map (\<lambda>sen. sentence_string q sen @ [CHR 0x0A]) (re_sens r))
     @ (case done_sen r of None \<Rightarrow> [] | Some sen \<Rightarrow> sentence_string q sen)"

definition process_reply :: "sentence \<Rightarrow> reply \<Rightarrow> (bool \<times> goerr option) \<times> reply" where
  "process_reply sen r =
     (if sen_word sen = ''!re'' then ((False, None), r\<lparr>re_sens := re_sens r @ [sen]\<rparr>)
      else if sen_word sen = ''!done'' then ((True, None), r\<lparr>done_sen := Some sen\<rparr>)
      else if sen_word sen = ''!trap'' \<or> sen_word sen = ''!fatal'' then
        ((sen_word sen = ''!fatal'', Some (DeviceErr sen)), r)
      else if sen_word sen = [] \<or> sen_word sen = ''!empty'' then ((False, None), r)
      else ((True, Some (UnknownReplyErr sen)), r))"

subsection \<open>The client\<close>

text \<open>
  The fields of \<open>Client\<close> that synchronous calls use.  \<open>next_tag\<close> is the atomic counter, \<open>closing\<close>
  is what \<open>Close\<close> sets.
\<close>

record client =
  cw :: writer
  cr :: stream
  next_tag :: int64
  closing :: bool

definition new_client :: "conn \<Rightarrow> stream \<Rightarrow> client" where
  "new_client c s =
     \<lparr>cw = new_writer c, cr = s, next_tag = 0, closing = False\<rparr>"

definition increment_tag :: "client \<Rightarrow> int64 \<times> client" where
  "increment_tag c = (next_tag c + 1, c\<lparr>next_tag := next_tag c + 1\<rparr>)"

datatype 'a outcome = Returns 'a | Blocks | Panics string

type_synonym run_outcome = "(reply option \<times> goerr option) outcome"

text \<open>
  The loop of \<open>runArgsContextSync\<close>: a fatal or unknown sentence ends the call with an error and no
  reply; a trap is remembered and reading goes on to the \<open>!done\<close> that follows it.
\<close>

function sync_loop ::
  "reply \<Rightarrow> goerr option \<Rightarrow> stream \<Rightarrow> (reply option \<times> goerr option) \<times> stream" where
  "sync_loop out last_err s =
     (case read_sentence s of
        (Inl e, s') \<Rightarrow> ((None, Some e), s')
      | (Inr sen, s') \<Rightarrow>
          (case process_reply sen out of
             ((True, Some e), out') \<Rightarrow> ((None, Some e), s')
           | ((False, Some e), out') \<Rightarrow> sync_loop out' (Some e) s'
           | ((True, None), out') \<Rightarrow> ((Some out', last_err), s')
           | ((False, None), out') \<Rightarrow> sync_loop out' last_err s'))"
  by pat_completeness auto
termination
  by (relation "measure (\<lambda>(out, le, s). length (pending s))")
    (auto dest!: read_sentence_consumes [OF sym])

declare sync_loop.simps [simp del]

text \<open>
  \<open>RunArgsContext\<close> when the client is not asynchronous.  \<open>sync_exchange\<close> is the call from the
  moment \<open>BeginSentence\<close> has the mutex; \<open>run_sync\<close> blocks while somebody else holds it.  The context
  argument of the code is not looked at on this path.
\<close>

definition sync_exchange :: "string list \<Rightarrow> client \<Rightarrow> (reply option \<times> goerr option) \<times> client" where
  "sync_exchange ws c =
     (case end_sentence False (write_words False ws (cw c)) of
        (Some e, w') \<Rightarrow> ((None, Some e), c\<lparr>cw := w'\<rparr>)
      | (None, w') \<Rightarrow>
          (let (r, s') = sync_loop empty_reply None (cr c) in (r, c\<lparr>cw := w', cr := s'\<rparr>)))"

definition run_sync :: "string list \<Rightarrow> client \<Rightarrow> run_outcome \<times> client" where
  "run_sync ws c =
     (case begin_sentence (cw c) of
        None \<Rightarrow> (Blocks, c)
      | Some w1 \<Rightarrow> (let (r, c') = sync_exchange ws (c\<lparr>cw := w1\<rparr>) in (Returns r, c')))"

subsection \<open>The reply of a list of sentences\<close>

text \<open>
  The contract of a call on the sentences the device sends: data sentences are collected in order,
  traps and empty sentences are passed over, the last trap is the error.
\<close>

definition ignorable :: "sentence \<Rightarrow> bool" where
  "ignorable sen \<longleftrightarrow> sen_word sen = [] \<or> sen_word sen = ''!empty''"

definition passing :: "sentence \<Rightarrow> bool" where
  "passing sen \<longleftrightarrow> sen_word sen = ''!re'' \<or> sen_word sen = ''!trap'' \<or> ignorable sen"

definition rows_of :: "sentence list \<Rightarrow> sentence list" where
  "rows_of sens = filter (\<lambda>sen. sen_word sen = ''!re'') sens"

definition last_trap :: "goerr option \<Rightarrow> sentence list \<Rightarrow> goerr option" where
  "last_trap e0 sens =
     (case rev (filter (\<lambda>sen. sen_word sen = ''!trap'') sens) of
        [] \<Rightarrow> e0
      | sen # _ \<Rightarrow> Some (DeviceErr sen))"

text \<open>A stream that yields these sentences one after the other, and then whatever comes next.\<close>

fun yields :: "stream \<Rightarrow> sentence list \<Rightarrow> stream \<Rightarrow> bool" where
  "yields s [] s' \<longleftrightarrow> s' = s"
| "yields s (sen # sens) s' \<longleftrightarrow>
     (case read_sentence s of (Inl e, _) \<Rightarrow> False | (Inr sen', s1) \<Rightarrow> sen' = sen \<and> yields s1 sens s')"

lemma sync_loop_passing:
  assumes "yields s sens s'" "\<forall>sen \<in> set sens. passing sen"
  shows "sync_loop out e0 s =
    sync_loop (out\<lparr>re_sens := re_sens out @ rows_of sens\<rparr>) (last_trap e0 sens) s'"
  using assms
proof (induction sens arbitrary: s out e0)
  case Nil
  then show ?case by (simp add: rows_of_def last_trap_def)
next
  case (Cons sen sens)
  then obtain s1 where rd: "read_sentence s = (Inr sen, s1)" and y: "yields s1 sens s'"
    by (auto split: prod.splits sum.splits)
  have p: "\<forall>sen \<in> set sens. passing sen" using Cons.prems by simp
  have t: "last_trap e0 (sen # sens) =
      last_trap (if sen_word sen = ''!trap'' then Some (DeviceErr sen) else e0) sens"
    by (auto simp: last_trap_def split: list.splits)
  from Cons.prems(2) consider "sen_word sen = ''!re''" | "sen_word sen = ''!trap''" | "ignorable sen"
    by (auto simp: passing_def)
  then show ?case
  proof cases
    case 1
    then show ?thesis
      by (subst sync_loop.simps)
        (simp add: rd process_reply_def t Cons.IH [OF y p] rows_of_def)
  next
    case 2
    then show ?thesis
      by (subst sync_loop.simps)
        (simp add: rd process_reply_def t Cons.IH [OF y p] rows_of_def)
  next
    case 3
    then have "sen_word sen \<noteq> ''!trap''" "sen_word sen \<noteq> ''!re''" by (auto simp: ignorable_def)
    with 3 show ?thesis
      by (subst sync_loop.simps)
        (auto simp: rd process_reply_def t Cons.IH [OF y p] rows_of_def ignorable_def)
  qed
qed

lemma sync_loop_done:
  assumes "read_sentence s = (Inr sen, s')" "sen_word sen = ''!done''"
  shows "sync_loop out e0 s = ((Some (out\<lparr>done_sen := Some sen\<rparr>), e0), s')"
  by (subst sync_loop.simps) (simp add: assms process_reply_def)

lemma sync_loop_fatal:
  assumes "read_sentence s = (Inr sen, s')" "sen_word sen = ''!fatal''"
  shows "sync_loop out e0 s = ((None, Some (DeviceErr sen)), s')"
  by (subst sync_loop.simps) (simp add: assms process_reply_def)

lemma sync_loop_unknown:
  assumes "read_sentence s = (Inr sen, s')" "\<not> passing sen"
    "sen_word sen \<noteq> ''!done''" "sen_word sen \<noteq> ''!fatal''"
  shows "sync_loop out e0 s = ((None, Some (UnknownReplyErr sen)), s')"
  using assms by (subst sync_loop.simps) (simp add: process_reply_def passing_def ignorable_def)

lemma sync_loop_read_error:
  assumes "read_sentence s = (Inl e, s')"
  shows "sync_loop out e0 s = ((None, Some e), s')"
  by (subst sync_loop.simps) (simp add: assms)

lemma sync_loop_collects:
  assumes "yields s sens s1" "\<forall>sen \<in> set sens. passing sen"
    and "read_sentence s1 = (Inr sen, s2)" "sen_word sen = ''!done''"
  shows "sync_loop empty_reply None s =
      ((Some \<lparr>re_sens = rows_of sens, done_sen = Some sen\<rparr>, last_trap None sens), s2)"
  using sync_loop_passing [OF assms(1,2), of empty_reply None] sync_loop_done [OF assms(3,4)]
  by (simp add: empty_reply_def)

text \<open>A reply that comes back has its \<open>!done\<close> sentence.\<close>

lemma sync_loop_has_done:
  "sync_loop out e0 s = ((Some r, e), s') \<Longrightarrow> \<exists>sen. done_sen r = Some sen \<and> sen_word sen = ''!done''"
proof (induction out e0 s rule: sync_loop.induct)
  case (1 out e0 s)
  obtain sen s1 where rd: "read_sentence s = (Inr sen, s1)"
    using "1.prems" by (subst (asm) sync_loop.simps) (auto split: prod.splits sum.splits)
  obtain d x out' where pr: "process_reply sen out = ((d, x), out')" by (metis surj_pair)
  show ?case
  proof (cases d)
    case True
    with "1.prems" rd pr have "x = None" "r = out'"
      by (subst (asm) sync_loop.simps, cases x, simp_all)+
    with pr True show ?thesis by (auto simp: process_reply_def split: if_splits)
  next
    case False
    with "1.prems" rd pr "1.IH" show ?thesis
      by (subst (asm) sync_loop.simps) (cases x; simp)
  qed
qed

text \<open>In synchronous mode the writer's mutex is never left locked, so a call never blocks.\<close>

lemma sync_exchange_unlocks: "sync_exchange ws c = (r, c') \<Longrightarrow> \<not> wlocked (cw c')"
  by (auto simp: sync_exchange_def end_sentence_def Let_def split: prod.splits option.splits)

lemma run_sync_returns:
  assumes "\<not> wlocked (cw c)"
  shows "\<exists>r c'. run_sync ws c = (Returns r, c') \<and> \<not> wlocked (cw c')"
proof -
  obtain r c' where ex: "sync_exchange ws (c\<lparr>cw := (cw c)\<lparr>wlocked := True\<rparr>\<rparr>) = (r, c')"
    by (metis surj_pair)
  with assms sync_exchange_unlocks [OF ex] show ?thesis
    by (simp add: run_sync_def begin_sentence_def)
qed

lemma sync_exchange_sends:
  assumes "healthy (cw c)"
  shows "\<exists>w'. sync_exchange ws c =
      (let (r, s') = sync_loop empty_reply None (cr c) in (r, c\<lparr>cw := w', cr := s'\<rparr>))
    \<and> healthy w' \<and> \<not> wlocked w' \<and> buf (wbuf w') = []
    \<and> sent (bconn (wbuf w')) = wire (cw c) @ sentence_bytes ws"
proof -
  obtain w' where e: "end_sentence False (write_words False ws (cw c)) = (None, w')" and "healthy w'"
    using end_sentence_healthy [OF assms] by blast
  with end_sentence_ok [OF e] show ?thesis
    by (auto simp: sync_exchange_def)
qed

text \<open>Over a connection that does not fail a call puts its sentence on the wire and reads the answer.\<close>

lemma run_sync_sends:
  assumes "healthy (cw c)" "\<not> wlocked (cw c)"
  shows "\<exists>c'. run_sync ws c = (Returns (fst (sync_loop empty_reply None (cr c))), c')
    \<and> cr c' = snd (sync_loop empty_reply None (cr c)) \<and> next_tag c' = next_tag c \<and> closing c' = closing c
    \<and> healthy (cw c') \<and> \<not> wlocked (cw c') \<and> wire (cw c') = wire (cw c) @ sentence_bytes ws
    \<and> sent (bconn (wbuf (cw c'))) = wire (cw c')"
proof -
  have h: "healthy (cw (c\<lparr>cw := (cw c)\<lparr>wlocked := True\<rparr>\<rparr>))" using assms(1) by (simp add: healthy_def)
  obtain r e s' where "sync_loop empty_reply None (cr c) = ((r, e), s')" by (metis surj_pair)
  with sync_exchange_sends [OF h, of ws] assms(2) show ?thesis
    by (auto simp: run_sync_def begin_sentence_def wire_def accepted_def)
qed

lemma sync_loop_result: "sync_loop out e0 s = ((r, e), s') \<Longrightarrow> r \<noteq> None \<or> e \<noteq> None"
proof (induction out e0 s rule: sync_loop.induct)
  case (1 out e0 s)
  show ?case
  proof (cases "read_sentence s")
    case (Pair x s1)
    show ?thesis
    proof (cases x)
      case (Inl e1)
      with "1.prems" Pair show ?thesis by (subst (asm) sync_loop.simps) auto
    next
      case (Inr sen)
      obtain d y out' where pr: "process_reply sen out = ((d, y), out')" by (metis surj_pair)
      with "1.prems" "1.IH" Pair Inr show ?thesis
        by (subst (asm) sync_loop.simps) (cases y; cases d; auto)
    qed
  qed
qed

subsection \<open>Login\<close>

text \<open>
  \<open>hex.DecodeString\<close> of the library and \<open>%x\<close>.  MD5 is the argument \<open>md5\<close>: a function from the
  hashed bytes to the digest.
\<close>

definition hex_value :: "char \<Rightarrow> nat option" where
  "hex_value c =
     (let n = of_char c :: nat in
      if 48 \<le> n \<and> n \<le> 57 then Some (n - 48)
      else if 97 \<le> n \<and> n \<le> 102 then Some (n - 87)
      else if 65 \<le> n \<and> n \<le> 70 then Some (n - 55)
      else None)"

fun hex_decode :: "string \<Rightarrow> goerr + byte list" where
  "hex_decode [] = Inr []"
| "hex_decode [p] =
     (case hex_value p of None \<Rightarrow> Inl (ErrHexInvalidByte p) | Some _ \<Rightarrow> Inl ErrHexLength)"
| "hex_decode (p # q # s) =
     (case hex_value p of
        None \<Rightarrow> Inl (ErrHexInvalidByte p)
      | Some a \<Rightarrow>
          (case hex_value q of
             None \<Rightarrow> Inl (ErrHexInvalidByte q)
           | Some b \<Rightarrow>
               (case hex_decode s of
                  Inl e \<Rightarrow> Inl e
                | Inr bs \<Rightarrow> Inr (word_of_nat (a * 16 + b) # bs))))"

definition hex_digit :: "nat \<Rightarrow> char" where
  "hex_digit n = char_of (if n < 10 then n + 48 else n + 87)"

definition fmt_x :: "byte list \<Rightarrow> string" where
  "fmt_x bs = concat (map (\<lambda>b. [hex_digit (unat b div 16), hex_digit (unat b mod 16)]) bs)"

definition challenge_response :: "(byte list \<Rightarrow> byte list) \<Rightarrow> byte list \<Rightarrow> string \<Rightarrow> string" where
  "challenge_response md5 cha password = ''00'' @ fmt_x (md5 ([0] @ to_bytes password @ cha))"

text \<open>
  \<open>LoginContext\<close> over any way to run a sentence: the reply's \<open>Done\<close> is dereferenced before it is
  compared with nil, so a reply without it panics.
\<close>

type_synonym 'c runner = "string list \<Rightarrow> 'c \<Rightarrow> run_outcome \<times> 'c"

definition login ::
  "(byte list \<Rightarrow> byte list) \<Rightarrow> 'c runner \<Rightarrow> string \<Rightarrow> string \<Rightarrow> 'c
     \<Rightarrow> goerr option outcome \<times> 'c" where
  "login md5 run user password c =
     (case run [''/login'', ''=name='' @ user, ''=password='' @ password] c of
        (Blocks, c1) \<Rightarrow> (Blocks, c1)
      | (Panics m, c1) \<Rightarrow> (Panics m, c1)
      | (Returns (r, Some e), c1) \<Rightarrow> (Returns (Some e), c1)
      | (Returns (None, None), c1) \<Rightarrow> (Panics ''nil pointer dereference'', c1)
      | (Returns (Some r, None), c1) \<Rightarrow>
          (case done_sen r of
             None \<Rightarrow> (Panics ''nil pointer dereference'', c1)
           | Some sen \<Rightarrow>
               (case map_of (sen_map sen) ''ret'' of
                  None \<Rightarrow> (Returns None, c1)
                | Some ret \<Rightarrow>
                    (case hex_decode ret of
                       Inl e \<Rightarrow>
                         (Returns (Some (Wrapf
                            (''RouterOS: /login: '' @ error_text id ErrInvalidChallengeReceived
                             @ '': '' @ error_text id e)
                            [ErrInvalidChallengeReceived, e])), c1)
                     | Inr cha \<Rightarrow>
                         (case run [''/login'', ''=name='' @ user,
                                    ''=response='' @ challenge_response md5 cha password] c1 of
                            (Blocks, c2) \<Rightarrow> (Blocks, c2)
                          | (Panics m, c2) \<Rightarrow> (Panics m, c2)
                          | (Returns (_, e), c2) \<Rightarrow> (Returns e, c2))))))"

lemma run_sync_reply_has_done:
  assumes "run_sync ws c = (Returns (r, None), c')"
  shows "\<exists>rep sen. r = Some rep \<and> done_sen rep = Some sen \<and> sen_word sen = ''!done''"
proof -
  obtain w1 where ex: "sync_exchange ws (c\<lparr>cw := w1\<rparr>) = ((r, None), c')"
    using assms by (auto simp: run_sync_def split: option.splits prod.splits)
  then obtain s' where sl: "sync_loop empty_reply None (cr c) = ((r, None), s')"
    by (auto simp: sync_exchange_def split: option.splits prod.splits)
  with sync_loop_result [OF sl] show ?thesis by (auto dest: sync_loop_has_done)
qed

text \<open>
  What login relies on: a runner that always answers, keeps its client ready, and gives a final sentence
  with every reply that comes without an error.
\<close>

locale replying =
  fixes run :: "'c runner" and ready :: "'c \<Rightarrow> bool"
  assumes replies: "ready c \<Longrightarrow>
    \<exists>r e c'. run ws c = (Returns (r, e), c') \<and> ready c'
      \<and> (e = None \<longrightarrow> (\<exists>rep sen. r = Some rep \<and> done_sen rep = Some sen))"
begin

lemma login_returns:
  assumes "ready c"
  shows "\<exists>e c'. login md5 run user password c = (Returns e, c') \<and> ready c'"
proof -
  obtain r e c1 where r1: "run [''/login'', ''=name='' @ user, ''=password='' @ password] c = (Returns (r, e), c1)"
    and u1: "ready c1" and d: "e = None \<Longrightarrow> \<exists>rep sen. r = Some rep \<and> done_sen rep = Some sen"
    using replies [OF assms] by blast
  have r2: "\<exists>r' e' c'. run ws c1 = (Returns (r', e'), c') \<and> ready c'" for ws
    using replies [OF u1] by blast
  show ?thesis
  proof (cases e)
    case (Some x)
    with r1 u1 show ?thesis by (cases r) (simp_all add: login_def)
  next
    case None
    with d obtain rep sen where rs: "r = Some rep" "done_sen rep = Some sen" by blast
    show ?thesis
    proof (cases "map_of (sen_map sen) ''ret''")
      case None
      with r1 u1 rs \<open>e = None\<close> show ?thesis by (simp add: login_def)
    next
      case (Some ret)
      show ?thesis
      proof (cases "hex_decode ret")
        case (Inl x)
        with Some r1 u1 rs \<open>e = None\<close> show ?thesis by (simp add: login_def)
      next
        case (Inr cha)
        with Some r1 rs \<open>e = None\<close>
          r2 [of "[''/login'', ''=name='' @ user, ''=response='' @ challenge_response md5 cha password]"]
        show ?thesis by (auto simp: login_def)
      qed
    qed
  qed
qed

end

interpretation sync_client: replying run_sync "\<lambda>c. \<not> wlocked (cw c)"
proof
  fix c :: client and ws
  assume "\<not> wlocked (cw c)"
  then show "\<exists>r e c'. run_sync ws c = (Returns (r, e), c') \<and> \<not> wlocked (cw c')
      \<and> (e = None \<longrightarrow> (\<exists>rep sen. r = Some rep \<and> done_sen rep = Some sen))"
    using run_sync_returns [of c ws] run_sync_reply_has_done by (metis surj_pair)
qed

subsection \<open>Properties\<close>

text \<open>C18: A synchronous call collects exactly the data sentences up to \<open>!done\<close>, in order; traps and empty
sentences do not end it, and the error returned with the reply is the last trap.\<close>

theorem sync_run_collects:
  assumes "healthy (cw c)" "\<not> wlocked (cw c)"
    and "yields (cr c) sens s1" "\<forall>sen \<in> set sens. passing sen"
    and "read_sentence s1 = (Inr sen, s2)" "sen_word sen = ''!done''"
  shows "\<exists>c'. run_sync ws c =
      (Returns (Some \<lparr>re_sens = rows_of sens, done_sen = Some sen\<rparr>, last_trap None sens), c')
    \<and> cr c' = s2 \<and> sent (bconn (wbuf (cw c'))) = wire (cw c) @ sentence_bytes ws \<and> \<not> wlocked (cw c')"
  using run_sync_sends [OF assms(1,2), of ws] sync_loop_collects [OF assms(3-6)] by auto

definition sample_client :: client where
  "sample_client = new_client \<lparr>sent = [], room = None, cerr = IoEOF\<rparr>
     \<lparr>pending = sentence_bytes [''!re'', ''=a=1''] @ sentence_bytes [''!trap'', ''=message=no'']
        @ sentence_bytes [''!re'', ''=a=2''] @ sentence_bytes [''!done''], fin = IoEOF\<rparr>"

lemma sync_run_collects_witness:
  "\<exists>rep c'. run_sync [''/x''] sample_client = (Returns (Some rep, Some (DeviceErr
       \<lparr>sen_word = ''!trap'', sen_tag = [], sen_list = [(''message'', ''no'')], sen_map = [(''message'', ''no'')]\<rparr>)), c')
     \<and> map sen_list (re_sens rep) = [[(''a'', ''1'')], [(''a'', ''2'')]]"
proof -
  define re where "re = (\<lambda>v. \<lparr>sen_word = ''!re'', sen_tag = [], sen_list = [(''a'', v)], sen_map = [(''a'', v)]\<rparr>)"
  define tr where "tr = \<lparr>sen_word = ''!trap'', sen_tag = [], sen_list = [(''message'', ''no'')],
      sen_map = [(''message'', ''no'')]\<rparr>"
  define s1 where "s1 = \<lparr>pending = sentence_bytes [''!done''], fin = IoEOF\<rparr>"
  have "healthy (cw sample_client)" "\<not> wlocked (cw sample_client)"
    by (simp_all add: sample_client_def new_client_def healthy_def new_writer_def)
  moreover have "yields (cr sample_client) [re ''1'', tr, re ''2''] s1"
    unfolding re_def tr_def s1_def by code_simp
  moreover have "\<forall>sen \<in> set [re ''1'', tr, re ''2'']. passing sen"
    by (simp add: passing_def re_def tr_def)
  moreover have "read_sentence s1 = (Inr (new_sentence\<lparr>sen_word := ''!done''\<rparr>), \<lparr>pending = [], fin = IoEOF\<rparr>)"
    unfolding s1_def by code_simp
  moreover have "rows_of [re ''1'', tr, re ''2''] = [re ''1'', re ''2'']"
    "last_trap None [re ''1'', tr, re ''2''] = Some (DeviceErr tr)"
    by (simp_all add: rows_of_def last_trap_def re_def tr_def)
  ultimately show ?thesis
    using sync_run_collects [of sample_client "[re ''1'', tr, re ''2'']" s1
        "new_sentence\<lparr>sen_word := ''!done''\<rparr>" "\<lparr>pending = [], fin = IoEOF\<rparr>" "[''/x'']"]
    by (auto simp: tr_def re_def)
qed

text \<open>A fatal sentence, a sentence with an unknown word or a read error ends a synchronous call with
that error and without a reply, whatever rows came before.\<close>

lemma sync_run_fails:
  assumes "healthy (cw c)" "\<not> wlocked (cw c)"
    and "yields (cr c) sens s1" "\<forall>sen \<in> set sens. passing sen"
    and "read_sentence s1 = (r, s2)"
    and "case r of Inl e \<Rightarrow> err = e
         | Inr sen \<Rightarrow> sen_word sen = ''!fatal'' \<and> err = DeviceErr sen
             \<or> \<not> passing sen \<and> sen_word sen \<noteq> ''!done'' \<and> sen_word sen \<noteq> ''!fatal'' \<and> err = UnknownReplyErr sen"
  shows "\<exists>c'. run_sync ws c = (Returns (None, Some err), c') \<and> \<not> wlocked (cw c')"
proof -
  have "sync_loop out e0 s1 = ((None, Some err), s2)" for out e0
    using assms(5,6) by (cases r) (auto simp: sync_loop_read_error sync_loop_fatal sync_loop_unknown)
  then have "sync_loop empty_reply None (cr c) = ((None, Some err), s2)"
    using sync_loop_passing [OF assms(3,4), of empty_reply None] by simp
  with run_sync_sends [OF assms(1,2), of ws] show ?thesis by auto
qed

lemma sync_run_fails_witness:
  "\<exists>c'. run_sync [''/x''] (new_client \<lparr>sent = [], room = None, cerr = IoEOF\<rparr> \<lparr>pending = [], fin = IoEOF\<rparr>)
     = (Returns (None, Some IoEOF), c') \<and> \<not> wlocked (cw c')"
proof -
  have r: "read_sentence \<lparr>pending = [], fin = IoEOF\<rparr> = (Inl IoEOF, \<lparr>pending = [], fin = IoEOF\<rparr>)"
    by code_simp
  show ?thesis
    by (rule sync_run_fails [where sens = "[]" and ?s1.0 = "\<lparr>pending = [], fin = IoEOF\<rparr>", OF _ _ _ _ r])
      (simp_all add: new_client_def new_writer_def healthy_def)
qed

text \<open>A synchronous call always returns and leaves the writer free, whatever the connection does; a
result without an error carries the \<open>!done\<close> sentence that ended it.\<close>

lemma sync_run_total:
  assumes "\<not> wlocked (cw c)"
  shows "\<exists>r e c'. run_sync ws c = (Returns (r, e), c') \<and> \<not> wlocked (cw c')
       \<and> (e = None \<longrightarrow> (\<exists>rep sen. r = Some rep \<and> done_sen rep = Some sen \<and> sen_word sen = ''!done''))"
  using run_sync_returns [OF assms, of ws] run_sync_reply_has_done by (metis surj_pair)

lemma sync_run_total_witness:
  "\<exists>r e c'. run_sync [''/x''] sample_client = (Returns (r, e), c') \<and> \<not> wlocked (cw c')"
  using sync_run_total [of sample_client "[''/x'']"]
  by (auto simp: sample_client_def new_client_def new_writer_def)

text \<open>Login over the synchronous client never panics and never blocks: every answer of the device, with
a challenge, with a bad challenge or without one, gives a result.\<close>

lemma login_never_panics:
  assumes "\<not> wlocked (cw c)"
  shows "\<exists>e c'. login md5 run_sync user password c = (Returns e, c') \<and> \<not> wlocked (cw c')"
  by (rule sync_client.login_returns [OF assms])

lemma login_never_panics_witness:
  "\<exists>e c'. login (\<lambda>b. b) run_sync ''admin'' ''x'' sample_client = (Returns e, c') \<and> \<not> wlocked (cw c')"
  using login_never_panics [of sample_client "\<lambda>b. b" "''admin''" "''x''"]
  by (auto simp: sample_client_def new_client_def new_writer_def)

text \<open>Login dereferences the \<open>Done\<close> sentence of any reply that comes without an error, so over a
client that returns a reply without one it panics instead of reporting the missing challenge.\<close>

lemma login_panics_without_done:
  "login md5 (\<lambda>ws c. (Returns (Some empty_reply, None), c)) user password c
     = (Panics ''nil pointer dereference'', c)"
  by (simp add: login_def empty_reply_def)

end
