(* ===== verification/Client_Async.thy ===== *)
theory Client_Async
  imports Client_Sync
begin

text \<open>
  The asynchronous mode of the client: \<open>async.go\<close>, the asynchronous half of \<open>run.go\<close>, \<open>listen.go\<close>,
  \<open>cancel.go\<close> and \<open>chan_reply.go\<close>.  Goroutines meet at two mutexes (the client's and the writer's), at
  the tag map and at the reply channels; a step is what one goroutine does between two of these points,
  so every interleaving of the goroutines is a sequence of steps.  What the connection does (a sentence
  or an error read, an error of \<open>EndSentence\<close>) is a parameter of the step.
\<close>

subsection \<open>Sentence processors\<close>

text \<open>
  \<open>asyncReply\<close> and \<open>ListenReply\<close>: a processor with its channel.  \<open>pqueue\<close> is the buffer of the channel,
  \<open>preceived\<close> what its reader has taken out; \<open>pstop\<close> is the stop channel of a listener with a context
  (\<open>Some True\<close> once closed).
\<close>

datatype akind = KRun | KListen nat

record aproc =
  pkind :: akind
  preply :: reply
  pqueue :: "sentence list"
  preceived :: "sentence list"
  perr :: "goerr option"
  pclosed :: bool
  pstop :: "bool option"

definition new_proc :: "akind \<Rightarrow> bool option \<Rightarrow> aproc" where
  "new_proc k stop =
     \<lparr>pkind = k, preply = empty_reply, pqueue = [], preceived = [], perr = None, pclosed = False,
      pstop = stop\<rparr>"

text \<open>\<open>chanReply.close\<close> keeps the first error; closing a closed channel panics (no result).\<close>

definition close_proc :: "goerr option \<Rightarrow> aproc \<Rightarrow> aproc option" where
  "close_proc err p =
     (if pclosed p then None
      else Some (p\<lparr>perr := (if perr p = None then err else perr p), pclosed := True\<rparr>))"

definition close_stop :: "aproc \<Rightarrow> aproc option" where
  "close_stop p =
     (case pstop p of
        None \<Rightarrow> Some p
      | Some closed \<Rightarrow> if closed then None else Some (p\<lparr>pstop := Some True\<rparr>))"

text \<open>
  \<open>ListenReply.processSentence\<close>, apart from the send of a \<open>!re\<close> sentence (a step of its own): whether
  it is done, the error, and whether the sentence becomes \<open>Done\<close>.
\<close>

definition listen_verdict :: "sentence \<Rightarrow> bool \<times> goerr option \<times> bool" where
  "listen_verdict sen =
     (if sen_word sen = ''!re'' then (False, None, False)
      else if sen_word sen = ''!done'' then (True, None, True)
      else if sen_word sen = ''!trap'' then
        (if gomap_str (sen_map sen) ''category'' = ''2'' then (True, None, True)
         else (True, Some (DeviceErr sen), False))
      else if sen_word sen = ''!fatal'' then (True, Some (DeviceErr sen), False)
      else if sen_word sen = [] \<or> sen_word sen = ''!empty'' then (False, None, False)
      else (True, Some (UnknownReplyErr sen), False))"

definition listen_process :: "sentence \<Rightarrow> aproc \<Rightarrow> ((bool \<times> goerr option) \<times> aproc) option" where
  "listen_process sen p =
     (case listen_verdict sen of (done, err, sets) \<Rightarrow>
        let p' = (if sets then p\<lparr>preply := (preply p)\<lparr>done_sen := Some sen\<rparr>\<rparr> else p) in
        if done then map_option (Pair (done, err)) (close_stop p') else Some ((done, err), p'))"

definition run_process :: "sentence \<Rightarrow> aproc \<Rightarrow> (bool \<times> goerr option) \<times> aproc" where
  "run_process sen p =
     (case process_reply sen (preply p) of (v, r) \<Rightarrow> (v, p\<lparr>preply := r\<rparr>))"

subsection \<open>The state\<close>

text \<open>
  Where the loop goroutine is: not started, reading, having read a sentence, about to process it for
  a processor it found, about to delete its tag, about to close its channel, having failed to read, or
  ended.  The writer's mutex is free, held by a call with a fresh tag, or held by a call that has
  returned (\<open>Leaked\<close>).
\<close>

datatype loop_pc =
    LNone | LRead | LGot sentence | LProc sentence | LDel string "goerr option"
  | LClose string "goerr option" | LFail goerr | LEnded goerr

datatype holder = HRun string | HListen string nat "bool option" | Leaked

record astate =
  aasync :: bool
  aclosing :: bool
  anext :: nat
  atags :: "string list option"
  aprocs :: "string \<rightharpoonup> aproc"
  apc :: loop_pc
  awriter :: "holder option"
  acancels :: "string list"
  apanic :: bool
  ahandled :: "sentence list"

type_synonym ctx_error = "goerr option"

definition async_init :: astate where
  "async_init =
     \<lparr>aasync = False, aclosing = False, anext = 0, atags = None, aprocs = Map.empty, apc = LNone,
      awriter = None, acancels = [], apanic = False, ahandled = []\<rparr>"

definition tag_of :: "char \<Rightarrow> nat \<Rightarrow> string" where
  "tag_of c n = c # dec_digits n"

definition register :: "string \<Rightarrow> aproc \<Rightarrow> astate \<Rightarrow> astate" where
  "register t p s = s\<lparr>atags := map_option ((#) t) (atags s), aprocs := (aprocs s)(t \<mapsto> p)\<rparr>"

definition set_proc :: "string \<Rightarrow> aproc \<Rightarrow> astate \<Rightarrow> astate" where
  "set_proc t p s = s\<lparr>aprocs := (aprocs s)(t \<mapsto> p)\<rparr>"

subsection \<open>Steps of the callers\<close>

text \<open>\<open>AsyncContext\<close>: the second call reports an error and changes nothing.\<close>

definition start_async :: "astate \<Rightarrow> astate" where
  "start_async s = (if aasync s then s else s\<lparr>aasync := True, atags := Some [], apc := LRead\<rparr>)"

text \<open>
  \<open>RunArgsContext\<close> in asynchronous mode.  It takes the writer's mutex and a tag, then under the
  client's mutex finds the loop ended (and returns with the writer's mutex held), or registers its
  processor and ends the sentence, which frees the writer; a write error unregisters it again.
\<close>

definition run_begin :: "astate \<Rightarrow> astate option" where
  "run_begin s =
     (if aasync s \<and> awriter s = None
      then Some (s\<lparr>anext := anext s + 1, awriter := Some (HRun (tag_of CHR ''r'' (anext s + 1)))\<rparr>)
      else None)"

definition run_commit :: "goerr option \<Rightarrow> astate \<Rightarrow> astate option" where
  "run_commit wfail s =
     (case awriter s of
        Some (HRun t) \<Rightarrow>
          (if atags s = None then Some (s\<lparr>awriter := Some Leaked\<rparr>)
           else if wfail \<noteq> None then Some (s\<lparr>awriter := None\<rparr>)
           else Some (register t (new_proc KRun None) (s\<lparr>awriter := None\<rparr>)))
      | _ \<Rightarrow> None)"

text \<open>\<open>ListenArgsQueueContext\<close>: the tag first, then the writer; \<open>EndSentence\<close> precedes every return.\<close>

definition listen_begin :: "nat \<Rightarrow> bool \<Rightarrow> astate \<Rightarrow> astate option" where
  "listen_begin qsize with_ctx s =
     (if aasync s \<and> awriter s = None
      then Some (s\<lparr>anext := anext s + 1,
             awriter := Some (HListen (tag_of CHR ''l'' (anext s + 1)) qsize
                                (if with_ctx then Some False else None))\<rparr>)
      else None)"

definition listen_commit :: "goerr option \<Rightarrow> astate \<Rightarrow> astate option" where
  "listen_commit wfail s =
     (case awriter s of
        Some (HListen t qsize stop) \<Rightarrow>
          (if wfail \<noteq> None \<or> atags s = None then Some (s\<lparr>awriter := None\<rparr>)
           else Some (register t (new_proc (KListen qsize) stop) (s\<lparr>awriter := None\<rparr>)))
      | _ \<Rightarrow> None)"

text \<open>\<open>cancelTag\<close>: register a processor for the answer, then write the command.\<close>

definition cancel_tag :: "astate \<Rightarrow> astate" where
  "cancel_tag s =
     (let t = tag_of CHR ''c'' (anext s + 1); s' = s\<lparr>anext := anext s + 1\<rparr> in
      if atags s = None then s'
      else register t (new_proc KRun None) (s'\<lparr>acancels := acancels s @ [t]\<rparr>))"

definition cancel_write :: "string \<Rightarrow> astate \<Rightarrow> astate option" where
  "cancel_write t s =
     (if t \<in> set (acancels s) \<and> awriter s = None
      then Some (s\<lparr>acancels := remove1 t (acancels s)\<rparr>) else None)"

text \<open>A reader takes a sentence out of its channel's buffer.\<close>

definition receive :: "string \<Rightarrow> astate \<Rightarrow> astate option" where
  "receive t s =
     (case aprocs s t of
        None \<Rightarrow> None
      | Some p \<Rightarrow>
          (case pqueue p of
             [] \<Rightarrow> None
           | sen # q \<Rightarrow> Some (set_proc t (p\<lparr>pqueue := q, preceived := preceived p @ [sen]\<rparr>) s)))"

text \<open>
  What \<open>RunArgsContext\<close> returns once its channel is closed: the reply and the error of its processor, or,
  when its context was done first and the request has been cancelled, the error alone.
\<close>

definition run_result :: "ctx_error \<Rightarrow> aproc \<Rightarrow> reply option \<times> goerr option" where
  "run_result ctx_err p =
     (case ctx_err of
        None \<Rightarrow> (Some (preply p), perr p)
      | Some e \<Rightarrow> (None, Some (case perr p of None \<Rightarrow> e | Some pe \<Rightarrow> pe)))"

subsection \<open>Steps of the loop\<close>

definition loop_read :: "goerr + sentence \<Rightarrow> astate \<Rightarrow> astate option" where
  "loop_read r s =
     (if apc s = LRead
      then Some (s\<lparr>apc := (case r of Inl e \<Rightarrow> LFail e | Inr sen \<Rightarrow> LGot sen)\<rparr>) else None)"

definition registered :: "astate \<Rightarrow> string \<Rightarrow> bool" where
  "registered s t \<longleftrightarrow> (case atags s of None \<Rightarrow> False | Some ts \<Rightarrow> t \<in> set ts)"

definition loop_lookup :: "astate \<Rightarrow> astate option" where
  "loop_lookup s =
     (case apc s of
        LGot sen \<Rightarrow> Some (s\<lparr>apc := (if registered s (sen_tag sen) then LProc sen else LRead)\<rparr>)
      | _ \<Rightarrow> None)"

text \<open>
  Processing.  A \<open>!re\<close> sentence for a listener is sent on its channel: it enters the buffer while there
  is room, or goes straight to a waiting reader (\<open>handoff\<close>); otherwise the step is not enabled and the
  loop waits.  A send on a closed channel panics.
\<close>

definition after_process :: "string \<Rightarrow> bool \<times> goerr option \<Rightarrow> loop_pc" where
  "after_process t v = (if fst v \<or> snd v \<noteq> None then LDel t (snd v) else LRead)"

definition deliver :: "bool \<Rightarrow> nat \<Rightarrow> sentence \<Rightarrow> aproc \<Rightarrow> aproc option" where
  "deliver handoff cap sen p =
     (if handoff
      then (if pqueue p = [] then Some (p\<lparr>preceived := preceived p @ [sen]\<rparr>) else None)
      else (if length (pqueue p) < cap then Some (p\<lparr>pqueue := pqueue p @ [sen]\<rparr>) else None))"

definition loop_process :: "bool \<Rightarrow> astate \<Rightarrow> astate option" where
  "loop_process handoff s =
     (case apc s of
        LProc sen \<Rightarrow>
          (let t = sen_tag sen; s1 = s\<lparr>ahandled := ahandled s @ [sen]\<rparr> in
           case aprocs s t of
             None \<Rightarrow> None
           | Some p \<Rightarrow>
               (case pkind p of
                  KRun \<Rightarrow>
                    (case run_process sen p of
                       (v, p') \<Rightarrow> Some ((set_proc t p' s1)\<lparr>apc := after_process t v\<rparr>))
                | KListen cap \<Rightarrow>
                    if sen_word sen = ''!re''
                    then (if pclosed p then Some (s1\<lparr>apanic := True\<rparr>)
                          else map_option (\<lambda>p'. (set_proc t p' s1)\<lparr>apc := LRead\<rparr>)
                                 (deliver handoff cap sen p))
                    else
                      (case listen_process sen p of
                         None \<Rightarrow> Some (s1\<lparr>apanic := True\<rparr>)
                       | Some (v, p') \<Rightarrow> Some ((set_proc t p' s1)\<lparr>apc := after_process t v\<rparr>))))
      | _ \<Rightarrow> None)"

definition loop_delete :: "astate \<Rightarrow> astate option" where
  "loop_delete s =
     (case apc s of
        LDel t err \<Rightarrow> Some (s\<lparr>atags := map_option (removeAll t) (atags s), apc := LClose t err\<rparr>)
      | _ \<Rightarrow> None)"

definition loop_close :: "astate \<Rightarrow> astate option" where
  "loop_close s =
     (case apc s of
        LClose t err \<Rightarrow>
          (case aprocs s t of
             None \<Rightarrow> None
           | Some p \<Rightarrow>
               (case close_proc err p of
                  None \<Rightarrow> Some (s\<lparr>apanic := True\<rparr>)
                | Some p' \<Rightarrow> Some ((set_proc t p' s)\<lparr>apc := LRead\<rparr>)))
      | _ \<Rightarrow> None)"

text \<open>\<open>closeTags\<close>: every registered processor is closed, without an error when the client is closing.\<close>

definition close_tags_err :: "goerr \<Rightarrow> astate \<Rightarrow> goerr option" where
  "close_tags_err e s = (if aclosing s then None else Some e)"

definition loop_close_tags :: "astate \<Rightarrow> astate option" where
  "loop_close_tags s =
     (case apc s of
        LFail e \<Rightarrow>
          Some (s\<lparr>aprocs := (\<lambda>t. if registered s t
                      then map_option (\<lambda>p. case close_proc (close_tags_err e s) p of
                             None \<Rightarrow> p | Some p' \<Rightarrow> p') (aprocs s t)
                      else aprocs s t),
                  apanic := (apanic s \<or> list_ex (\<lambda>t. case aprocs s t of None \<Rightarrow> False | Some p \<Rightarrow> pclosed p)
                                         (case atags s of None \<Rightarrow> [] | Some ts \<Rightarrow> ts)),
                  atags := None, apc := LEnded e\<rparr>)
      | _ \<Rightarrow> None)"

subsection \<open>Runs of the client\<close>

datatype aevent =
    EvAsync | EvClose
  | EvRunBegin | EvRunCommit "goerr option"
  | EvListenBegin nat bool | EvListenCommit "goerr option"
  | EvCancelTag | EvCancelWrite string
  | EvReceive string
  | EvRead "goerr + sentence" | EvLookup | EvProcess bool | EvDelete | EvCloseReply | EvCloseTags

fun astep :: "aevent \<Rightarrow> astate \<Rightarrow> astate option" where
  "astep EvAsync s = Some (start_async s)"
| "astep EvClose s = Some (s\<lparr>aclosing := True\<rparr>)"
| "astep EvRunBegin s = run_begin s"
| "astep (EvRunCommit e) s = run_commit e s"
| "astep (EvListenBegin n c) s = listen_begin n c s"
| "astep (EvListenCommit e) s = listen_commit e s"
| "astep EvCancelTag s = Some (cancel_tag s)"
| "astep (EvCancelWrite t) s = cancel_write t s"
| "astep (EvReceive t) s = receive t s"
| "astep (EvRead r) s = loop_read r s"
| "astep EvLookup s = loop_lookup s"
| "astep (EvProcess h) s = loop_process h s"
| "astep EvDelete s = loop_delete s"
| "astep EvCloseReply s = loop_close s"
| "astep EvCloseTags s = loop_close_tags s"

inductive atrans :: "astate \<Rightarrow> aevent \<Rightarrow> astate \<Rightarrow> bool" where
  step: "astep e s = Some s' \<Longrightarrow> atrans s e s'"

inductive_cases atransE: "atrans s e s'"
inductive_simps atrans_iff: "atrans s e s'"

inductive areach :: "astate \<Rightarrow> bool" where
  reach_init: "areach async_init"
| reach_next: "areach s \<Longrightarrow> \<not> apanic s \<Longrightarrow> atrans s e s' \<Longrightarrow> areach s'"

fun arun :: "aevent list \<Rightarrow> astate \<Rightarrow> astate option" where
  "arun [] s = Some s"
| "arun (e # es) s = (if apanic s then None else case astep e s of None \<Rightarrow> None | Some s' \<Rightarrow> arun es s')"

lemma areach_arun: "areach s \<Longrightarrow> arun es s = Some s' \<Longrightarrow> areach s'"
proof (induction es arbitrary: s)
  case (Cons e es)
  then obtain s1 where s1: "\<not> apanic s" "astep e s = Some s1" "arun es s1 = Some s'"
    by (auto split: if_splits option.splits)
  with Cons.prems(1) have "areach s1" by (auto intro: areach.reach_next atrans.step)
  with s1(3) show ?case by (rule Cons.IH [rotated])
qed simp

subsection \<open>Invariants\<close>

text \<open>
  Tags come from the counter, so a tag in use is never given out again; the pieces below say where
  each processor is in its life: registered and open, on its way to be closed by the loop, or closed.
\<close>

definition old_tag :: "nat \<Rightarrow> string \<Rightarrow> bool" where
  "old_tag n t \<longleftrightarrow> (\<exists>c k. t = tag_of c k \<and> k \<le> n)"

fun holder_tag :: "holder option \<Rightarrow> string option" where
  "holder_tag (Some (HRun t)) = Some t"
| "holder_tag (Some (HListen t n st)) = Some t"
| "holder_tag _ = None"

fun holder_stop :: "holder option \<Rightarrow> bool option" where
  "holder_stop (Some (HListen t n st)) = st"
| "holder_stop _ = None"

definition rows_for_tag :: "string \<Rightarrow> sentence list \<Rightarrow> sentence list" where
  "rows_for_tag t sens = filter (\<lambda>sen. sen_tag sen = t \<and> sen_word sen = ''!re'') sens"

definition delivered :: "aproc \<Rightarrow> sentence list" where
  "delivered p = (case pkind p of KRun \<Rightarrow> re_sens (preply p) | KListen cap \<Rightarrow> preceived p @ pqueue p)"

definition finished :: "aproc \<Rightarrow> bool" where
  "finished p \<longleftrightarrow> perr p \<noteq> None \<or> done_sen (preply p) \<noteq> None"

definition inv_tags :: "astate \<Rightarrow> bool" where
  "inv_tags s \<longleftrightarrow>
     (\<forall>t. aprocs s t \<noteq> None \<longrightarrow> old_tag (anext s) t)
     \<and> (\<forall>t. holder_tag (awriter s) = Some t \<longrightarrow> old_tag (anext s) t \<and> aprocs s t = None)
     \<and> holder_stop (awriter s) \<noteq> Some True
     \<and> (\<forall>sen \<in> set (ahandled s). aprocs s (sen_tag sen) \<noteq> None)"

definition inv_loop :: "astate \<Rightarrow> bool" where
  "inv_loop s \<longleftrightarrow>
     (aasync s \<longleftrightarrow> apc s \<noteq> LNone) \<and> (atags s = None \<longleftrightarrow> apc s = LNone \<or> (\<exists>e. apc s = LEnded e))"

definition inv_open :: "astate \<Rightarrow> bool" where
  "inv_open s \<longleftrightarrow>
     (\<forall>t. registered s t \<longrightarrow> (\<exists>p. aprocs s t = Some p \<and> \<not> pclosed p
        \<and> (pstop p = Some True \<longrightarrow> (\<exists>e. apc s = LDel t e))))"

definition inv_pc :: "astate \<Rightarrow> bool" where
  "inv_pc s \<longleftrightarrow>
     (case apc s of
        LProc sen \<Rightarrow> registered s (sen_tag sen)
      | LDel t e \<Rightarrow> registered s t \<and> (e \<noteq> None \<or> (\<exists>p. aprocs s t = Some p \<and> finished p))
      | LClose t e \<Rightarrow> \<not> registered s t
          \<and> (\<exists>p. aprocs s t = Some p \<and> \<not> pclosed p \<and> (e \<noteq> None \<or> finished p))
      | _ \<Rightarrow> True)"

definition inv_closed :: "astate \<Rightarrow> bool" where
  "inv_closed s \<longleftrightarrow>
     (\<forall>t p. aprocs s t = Some p \<longrightarrow>
        (pclosed p \<longleftrightarrow> \<not> registered s t \<and> (\<forall>e. apc s \<noteq> LClose t e))
        \<and> (pclosed p \<longrightarrow> finished p \<or> aclosing s)
        \<and> rows_for_tag t (ahandled s) = delivered p)"

definition ainv :: "astate \<Rightarrow> bool" where
  "ainv s \<longleftrightarrow> \<not> apanic s \<and> inv_tags s \<and> inv_loop s \<and> inv_open s \<and> inv_pc s \<and> inv_closed s"

lemmas ainv_defs = ainv_def inv_tags_def inv_loop_def inv_open_def inv_pc_def inv_closed_def

lemma old_tag_mono: "old_tag n t \<Longrightarrow> old_tag (Suc n) t"
  by (auto simp: old_tag_def intro: le_SucI)

lemma old_tag_new: "old_tag (Suc n) (tag_of c (Suc n))"
  by (auto simp: old_tag_def)

lemma fresh_tag: "\<not> old_tag n (tag_of c (Suc n))"
  by (auto simp: old_tag_def tag_of_def)

lemma rows_none: "\<forall>sen \<in> set sens. sen_tag sen \<noteq> t \<Longrightarrow> rows_for_tag t sens = []"
  by (auto simp: rows_for_tag_def filter_empty_conv)

lemma ainv_init: "ainv async_init"
  by (simp add: ainv_defs async_init_def registered_def)

lemma ainv_start: "ainv s \<Longrightarrow> ainv (start_async s)"
  by (auto simp: ainv_defs start_async_def registered_def split: option.splits)

lemma ainv_closing: "ainv s \<Longrightarrow> ainv (s\<lparr>aclosing := True\<rparr>)"
  by (auto simp: ainv_defs registered_def split: loop_pc.splits)

text \<open>The counter, the writer and the pending cancels only matter to the tags.\<close>

lemma registered_frame [simp]:
  "registered (s\<lparr>anext := n\<rparr>) = registered s" "registered (s\<lparr>awriter := h\<rparr>) = registered s"
  "registered (s\<lparr>acancels := cs\<rparr>) = registered s" "registered (s\<lparr>ahandled := l\<rparr>) = registered s"
  "registered (s\<lparr>apc := pc\<rparr>) = registered s" "registered (s\<lparr>aprocs := ps\<rparr>) = registered s"
  "registered (s\<lparr>apanic := b\<rparr>) = registered s" "registered (s\<lparr>aclosing := b\<rparr>) = registered s"
  "registered (set_proc t p s) = registered s"
  by (simp_all add: registered_def set_proc_def fun_eq_iff)

lemma inv_frame [simp]:
  "inv_loop (s\<lparr>anext := n\<rparr>) = inv_loop s" "inv_loop (s\<lparr>awriter := h\<rparr>) = inv_loop s"
  "inv_loop (s\<lparr>acancels := cs\<rparr>) = inv_loop s"
  "inv_open (s\<lparr>anext := n\<rparr>) = inv_open s" "inv_open (s\<lparr>awriter := h\<rparr>) = inv_open s"
  "inv_open (s\<lparr>acancels := cs\<rparr>) = inv_open s"
  "inv_pc (s\<lparr>anext := n\<rparr>) = inv_pc s" "inv_pc (s\<lparr>awriter := h\<rparr>) = inv_pc s"
  "inv_pc (s\<lparr>acancels := cs\<rparr>) = inv_pc s"
  "inv_closed (s\<lparr>anext := n\<rparr>) = inv_closed s" "inv_closed (s\<lparr>awriter := h\<rparr>) = inv_closed s"
  "inv_closed (s\<lparr>acancels := cs\<rparr>) = inv_closed s"
  by (simp_all add: inv_loop_def inv_open_def inv_pc_def inv_closed_def split: loop_pc.split)

lemma inv_tags_acquire:
  assumes "inv_tags s" "holder_tag h = Some (tag_of c (anext s + 1))" "holder_stop h \<noteq> Some True"
  shows "inv_tags (s\<lparr>anext := anext s + 1, awriter := h\<rparr>)"
proof -
  have "aprocs s (tag_of c (Suc (anext s))) = None"
    using assms(1) fresh_tag by (auto simp: inv_tags_def)
  with assms show ?thesis
    by (auto simp: inv_tags_def old_tag_new intro: old_tag_mono)
qed

lemma inv_tags_count: "inv_tags s \<Longrightarrow> inv_tags (s\<lparr>anext := Suc (anext s)\<rparr>)"
  by (auto simp: inv_tags_def intro: old_tag_mono)

lemma inv_tags_release: "inv_tags s \<Longrightarrow> holder_tag h = None \<Longrightarrow> holder_stop h = None \<Longrightarrow> inv_tags (s\<lparr>awriter := h\<rparr>)"
  by (auto simp: inv_tags_def)

lemma ainv_run_begin: "ainv s \<Longrightarrow> run_begin s = Some s' \<Longrightarrow> ainv s'"
  using inv_tags_acquire [of s "Some (HRun (tag_of CHR ''r'' (anext s + 1)))" "CHR ''r''"]
  by (auto simp: ainv_def run_begin_def split: if_splits)

lemma ainv_listen_begin: "ainv s \<Longrightarrow> listen_begin n c s = Some s' \<Longrightarrow> ainv s'"
  using inv_tags_acquire [of s "Some (HListen (tag_of CHR ''l'' (anext s + 1)) n (if c then Some False else None))" "CHR ''l''"]
  by (auto simp: ainv_def listen_begin_def split: if_splits)

text \<open>A new processor under an unused tag.\<close>

lemma rows_unused: "inv_tags s \<Longrightarrow> aprocs s t = None \<Longrightarrow> rows_for_tag t (ahandled s) = []"
  by (rule rows_none) (auto simp: inv_tags_def)

lemma registered_register [simp]:
  "registered (register t p s) u \<longleftrightarrow> atags s \<noteq> None \<and> (u = t \<or> registered s u)"
  by (auto simp: registered_def register_def split: option.split)

lemma register_fields [simp]:
  "aprocs (register t p s) = (aprocs s)(t \<mapsto> p)" "apc (register t p s) = apc s"
  "ahandled (register t p s) = ahandled s" "aclosing (register t p s) = aclosing s"
  "anext (register t p s) = anext s" "awriter (register t p s) = awriter s"
  "aasync (register t p s) = aasync s" "apanic (register t p s) = apanic s"
  "atags (register t p s) = map_option ((#) t) (atags s)"
  by (simp_all add: register_def)

lemma delivered_new [simp]: "delivered (new_proc k st) = []"
  by (simp add: delivered_def new_proc_def empty_reply_def split: akind.split)

lemma ainv_register:
  assumes "ainv s" "atags s \<noteq> None" "aprocs s t = None" "old_tag (anext s) t" "st \<noteq> Some True"
    and "holder_tag (awriter s) \<noteq> Some t"
  shows "ainv (register t (new_proc k st) s)"
proof -
  have open_new: "\<not> pclosed (new_proc k st)" "pstop (new_proc k st) \<noteq> Some True"
    using assms(5) by (simp_all add: new_proc_def)
  have unreg: "\<not> registered s t" using assms(1,3) by (auto simp: ainv_def inv_open_def)
  have pc: "apc s \<noteq> LClose t e" "apc s \<noteq> LDel t e" for e
    using assms(1,3) unreg by (auto simp: ainv_def inv_pc_def)
  have "inv_tags (register t (new_proc k st) s)"
    using assms by (auto simp: ainv_def inv_tags_def)
  moreover have "inv_loop (register t (new_proc k st) s)"
    using assms(1) by (simp add: ainv_def inv_loop_def)
  moreover have "inv_open (register t (new_proc k st) s)"
    using assms(1,2) open_new by (auto simp: ainv_def inv_open_def)
  moreover have "inv_pc (register t (new_proc k st) s)"
    using assms(1-3) unreg pc by (auto simp: ainv_def inv_pc_def split: loop_pc.splits)
  moreover have "inv_closed (register t (new_proc k st) s)"
    using assms(1-3) open_new rows_unused [of s t] unreg pc
    by (auto simp: ainv_def inv_closed_def)
  ultimately show ?thesis using assms(1) by (simp add: ainv_def)
qed

lemma ainv_release:
  "ainv s \<Longrightarrow> holder_tag h = None \<Longrightarrow> holder_stop h = None \<Longrightarrow> ainv (s\<lparr>awriter := h\<rparr>)"
  using inv_tags_release by (simp add: ainv_def)

lemma ainv_holder:
  assumes "ainv s" "holder_tag (awriter s) = Some t"
  shows "old_tag (anext s) t" "aprocs s t = None" "holder_stop (awriter s) \<noteq> Some True"
  using assms by (auto simp: ainv_def inv_tags_def)

lemma ainv_run_commit:
  assumes "ainv s" "run_commit e s = Some s'"
  shows "ainv s'"
proof -
  obtain t where t: "awriter s = Some (HRun t)"
    using assms(2) by (auto simp: run_commit_def split: option.splits holder.splits)
  with ainv_holder [OF assms(1)] have h: "old_tag (anext s) t" "aprocs s t = None" by simp_all
  show ?thesis
    using assms t h ainv_register [of "s\<lparr>awriter := None\<rparr>" t None KRun]
    by (auto simp: run_commit_def ainv_release split: if_splits)
qed

lemma ainv_listen_commit:
  assumes "ainv s" "listen_commit e s = Some s'"
  shows "ainv s'"
proof -
  obtain t n st where t: "awriter s = Some (HListen t n st)"
    using assms(2) by (auto simp: listen_commit_def split: option.splits holder.splits)
  with ainv_holder [OF assms(1)] have h: "old_tag (anext s) t" "aprocs s t = None" "st \<noteq> Some True"
    by simp_all
  show ?thesis
    using assms t h ainv_register [of "s\<lparr>awriter := None\<rparr>" t st "KListen n"]
    by (auto simp: listen_commit_def ainv_release split: if_splits)
qed

lemma ainv_cancel_tag:
  assumes "ainv s"
  shows "ainv (cancel_tag s)"
proof -
  let ?t = "tag_of CHR ''c'' (Suc (anext s))"
  have count: "ainv (s\<lparr>anext := Suc (anext s)\<rparr>)"
    using assms inv_tags_count by (simp add: ainv_def)
  then have c: "ainv (s\<lparr>anext := Suc (anext s), acancels := cs\<rparr>)" for cs
    by (simp add: ainv_def) (simp add: inv_tags_def)
  have unused: "aprocs s ?t = None" and "holder_tag (awriter s) \<noteq> Some ?t"
    using assms fresh_tag by (auto simp: ainv_def inv_tags_def)
  then show ?thesis
    using count ainv_register [OF c, of "acancels s @ [?t]" ?t None KRun]
    by (auto simp: cancel_tag_def Let_def old_tag_new)
qed

lemma ainv_cancel_write: "ainv s \<Longrightarrow> cancel_write t s = Some s' \<Longrightarrow> ainv s'"
  by (auto simp: cancel_write_def ainv_def inv_tags_def split: if_splits)

text \<open>Replacing a processor by one with the same state of life.\<close>

definition same_life :: "aproc \<Rightarrow> aproc \<Rightarrow> bool" where
  "same_life p p' \<longleftrightarrow> pclosed p' = pclosed p \<and> pstop p' = pstop p \<and> (finished p \<longrightarrow> finished p')"

lemma set_proc_fields [simp]:
  "aprocs (set_proc t p s) = (aprocs s)(t \<mapsto> p)" "apc (set_proc t p s) = apc s"
  "ahandled (set_proc t p s) = ahandled s" "aclosing (set_proc t p s) = aclosing s"
  "anext (set_proc t p s) = anext s" "awriter (set_proc t p s) = awriter s"
  "aasync (set_proc t p s) = aasync s" "apanic (set_proc t p s) = apanic s"
  "atags (set_proc t p s) = atags s"
  by (simp_all add: set_proc_def)

lemma inv_tags_set_proc: "inv_tags s \<Longrightarrow> aprocs s t \<noteq> None \<Longrightarrow> inv_tags (set_proc t p s)"
  by (auto simp: inv_tags_def)

lemma inv_loop_set_proc [simp]: "inv_loop (set_proc t p s) = inv_loop s"
  by (simp add: inv_loop_def)

lemma inv_open_set_proc:
  assumes "inv_open s" "aprocs s t = Some p" "same_life p p'"
  shows "inv_open (set_proc t p' s)"
  using assms by (auto simp: inv_open_def same_life_def)

lemma inv_pc_set_proc:
  assumes "inv_pc s" "aprocs s t = Some p" "same_life p p'"
  shows "inv_pc (set_proc t p' s)"
  using assms by (auto simp: inv_pc_def same_life_def split: loop_pc.splits)

lemma ainv_receive:
  assumes "ainv s" "receive t s = Some s'"
  shows "ainv s'"
proof -
  obtain p sen q where p: "aprocs s t = Some p" "pqueue p = sen # q"
    "s' = set_proc t (p\<lparr>pqueue := q, preceived := preceived p @ [sen]\<rparr>) s" (is "_ = set_proc t ?p s")
    using assms(2) by (auto simp: receive_def split: option.splits list.splits)
  have life: "same_life p ?p" by (simp add: same_life_def finished_def)
  have d: "delivered ?p = delivered p" using p(2) by (simp add: delivered_def split: akind.split)
  have "inv_closed s'"
    using assms(1) p d by (auto simp: ainv_def inv_closed_def finished_def)
  with assms(1) p(1,3) life show ?thesis
    by (simp add: ainv_def inv_tags_set_proc inv_open_set_proc inv_pc_set_proc)
qed

text \<open>The loop between two sentences: reading, or with a sentence it has not given to anyone yet.\<close>

definition between :: "loop_pc \<Rightarrow> bool" where
  "between pc \<longleftrightarrow> pc = LRead \<or> (\<exists>sen. pc = LGot sen) \<or> (\<exists>sen. pc = LProc sen) \<or> (\<exists>e. pc = LFail e)"

lemma ainv_set_pc:
  assumes "ainv s" "between (apc s)" "between pc'" "\<forall>sen. pc' = LProc sen \<longrightarrow> registered s (sen_tag sen)"
  shows "ainv (s\<lparr>apc := pc'\<rparr>)"
proof -
  have ne: "apc s \<noteq> LDel t e" "pc' \<noteq> LDel t e" "apc s \<noteq> LClose t e" "pc' \<noteq> LClose t e" for t e
    using assms(2,3) by (auto simp: between_def)
  have "inv_tags (s\<lparr>apc := pc'\<rparr>)" using assms(1) by (simp add: ainv_def inv_tags_def)
  moreover have "inv_loop (s\<lparr>apc := pc'\<rparr>)"
    using assms(1-3) by (auto simp: ainv_def inv_loop_def between_def)
  moreover have "inv_open (s\<lparr>apc := pc'\<rparr>)" using assms(1) ne by (simp add: ainv_def inv_open_def)
  moreover have "inv_pc (s\<lparr>apc := pc'\<rparr>)" using assms(3,4) by (auto simp: inv_pc_def between_def)
  moreover have "inv_closed (s\<lparr>apc := pc'\<rparr>)" using assms(1) ne by (simp add: ainv_def inv_closed_def)
  ultimately show ?thesis using assms(1) by (simp add: ainv_def)
qed

lemma ainv_read: "ainv s \<Longrightarrow> loop_read r s = Some s' \<Longrightarrow> ainv s'"
  by (auto simp: loop_read_def between_def intro!: ainv_set_pc split: if_splits sum.splits)

lemma ainv_lookup: "ainv s \<Longrightarrow> loop_lookup s = Some s' \<Longrightarrow> ainv s'"
  by (cases "apc s") (auto simp: loop_lookup_def between_def intro!: ainv_set_pc split: if_splits)

lemma rows_snoc:
  "rows_for_tag t (sens @ [sen]) =
     rows_for_tag t sens @ (if sen_tag sen = t then rows_for_tag t [sen] else [])"
  by (simp add: rows_for_tag_def)

lemma ainv_processed:
  assumes inv: "ainv s" and pc: "apc s = LProc sen" and p: "aprocs s (sen_tag sen) = Some p"
    and p': "pclosed p' = pclosed p" "delivered p' = delivered p @ rows_for_tag (sen_tag sen) [sen]"
    and nxt: "pc' = LRead \<and> pstop p' \<noteq> Some True
        \<or> (\<exists>e. pc' = LDel (sen_tag sen) e \<and> (e \<noteq> None \<or> finished p'))"
  shows "ainv ((set_proc (sen_tag sen) p' (s\<lparr>ahandled := ahandled s @ [sen]\<rparr>))\<lparr>apc := pc'\<rparr>)" (is "ainv ?s")
proof -
  let ?t = "sen_tag sen"
  have reg: "registered s ?t" using inv pc by (simp add: ainv_def inv_pc_def)
  then have "\<not> pclosed p" using inv p by (auto simp: ainv_def inv_open_def)
  with p' have opn: "\<not> pclosed p'" by simp
  have "inv_tags ?s" using inv p by (auto simp: ainv_def inv_tags_def)
  moreover have "inv_loop ?s" using inv pc nxt by (auto simp: ainv_def inv_loop_def)
  moreover have "inv_open ?s"
    using inv pc nxt opn by (auto simp: ainv_def inv_open_def)
  moreover have "inv_pc ?s" using nxt reg by (auto simp: inv_pc_def)
  moreover have "inv_closed ?s"
    using inv pc nxt opn p p' reg by (auto simp: ainv_def inv_closed_def rows_snoc)
  ultimately show ?thesis using inv by (simp add: ainv_def)
qed

lemma run_process_spec:
  assumes "run_process sen p = (v, p')" "pkind p = KRun"
  shows "pclosed p' = pclosed p" "pstop p' = pstop p"
    "delivered p' = delivered p @ rows_for_tag (sen_tag sen) [sen]"
    "fst v \<or> snd v \<noteq> None \<Longrightarrow> snd v \<noteq> None \<or> finished p'"
  using assms
  by (auto simp: run_process_def process_reply_def delivered_def rows_for_tag_def finished_def
      split: if_splits)

lemma listen_process_spec:
  assumes "listen_process sen p = Some (v, p')" "pkind p = KListen cap" "sen_word sen \<noteq> ''!re''"
  shows "pclosed p' = pclosed p" "delivered p' = delivered p @ rows_for_tag (sen_tag sen) [sen]"
    "fst v \<or> snd v \<noteq> None \<Longrightarrow> snd v \<noteq> None \<or> finished p'"
    "\<not> (fst v \<or> snd v \<noteq> None) \<Longrightarrow> pstop p' = pstop p"
  using assms
  by (auto simp: listen_process_def listen_verdict_def close_stop_def delivered_def rows_for_tag_def
      finished_def Let_def split: if_splits option.splits)

lemma listen_process_none:
  "listen_process sen p = None \<Longrightarrow> pstop p = Some True"
  by (auto simp: listen_process_def close_stop_def Let_def split: prod.splits if_splits option.splits)

lemma deliver_spec:
  assumes "deliver h cap sen p = Some p'" "pkind p = KListen cap'" "sen_word sen = ''!re''"
  shows "pclosed p' = pclosed p" "pstop p' = pstop p"
    "delivered p' = delivered p @ rows_for_tag (sen_tag sen) [sen]"
  using assms by (auto simp: deliver_def delivered_def rows_for_tag_def split: if_splits)

lemma ainv_at_proc:
  assumes "ainv s" "apc s = LProc sen" "aprocs s (sen_tag sen) = Some p"
  shows "\<not> pclosed p" "pstop p \<noteq> Some True"
  using assms by (auto simp: ainv_def inv_pc_def inv_open_def)

lemma ainv_process:
  assumes "ainv s" "loop_process h s = Some s'"
  shows "ainv s'"
proof -
  obtain sen p where pc: "apc s = LProc sen" and p: "aprocs s (sen_tag sen) = Some p"
    using assms(2) by (auto simp: loop_process_def Let_def split: loop_pc.splits option.splits)
  note open_p = ainv_at_proc [OF assms(1) pc p]
  note step_done = ainv_processed [OF assms(1) pc p]
  show ?thesis
  proof (cases "pkind p")
    case KRun
    obtain v p' where r: "run_process sen p = (v, p')" by (metis surj_pair)
    with assms(2) pc p KRun
    have "s' = (set_proc (sen_tag sen) p' (s\<lparr>ahandled := ahandled s @ [sen]\<rparr>))\<lparr>apc := after_process (sen_tag sen) v\<rparr>"
      by (simp add: loop_process_def Let_def)
    with step_done [of p' "after_process (sen_tag sen) v"] run_process_spec [OF r KRun] open_p
    show ?thesis by (auto simp: after_process_def)
  next
    case (KListen cap)
    show ?thesis
    proof (cases "sen_word sen = ''!re''")
      case True
      then obtain p' where d: "deliver h cap sen p = Some p'"
        "s' = (set_proc (sen_tag sen) p' (s\<lparr>ahandled := ahandled s @ [sen]\<rparr>))\<lparr>apc := LRead\<rparr>"
        using assms(2) pc p KListen open_p by (auto simp: loop_process_def Let_def)
      with step_done [of p' LRead] deliver_spec [OF d(1) KListen True] open_p show ?thesis by auto
    next
      case False
      obtain v p' where l: "listen_process sen p = Some (v, p')"
        using listen_process_none [of sen p] open_p by (cases "listen_process sen p") auto
      with assms(2) pc p KListen False
      have "s' = (set_proc (sen_tag sen) p' (s\<lparr>ahandled := ahandled s @ [sen]\<rparr>))\<lparr>apc := after_process (sen_tag sen) v\<rparr>"
        by (simp add: loop_process_def Let_def)
      with step_done [of p' "after_process (sen_tag sen) v"] listen_process_spec [OF l KListen False] open_p
      show ?thesis by (auto simp: after_process_def)
    qed
  qed
qed

lemma ainv_delete:
  assumes "ainv s" "loop_delete s = Some s'"
  shows "ainv s'"
proof -
  obtain t e where pc: "apc s = LDel t e" and s': "s' = s\<lparr>atags := map_option (removeAll t) (atags s), apc := LClose t e\<rparr>"
    using assms(2) by (auto simp: loop_delete_def split: loop_pc.splits)
  have reg: "registered s' u \<longleftrightarrow> registered s u \<and> u \<noteq> t" for u
    by (auto simp: s' registered_def split: option.split)
  have s1: "aprocs s' = aprocs s" "apc s' = LClose t e" "ahandled s' = ahandled s" "aclosing s' = aclosing s"
    "anext s' = anext s" "awriter s' = awriter s" "aasync s' = aasync s" "apanic s' = apanic s"
    "atags s' = None \<longleftrightarrow> atags s = None"
    by (simp_all add: s')
  have "registered s t" and fin: "e \<noteq> None \<or> (\<exists>p. aprocs s t = Some p \<and> finished p)"
    using assms(1) pc by (simp_all add: ainv_def inv_pc_def)
  then obtain p where p: "aprocs s t = Some p" "\<not> pclosed p"
    using assms(1) by (auto simp: ainv_def inv_open_def)
  have "inv_tags s'" using assms(1) by (simp add: ainv_def inv_tags_def s1)
  moreover have "inv_loop s'" using assms(1) pc by (auto simp: ainv_def inv_loop_def s1)
  moreover have "inv_open s'" using assms(1) pc by (fastforce simp: ainv_def inv_open_def s1 reg)
  moreover have "inv_pc s'" using p fin by (auto simp: inv_pc_def s1 reg)
  moreover have "inv_closed s'"
    using assms(1) pc p by (fastforce simp: ainv_def inv_closed_def s1 reg)
  ultimately show ?thesis using assms(1) by (simp add: ainv_def s1)
qed

lemma close_proc_spec:
  assumes "close_proc e p = Some p'"
  shows "pclosed p'" "\<not> pclosed p" "delivered p' = delivered p" "e \<noteq> None \<or> finished p \<Longrightarrow> finished p'"
  using assms by (auto simp: close_proc_def delivered_def finished_def split: if_splits akind.split)

lemma ainv_close:
  assumes "ainv s" "loop_close s = Some s'"
  shows "ainv s'"
proof -
  obtain t e where pc: "apc s = LClose t e" using assms(2) by (auto simp: loop_close_def split: loop_pc.splits)
  with assms(1) obtain p where p: "aprocs s t = Some p" "\<not> pclosed p" "e \<noteq> None \<or> finished p" "\<not> registered s t"
    by (auto simp: ainv_def inv_pc_def)
  then obtain p' where p': "close_proc e p = Some p'" by (simp add: close_proc_def)
  have s': "s' = (set_proc t p' s)\<lparr>apc := LRead\<rparr>"
    using assms(2) pc p p' by (simp add: loop_close_def)
  note sp = close_proc_spec [OF p']
  have "inv_tags s'" using assms(1) p by (auto simp: ainv_def inv_tags_def s')
  moreover have "inv_loop s'" using assms(1) pc by (simp add: ainv_def inv_loop_def s')
  moreover have "inv_open s'" using assms(1) pc p by (auto simp: ainv_def inv_open_def s')
  moreover have "inv_pc s'" by (simp add: inv_pc_def s')
  moreover have "inv_closed s'"
    using assms(1) pc p sp by (auto simp: ainv_def inv_closed_def s')
  ultimately show ?thesis using assms(1) by (simp add: ainv_def s')
qed

text \<open>When the loop ends, every processor that was still registered is closed.\<close>

lemma ainv_close_tags:
  assumes "ainv s" "loop_close_tags s = Some s'"
  shows "ainv s'"
proof -
  obtain e where pc: "apc s = LFail e" using assms(2) by (auto simp: loop_close_tags_def split: loop_pc.splits)
  have fields: "apc s' = LEnded e" "atags s' = None" "anext s' = anext s" "awriter s' = awriter s"
    "ahandled s' = ahandled s" "aclosing s' = aclosing s" "aasync s' = aasync s"
    using assms(2) pc by (auto simp: loop_close_tags_def)
  have unreg: "\<not> registered s' t" for t by (simp add: registered_def fields)
  have opn: "registered s t \<Longrightarrow> \<exists>p p'. aprocs s t = Some p \<and> close_proc (close_tags_err e s) p = Some p'
      \<and> aprocs s' t = Some p'" for t
    using assms pc by (fastforce simp: ainv_def inv_open_def loop_close_tags_def close_proc_def)
  have rest: "\<not> registered s t \<Longrightarrow> aprocs s' t = aprocs s t" for t
    using assms(2) pc by (auto simp: loop_close_tags_def)
  have dom: "aprocs s' t = None \<longleftrightarrow> aprocs s t = None" for t
    using opn [of t] rest [of t] by (cases "registered s t") auto
  have "\<forall>t \<in> set (case atags s of None \<Rightarrow> [] | Some ts \<Rightarrow> ts). registered s t"
    by (auto simp: registered_def split: option.split)
  with assms pc have panic: "\<not> apanic s'"
    by (fastforce simp: ainv_def inv_open_def loop_close_tags_def list_ex_iff)
  have "inv_tags s'" using assms(1) by (auto simp: ainv_def inv_tags_def fields dom)
  moreover have "inv_loop s'" using assms(1) pc by (simp add: ainv_def inv_loop_def fields)
  moreover have "inv_open s'" by (simp add: inv_open_def unreg)
  moreover have "inv_pc s'" by (simp add: inv_pc_def fields)
  moreover have "inv_closed s'"
    unfolding inv_closed_def
  proof (intro allI impI)
    fix t p'
    assume p': "aprocs s' t = Some p'"
    show "(pclosed p' \<longleftrightarrow> \<not> registered s' t \<and> (\<forall>e. apc s' \<noteq> LClose t e)) \<and>
        (pclosed p' \<longrightarrow> finished p' \<or> aclosing s') \<and> rows_for_tag t (ahandled s') = delivered p'"
    proof (cases "registered s t")
      case True
      then obtain p where p: "aprocs s t = Some p" "close_proc (close_tags_err e s) p = Some p'"
        using opn p' by fastforce
      with assms(1) have "rows_for_tag t (ahandled s) = delivered p" by (simp add: ainv_def inv_closed_def)
      with close_proc_spec [OF p(2)] show ?thesis
        by (auto simp: fields unreg close_tags_err_def split: if_splits)
    next
      case False
      with rest p' have "aprocs s t = Some p'" by simp
      with assms(1) pc False show ?thesis by (auto simp: ainv_def inv_closed_def fields unreg)
    qed
  qed
  ultimately show ?thesis using panic by (simp add: ainv_def)
qed

lemma ainv_step:
  assumes "ainv s" "astep e s = Some s'"
  shows "ainv s'"
  using assms(2)
  by (cases e)
    (auto simp: ainv_start [OF assms(1)] ainv_closing [OF assms(1)] ainv_cancel_tag [OF assms(1)]
      intro: ainv_run_begin [OF assms(1)] ainv_run_commit [OF assms(1)]
      ainv_listen_begin [OF assms(1)] ainv_listen_commit [OF assms(1)] ainv_cancel_write [OF assms(1)]
      ainv_receive [OF assms(1)] ainv_read [OF assms(1)] ainv_lookup [OF assms(1)]
      ainv_process [OF assms(1)] ainv_delete [OF assms(1)] ainv_close [OF assms(1)]
      ainv_close_tags [OF assms(1)])

lemma areach_ainv: "areach s \<Longrightarrow> ainv s"
proof (induction rule: areach.induct)
  case reach_init
  show ?case by (rule ainv_init)
next
  case (reach_next s e s')
  then show ?case by (auto elim: atransE intro: ainv_step)
qed

subsection \<open>The leaked writer\<close>

text \<open>
  A call that finds the loop ended returns without \<open>EndSentence\<close>.  From then on the writer's mutex is
  never free again, so no call can begin a sentence.
\<close>

lemma keeps_writer:
  "awriter (start_async s) = awriter s" "awriter (cancel_tag s) = awriter s"
  "loop_lookup s = Some s' \<Longrightarrow> awriter s' = awriter s"
  "loop_read r s = Some s' \<Longrightarrow> awriter s' = awriter s"
  "loop_delete s = Some s' \<Longrightarrow> awriter s' = awriter s"
  by (auto simp: start_async_def cancel_tag_def loop_lookup_def loop_read_def loop_delete_def Let_def
      split: if_splits loop_pc.splits)

lemma close_keeps_writer: "loop_close s = Some s' \<Longrightarrow> awriter s' = awriter s"
  by (cases "apc s") (auto simp: loop_close_def split: option.splits)

lemma close_tags_keeps_writer: "loop_close_tags s = Some s' \<Longrightarrow> awriter s' = awriter s"
  by (cases "apc s") (auto simp: loop_close_tags_def)

lemma receive_keeps_writer: "receive t s = Some s' \<Longrightarrow> awriter s' = awriter s"
  by (auto simp: receive_def split: option.splits list.splits)

lemma process_keeps_writer: "loop_process h s = Some s' \<Longrightarrow> awriter s' = awriter s"
  by (cases "apc s")
    (auto simp: loop_process_def Let_def split: if_splits option.splits akind.splits prod.splits)

lemma leaked_step: "awriter s = Some Leaked \<Longrightarrow> astep e s = Some s' \<Longrightarrow> awriter s' = Some Leaked"
  using keeps_writer process_keeps_writer close_keeps_writer close_tags_keeps_writer receive_keeps_writer
  by (cases e) (auto simp: run_begin_def run_commit_def listen_begin_def listen_commit_def cancel_write_def)

lemma leaked_run: "awriter s = Some Leaked \<Longrightarrow> arun es s = Some s' \<Longrightarrow> awriter s' = Some Leaked"
  by (induction es arbitrary: s) (auto dest: leaked_step split: if_splits option.splits)

subsection \<open>The loop can go on\<close>

lemma process_enabled:
  assumes "ainv s" "apc s = LProc sen"
  shows "loop_process False s \<noteq> None
       \<or> (\<exists>sen p cap. apc s = LProc sen \<and> aprocs s (sen_tag sen) = Some p \<and> pkind p = KListen cap
            \<and> sen_word sen = ''!re'' \<and> length (pqueue p) \<ge> cap)"
proof -
  obtain p where p: "aprocs s (sen_tag sen) = Some p"
    using assms by (auto simp: ainv_def inv_pc_def inv_open_def)
  show ?thesis
  proof (cases "pkind p")
    case KRun
    with p assms(2) show ?thesis by (simp add: loop_process_def Let_def split: prod.split)
  next
    case (KListen cap)
    show ?thesis
    proof (cases "sen_word sen = ''!re'' \<and> length (pqueue p) \<ge> cap")
      case True
      with p assms(2) KListen show ?thesis by blast
    next
      case False
      have "loop_process False s \<noteq> None"
        using False p assms(2) KListen
        by (simp add: loop_process_def deliver_def Let_def split: option.split prod.split) auto
      then show ?thesis ..
    qed
  qed
qed

lemma close_enabled:
  assumes "ainv s" "apc s = LClose t e"
  shows "loop_close s \<noteq> None"
proof -
  obtain p where "aprocs s t = Some p" using assms by (auto simp: ainv_def inv_pc_def)
  with assms(2) show ?thesis by (simp add: loop_close_def split: option.split)
qed

subsection \<open>A sample run\<close>

text \<open>
  A call (tag r1) and a listener with a context (tag l2) share the connection; the call gets a row and
  its end, the listener one row, and then the connection is lost.
\<close>

definition sample_sentence :: "string \<Rightarrow> string \<Rightarrow> sentence" where
  "sample_sentence w t = \<lparr>sen_word = w, sen_tag = t, sen_list = [], sen_map = []\<rparr>"

definition sample_run :: "aevent list" where
  "sample_run =
     [EvAsync, EvRunBegin, EvRunCommit None, EvListenBegin 1 True, EvListenCommit None,
      EvRead (Inr (sample_sentence ''!re'' ''r1'')), EvLookup, EvProcess False,
      EvRead (Inr (sample_sentence ''!re'' ''l2'')), EvLookup, EvProcess False, EvReceive ''l2'',
      EvRead (Inr (sample_sentence ''!done'' ''r1'')), EvLookup, EvProcess False, EvDelete,
      EvCloseReply, EvRead (Inl IoEOF), EvCloseTags]"

definition sample_check :: "aevent list \<Rightarrow> (astate \<Rightarrow> bool) \<Rightarrow> bool" where
  "sample_check es P = (case arun es async_init of None \<Rightarrow> False | Some s \<Rightarrow> P s)"

lemma sample_reach:
  assumes "sample_check es P"
  obtains s where "areach s" "P s"
  using assms areach_arun [OF reach_init, of es]
  by (auto simp: sample_check_def split: option.splits)

lemma sample_run_ends:
  "sample_check sample_run (\<lambda>s. apc s = LEnded IoEOF \<and> awriter s = None \<and> aasync s
     \<and> (case aprocs s ''l2'' of None \<Rightarrow> False | Some p \<Rightarrow> preceived p = [sample_sentence ''!re'' ''l2'']))"
  by code_simp

lemma sample_end:
  obtains s p where "areach s" "apc s = LEnded IoEOF" "awriter s = None" "aasync s"
    "aprocs s ''l2'' = Some p" "preceived p \<noteq> []"
proof -
  obtain s where s: "areach s" "apc s = LEnded IoEOF" "awriter s = None" "aasync s"
    and c: "case aprocs s ''l2'' of None \<Rightarrow> False
      | Some p \<Rightarrow> preceived p = [sample_sentence ''!re'' ''l2'']"
    by (rule sample_reach [OF sample_run_ends]) blast
  show thesis
  proof (cases "aprocs s ''l2''")
    case (Some p)
    with c have "preceived p \<noteq> []" by simp
    with s Some show thesis by (rule that)
  qed (use c in simp)
qed

subsection \<open>Properties\<close>

text \<open>C1: No interleaving of calls, cancellations, listeners and the loop panics: a reply channel is never
closed twice or written after its close, and a listener's stop channel is closed once.\<close>

theorem async_never_panics: "areach s \<Longrightarrow> \<not> apanic s"
  using areach_ainv by (simp add: ainv_def)

lemma async_never_panics_witness: "\<exists>s. apc s = LEnded IoEOF \<and> areach s \<and> \<not> apanic s"
  by (rule sample_end) (blast dest: async_never_panics)

text \<open>C2: Demultiplexing is exact: what a call has collected, or a listener's channel has been given, is
the sequence of data sentences with its tag that the loop has handled -- in order, without loss,
duplication or cross-talk.\<close>

theorem async_demultiplexes:
  "areach s \<Longrightarrow> aprocs s t = Some p \<Longrightarrow> delivered p = rows_for_tag t (ahandled s)"
  using areach_ainv by (simp add: ainv_def inv_closed_def)

lemma async_demultiplexes_witness:
  "\<exists>s p. areach s \<and> aprocs s ''l2'' = Some p \<and> preceived p \<noteq> []
     \<and> delivered p = rows_for_tag ''l2'' (ahandled s)"
proof -
  obtain s p where "areach s" "aprocs s ''l2'' = Some p" "preceived p \<noteq> []"
    by (rule sample_end)
  with async_demultiplexes show ?thesis by blast
qed

text \<open>When the loop has ended every reply channel is closed, so every waiting caller and every reader
is released; each of them has a final sentence or an error, unless the client is being closed.\<close>

lemma async_loop_end_releases:
  assumes "areach s" "apc s = LEnded e"
  shows "atags s = None \<and> (\<forall>t p. aprocs s t = Some p \<longrightarrow> pclosed p \<and> (finished p \<or> aclosing s))"
proof -
  have "ainv s" using assms(1) by (rule areach_ainv)
  with assms(2) have "atags s = None" by (auto simp: ainv_def inv_loop_def)
  moreover from this have "\<not> registered s t" for t by (simp add: registered_def)
  ultimately show ?thesis
    using \<open>ainv s\<close> assms(2) by (auto simp: ainv_def inv_closed_def)
qed

lemma async_loop_end_releases_witness:
  "\<exists>s p. areach s \<and> apc s = LEnded IoEOF \<and> aprocs s ''l2'' = Some p \<and> pclosed p"
proof -
  obtain s p where s: "areach s" "apc s = LEnded IoEOF" "aprocs s ''l2'' = Some p"
    by (rule sample_end)
  with async_loop_end_releases [OF s(1,2)] show ?thesis by blast
qed

text \<open>The loop is never stuck outside the connection: when it is not waiting for a sentence it has a
step to take, or it waits for the reader of a listener whose buffer is full.\<close>

lemma async_loop_progress:
  assumes "areach s" "apc s \<notin> {LNone, LRead}" "\<forall>e. apc s \<noteq> LEnded e"
  shows "(\<exists>ev \<in> {EvLookup, EvProcess False, EvDelete, EvCloseReply, EvCloseTags}. astep ev s \<noteq> None)
       \<or> (\<exists>sen p cap. apc s = LProc sen \<and> aprocs s (sen_tag sen) = Some p \<and> pkind p = KListen cap
            \<and> sen_word sen = ''!re'' \<and> length (pqueue p) \<ge> cap)" (is "?enabled \<or> ?waits")
proof -
  have inv: "ainv s" using assms(1) by (rule areach_ainv)
  have "loop_process False s \<noteq> None \<or> ?waits" if "apc s = LProc sen" for sen
    using inv that by (rule process_enabled)
  moreover have "loop_close s \<noteq> None" if "apc s = LClose t e" for t e
    using inv that by (rule close_enabled)
  ultimately have "?waits \<or> loop_lookup s \<noteq> None \<or> loop_process False s \<noteq> None \<or> loop_delete s \<noteq> None
      \<or> loop_close s \<noteq> None \<or> loop_close_tags s \<noteq> None"
    using assms(2,3)
    by (cases "apc s") (auto simp: loop_lookup_def loop_delete_def loop_close_tags_def)
  then show ?thesis by (simp only: bex_simps astep.simps) blast
qed

lemma async_loop_progress_witness: "\<exists>s ev. areach s \<and> astep ev s \<noteq> None \<and> apc s = LFail IoEOF"
proof -
  have "sample_check (take 18 sample_run) (\<lambda>s. apc s = LFail IoEOF)" by code_simp
  then obtain s where s: "areach s" "apc s = LFail IoEOF" by (rule sample_reach)
  with async_loop_progress [OF s(1)] show ?thesis by fastforce
qed

text \<open>A call that starts after the loop has ended returns its error with the writer's mutex held, and
whatever happens afterwards no call and no listener can begin a sentence again.\<close>

lemma async_call_after_end_leaks_writer:
  assumes "areach s" "apc s = LEnded e" "run_begin s = Some s1"
  shows "\<exists>s2. run_commit wfail s1 = Some s2
       \<and> (\<forall>es s3. arun es s2 = Some s3 \<longrightarrow> run_begin s3 = None \<and> listen_begin n c s3 = None)"
proof -
  have "atags s = None" using areach_ainv [OF assms(1)] assms(2) by (auto simp: ainv_def inv_loop_def)
  with assms(3) obtain t where "awriter s1 = Some (HRun t)" "atags s1 = None"
    by (auto simp: run_begin_def split: if_splits)
  then have "run_commit wfail s1 = Some (s1\<lparr>awriter := Some Leaked\<rparr>)" (is "_ = Some ?s2")
    by (simp add: run_commit_def)
  moreover have "arun es ?s2 = Some s3 \<Longrightarrow> run_begin s3 = None \<and> listen_begin n c s3 = None" for es s3
    using leaked_run [of ?s2 es s3] by (simp add: run_begin_def listen_begin_def)
  ultimately show ?thesis by blast
qed

text \<open>A tag is given out once: while a call holds the writer its tag has no processor and no sentence
has been handled under it, so an answer cannot reach an older call.\<close>

lemma async_tags_fresh:
  assumes "areach s" "holder_tag (awriter s) = Some t"
  shows "aprocs s t = None \<and> \<not> registered s t \<and> rows_for_tag t (ahandled s) = []"
proof -
  have inv: "ainv s" using assms(1) by (rule areach_ainv)
  with assms(2) have n: "aprocs s t = None" by (simp add: ainv_def inv_tags_def)
  with inv have "\<not> registered s t" by (auto simp: ainv_def inv_open_def)
  with n inv rows_unused [of s t] show ?thesis by (simp add: ainv_def)
qed

text \<open>An asynchronous call that returns without an error has collected every data sentence handled under
its tag and has its final \<open>!done\<close> sentence, unless the client is being closed; under a done context
it returns an error and no reply.\<close>

lemma async_run_result_complete:
  assumes "areach s" "aprocs s t = Some p" "pkind p = KRun" "pclosed p"
  shows "(case run_result None p of (r, e) \<Rightarrow>
            r = Some (preply p) \<and> re_sens (preply p) = rows_for_tag t (ahandled s)
            \<and> (e = None \<longrightarrow> done_sen (preply p) \<noteq> None \<or> aclosing s))
       \<and> (\<exists>e. run_result (Some CtxCanceled) p = (None, Some e))"
proof -
  have "ainv s" using assms(1) by (rule areach_ainv)
  with assms(2-4) have "finished p \<or> aclosing s" "rows_for_tag t (ahandled s) = re_sens (preply p)"
    by (auto simp: ainv_def inv_closed_def delivered_def)
  then show ?thesis by (auto simp: run_result_def finished_def)
qed

lemma async_run_result_complete_witness:
  "\<exists>s p. areach s \<and> aprocs s ''r1'' = Some p \<and> re_sens (preply p) = rows_for_tag ''r1'' (ahandled s)"
proof -
  have "sample_check sample_run (\<lambda>s. case aprocs s ''r1'' of None \<Rightarrow> False
      | Some p \<Rightarrow> pkind p = KRun \<and> pclosed p)"
    by code_simp
  then obtain s where s: "areach s" "case aprocs s ''r1'' of None \<Rightarrow> False
      | Some p \<Rightarrow> pkind p = KRun \<and> pclosed p"
    by (rule sample_reach)
  then obtain p where p: "aprocs s ''r1'' = Some p" "pkind p = KRun" "pclosed p"
    by (cases "aprocs s ''r1''") simp_all
  from async_run_result_complete [OF s(1) p] s(1) p(1) show ?thesis by (auto simp: run_result_def)
qed

text \<open>A call cut off by \<open>Close\<close> can return no error and a reply without its \<open>!done\<close> sentence: the
channel is closed and nothing was received.\<close>

lemma async_close_gives_bare_reply:
  "case arun [EvAsync, EvRunBegin, EvRunCommit None, EvClose, EvRead (Inl IoEOF), EvCloseTags] async_init of
     None \<Rightarrow> False
   | Some s \<Rightarrow> (case aprocs s ''r1'' of
       None \<Rightarrow> False
     | Some p \<Rightarrow> pclosed p \<and> perr p = None \<and> preply p = empty_reply)"
  by code_simp

end
