(* ===== verification/Async_Replies.thy ===== *)
theory Async_Replies
  imports Client_Async
begin

text \<open>
  What an asynchronous call returns, as a function of the sentences the device has sent under its tag,
  and how that compares with the synchronous call on the same sentences.
\<close>

subsection \<open>Conversations\<close>

text \<open>
  The conversation of a tag is what the loop has handled under it.  A quiet sentence lets the call wait
  on; any other settles it, with or without an error.
\<close>

definition conversation :: "string \<Rightarrow> astate \<Rightarrow> sentence list" where
  "conversation t s = filter (\<lambda>sen. sen_tag sen = t) (ahandled s)"

definition verdict :: "sentence \<Rightarrow> bool \<times> goerr option" where
  "verdict sen = fst (process_reply sen empty_reply)"

definition quiet :: "sentence \<Rightarrow> bool" where
  "quiet sen \<longleftrightarrow> verdict sen = (False, None)"

definition replay :: "sentence list \<Rightarrow> reply" where
  "replay sens = fold (\<lambda>sen r. snd (process_reply sen r)) sens empty_reply"

definition settled :: "sentence list \<Rightarrow> goerr option \<Rightarrow> bool" where
  "settled sens e \<longleftrightarrow>
     (\<exists>qs sen. sens = qs @ [sen] \<and> list_all quiet qs \<and> \<not> quiet sen \<and> snd (verdict sen) = e)"

lemma process_reply_verdict: "fst (process_reply sen r) = verdict sen"
  by (simp add: verdict_def process_reply_def)

lemma run_process_eq:
  "run_process sen p = (verdict sen, p\<lparr>preply := snd (process_reply sen (preply p))\<rparr>)"
  by (simp add: run_process_def split_beta process_reply_verdict)

lemma conversation_fields [simp]:
  "conversation t (set_proc u p s) = conversation t s" "conversation t (s\<lparr>apc := pc\<rparr>) = conversation t s"
  "conversation t (s\<lparr>ahandled := ahandled s @ [sen]\<rparr>)
     = conversation t s @ (if sen_tag sen = t then [sen] else [])"
  by (simp_all add: conversation_def)

subsection \<open>Invariants of conversations\<close>

text \<open>
  What the loop is doing with a tag: leaving it, or nothing that concerns it.  A step keeps what a processor
  has told its caller when it changes only the channel's buffer.
\<close>

definition leaving :: "loop_pc \<Rightarrow> string \<Rightarrow> goerr option \<Rightarrow> bool" where
  "leaving pc t e \<longleftrightarrow> pc = LDel t e \<or> pc = LClose t e"

definition still :: "loop_pc \<Rightarrow> bool" where
  "still pc \<longleftrightarrow> (\<forall>t e. \<not> leaving pc t e)"

definition aside :: "loop_pc \<Rightarrow> string \<Rightarrow> bool" where
  "aside pc t \<longleftrightarrow> (\<forall>e. \<not> leaving pc t e) \<and> (\<forall>e. pc \<noteq> LEnded e)"

definition told :: "aproc \<Rightarrow> aproc \<Rightarrow> bool" where
  "told p p' \<longleftrightarrow> pkind p' = pkind p \<and> preply p' = preply p \<and> perr p' = perr p \<and> pclosed p' = pclosed p"

text \<open>Processing a sentence: the verdict and the processor afterwards.\<close>

definition handles :: "sentence \<Rightarrow> aproc \<Rightarrow> bool \<times> goerr option \<Rightarrow> aproc \<Rightarrow> bool" where
  "handles sen p v p' \<longleftrightarrow>
     (case pkind p of
        KRun \<Rightarrow> run_process sen p = (v, p')
      | KListen cap \<Rightarrow>
          (if sen_word sen = ''!re'' then v = (False, None) \<and> (\<exists>h. deliver h cap sen p = Some p')
           else listen_process sen p = Some (v, p')))"

definition conversing_all ::
  "(akind \<Rightarrow> bool) \<Rightarrow> (loop_pc \<Rightarrow> string \<Rightarrow> sentence list \<Rightarrow> aproc \<Rightarrow> bool) \<Rightarrow> astate \<Rightarrow> bool" where
  "conversing_all kind says s \<longleftrightarrow>
     (\<forall>t p. aprocs s t = Some p \<and> kind (pkind p) \<longrightarrow> says (apc s) t (conversation t s) p)"

lemma still_pcs [simp]:
  "still LNone" "still LRead" "still (LGot sen)" "still (LProc sen)" "still (LFail e)" "still (LEnded e)"
  by (simp_all add: still_def leaving_def)

lemma aside_pcs [simp]:
  "aside LNone t" "aside LRead t" "aside (LGot sen) t" "aside (LProc sen) t" "aside (LFail e) t"
  "t \<noteq> u \<Longrightarrow> aside (LDel u x) t" "t \<noteq> u \<Longrightarrow> aside (LClose u x) t"
  by (simp_all add: aside_def leaving_def)

lemma deliver_kind: "deliver h cap sen p = Some p' \<Longrightarrow> pkind p' = pkind p"
  by (auto simp: deliver_def split: if_splits)

lemma deliver_told: "deliver h cap sen p = Some p' \<Longrightarrow> told p p'"
  by (auto simp: deliver_def told_def split: if_splits)

lemma listen_process_kind: "listen_process sen p = Some (v, p') \<Longrightarrow> pkind p' = pkind p"
  by (auto simp: listen_process_def close_stop_def Let_def split: prod.splits if_splits option.splits)

lemma handles_kind: "handles sen p v p' \<Longrightarrow> pkind p' = pkind p"
  by (auto simp: handles_def run_process_eq dest: deliver_kind listen_process_kind split: akind.splits if_splits)

lemma register_proc:
  "aprocs (register t p s) = (aprocs s)(t \<mapsto> p)" "apc (register t p s) = apc s"
  "ahandled (register t p s) = ahandled s"
  by (simp_all add: register_def)

lemma loop_process_handles:
  assumes "ainv s" "loop_process h s = Some s'"
  obtains sen p v p' where "apc s = LProc sen" "aprocs s (sen_tag sen) = Some p" "\<not> pclosed p" "handles sen p v p'"
    "s' = (set_proc (sen_tag sen) p' (s\<lparr>ahandled := ahandled s @ [sen]\<rparr>))\<lparr>apc := after_process (sen_tag sen) v\<rparr>"
proof -
  obtain sen p where pc: "apc s = LProc sen" and p: "aprocs s (sen_tag sen) = Some p"
    using assms(2) by (auto simp: loop_process_def Let_def split: loop_pc.splits option.splits)
  note open_p = ainv_at_proc [OF assms(1) pc p]
  show thesis
  proof (cases "pkind p")
    case KRun
    obtain v p' where v: "run_process sen p = (v, p')" by fastforce
    with assms(2) pc p KRun open_p show thesis
      by (intro that [OF pc p, of v p']) (auto simp: loop_process_def handles_def Let_def)
  next
    case (KListen cap)
    show thesis
    proof (cases "sen_word sen = ''!re''")
      case True
      with assms(2) pc p KListen open_p obtain p' where d: "deliver h cap sen p = Some p'"
        "s' = (set_proc (sen_tag sen) p' (s\<lparr>ahandled := ahandled s @ [sen]\<rparr>))\<lparr>apc := LRead\<rparr>"
        by (auto simp: loop_process_def Let_def)
      with KListen True open_p show thesis
        by (intro that [OF pc p, of "(False, None)" p']) (auto simp: handles_def after_process_def)
    next
      case False
      obtain v p' where "listen_process sen p = Some (v, p')"
        using listen_process_none [of sen p] open_p by (cases "listen_process sen p") auto
      with assms(2) pc p KListen open_p False show thesis
        by (intro that [OF pc p, of v p']) (auto simp: loop_process_def handles_def Let_def)
    qed
  qed
qed

text \<open>
  The contract between the loop and the processors of a kind: \<open>says\<close> relates a processor to its
  conversation.  If the parts of the loop keep it, every run of the client does.
\<close>

locale conversing =
  fixes kind :: "akind \<Rightarrow> bool"
    and says :: "loop_pc \<Rightarrow> string \<Rightarrow> sentence list \<Rightarrow> aproc \<Rightarrow> bool"
  assumes says_aside: "says pc t conv p \<Longrightarrow> pc' = pc \<or> aside pc t \<and> aside pc' t \<Longrightarrow> told p p' \<Longrightarrow> says pc' t conv p'"
    and says_new: "kind k \<Longrightarrow> \<forall>e. \<not> leaving pc t e \<Longrightarrow> says pc t [] (new_proc k st)"
    and says_handled: "kind (pkind p) \<Longrightarrow> says (LProc sen) t conv p \<Longrightarrow> \<not> pclosed p \<Longrightarrow> handles sen p v p' \<Longrightarrow>
      says (after_process t v) t (conv @ [sen]) p'"
    and says_deleted: "says (LDel t e) t conv p \<Longrightarrow> says (LClose t e) t conv p"
    and says_closed: "says (LClose t e) t conv p \<Longrightarrow> close_proc e p = Some p' \<Longrightarrow> says LRead t conv p'"
    and says_ended: "says (LFail y) t conv p \<Longrightarrow> p' = p \<or> close_proc x p = Some p' \<Longrightarrow> says (LEnded y) t conv p'"
begin

lemma keep:
  assumes "conversing_all kind says s" "ahandled s' = ahandled s"
    and "apc s' = apc s \<or> (\<forall>t. aside (apc s) t \<and> aside (apc s') t)"
    and "\<And>t p'. aprocs s' t = Some p' \<Longrightarrow> \<exists>p. aprocs s t = Some p \<and> told p p'"
  shows "conversing_all kind says s'"
  unfolding conversing_all_def
proof (intro allI impI)
  fix t p'
  assume p': "aprocs s' t = Some p' \<and> kind (pkind p')"
  then obtain p where p: "aprocs s t = Some p" "told p p'" using assms(4) by blast
  with p' assms(1) have "says (apc s) t (conversation t s) p" by (auto simp: conversing_all_def told_def)
  moreover have "apc s' = apc s \<or> aside (apc s) t \<and> aside (apc s') t" using assms(3) by blast
  ultimately have "says (apc s') t (conversation t s) p'" using p(2) by (rule says_aside)
  with assms(2) show "says (apc s') t (conversation t s') p'" by (simp add: conversation_def)
qed

lemma told_refl [simp]: "told p p"
  by (simp add: told_def)

lemma keep_register:
  assumes "conversing_all kind says s" "ainv s" "aprocs s t = None" "apc s' = apc s" "ahandled s' = ahandled s"
    "aprocs s' = (aprocs s)(t \<mapsto> new_proc k st)"
  shows "conversing_all kind says s'"
proof -
  have "conversation t s = []"
    using assms(2,3) by (auto simp: conversation_def filter_empty_conv ainv_def inv_tags_def)
  moreover have "\<not> leaving (apc s) t e" for e
    using assms(2,3) by (auto simp: leaving_def ainv_def inv_pc_def inv_open_def)
  moreover have "pkind (new_proc k st) = k" by (simp add: new_proc_def)
  ultimately show ?thesis using assms(1,4-6) says_new by (auto simp: conversing_all_def conversation_def)
qed

text \<open>The loop touches one processor.\<close>

lemma keep_touch:
  assumes "conversing_all kind says s" "aprocs s' = (aprocs s)(u \<mapsto> p')" "\<And>t. t \<noteq> u \<Longrightarrow> conversation t s' = conversation t s"
    and "kind (pkind p') \<Longrightarrow> says (apc s') u (conversation u s') p'"
    and "\<And>t. t \<noteq> u \<Longrightarrow> aside (apc s) t \<and> aside (apc s') t"
  shows "conversing_all kind says s'"
  unfolding conversing_all_def
proof (intro allI impI)
  fix t p
  assume p: "aprocs s' t = Some p \<and> kind (pkind p)"
  show "says (apc s') t (conversation t s') p"
  proof (cases "t = u")
    case True
    with p assms(2,4) show ?thesis by simp
  next
    case False
    with p assms(1,2) have "says (apc s) t (conversation t s) p" by (simp add: conversing_all_def)
    with False assms(3,5) says_aside [OF _ _ told_refl, of "apc s" t _ p "apc s'"] show ?thesis by simp
  qed
qed

lemma keep_process:
  assumes "conversing_all kind says s" "ainv s" "loop_process h s = Some s'"
  shows "conversing_all kind says s'"
  using assms(2,3)
proof (rule loop_process_handles)
  fix sen p v p'
  assume l: "apc s = LProc sen" "aprocs s (sen_tag sen) = Some p" "\<not> pclosed p" "handles sen p v p'"
    and s': "s' = (set_proc (sen_tag sen) p' (s\<lparr>ahandled := ahandled s @ [sen]\<rparr>))\<lparr>apc := after_process (sen_tag sen) v\<rparr>"
  have "kind (pkind p') \<Longrightarrow> says (after_process (sen_tag sen) v) (sen_tag sen) (conversation (sen_tag sen) s @ [sen]) p'"
    using assms(1) l says_handled handles_kind [OF l(4)] by (simp add: conversing_all_def)
  then show ?thesis
    using l(1) by (intro keep_touch [OF assms(1)]) (auto simp: s' set_proc_def conversation_def after_process_def)
qed

lemma keep_delete:
  assumes "conversing_all kind says s" "loop_delete s = Some s'"
  shows "conversing_all kind says s'"
proof -
  obtain u e where s': "apc s = LDel u e" "s' = s\<lparr>atags := map_option (removeAll u) (atags s), apc := LClose u e\<rparr>"
    using assms(2) by (auto simp: loop_delete_def split: loop_pc.splits)
  show ?thesis
    unfolding conversing_all_def
  proof (intro allI impI)
    fix t p
    assume "aprocs s' t = Some p \<and> kind (pkind p)"
    with assms(1) s' have "says (LDel u e) t (conversation t s) p" by (auto simp: conversing_all_def)
    then have "says (LClose u e) t (conversation t s) p"
      using says_deleted says_aside [of "LDel u e" t _ p "LClose u e" p] by (cases "t = u") auto
    then show "says (apc s') t (conversation t s') p" by (simp add: s' conversation_def)
  qed
qed

lemma keep_close:
  assumes "conversing_all kind says s" "ainv s" "loop_close s = Some s'"
  shows "conversing_all kind says s'"
proof -
  obtain u e where pc: "apc s = LClose u e" using assms(3) by (auto simp: loop_close_def split: loop_pc.splits)
  with assms(2) obtain p where p: "aprocs s u = Some p" "\<not> pclosed p" by (auto simp: ainv_def inv_pc_def)
  then obtain p' where p': "close_proc e p = Some p'" by (simp add: close_proc_def)
  have s': "s' = (set_proc u p' s)\<lparr>apc := LRead\<rparr>" using assms(3) pc p p' by (simp add: loop_close_def)
  have "pkind p' = pkind p" using p' by (auto simp: close_proc_def split: if_splits)
  then have "kind (pkind p') \<Longrightarrow> says LRead u (conversation u s) p'"
    using assms(1) p(1) p' pc says_closed [of u e "conversation u s" p p'] by (simp add: conversing_all_def)
  with pc show ?thesis
    by (intro keep_touch [OF assms(1)]) (auto simp: s' set_proc_def conversation_def)
qed

lemma keep_close_tags:
  assumes "conversing_all kind says s" "loop_close_tags s = Some s'"
  shows "conversing_all kind says s'"
  unfolding conversing_all_def
proof (intro allI impI)
  fix t q
  assume q: "aprocs s' t = Some q \<and> kind (pkind q)"
  obtain e where pc: "apc s = LFail e" using assms(2) by (auto simp: loop_close_tags_def split: loop_pc.splits)
  with assms(2) have s': "apc s' = LEnded e" "ahandled s' = ahandled s"
    "aprocs s' t = (if registered s t then map_option (\<lambda>p. case close_proc (close_tags_err e s) p of
         None \<Rightarrow> p | Some p' \<Rightarrow> p') (aprocs s t) else aprocs s t)"
    by (auto simp: loop_close_tags_def)
  with q obtain p where p: "aprocs s t = Some p" "q = p \<or> close_proc (close_tags_err e s) p = Some q"
    by (auto split: if_splits option.splits)
  with q have "pkind q = pkind p" by (auto simp: close_proc_def split: if_splits)
  with q p(1) pc assms(1) have "says (LFail e) t (conversation t s) p" by (simp add: conversing_all_def)
  with p(2) s'(1,2) says_ended show "says (apc s') t (conversation t s') q" by (auto simp: conversation_def)
qed

lemma keep_run_commit:
  assumes "conversing_all kind says s" "ainv s" "run_commit w s = Some s'"
  shows "conversing_all kind says s'"
proof -
  obtain t where h: "awriter s = Some (HRun t)"
    using assms(3) by (auto simp: run_commit_def split: option.splits holder.splits)
  then have n: "aprocs s t = None" using assms(2) by (auto simp: ainv_def inv_tags_def)
  from h assms(3) consider x where "s' = s\<lparr>awriter := x\<rparr>"
    | "s' = register t (new_proc KRun None) (s\<lparr>awriter := None\<rparr>)"
    by (auto simp: run_commit_def split: if_splits)
  then show ?thesis
    by cases (auto intro: keep [OF assms(1)] keep_register [OF assms(1,2) n] simp: register_proc)
qed

lemma keep_listen_commit:
  assumes "conversing_all kind says s" "ainv s" "listen_commit w s = Some s'"
  shows "conversing_all kind says s'"
proof -
  obtain t n st where h: "awriter s = Some (HListen t n st)"
    using assms(3) by (auto simp: listen_commit_def split: option.splits holder.splits)
  then have n: "aprocs s t = None" using assms(2) by (auto simp: ainv_def inv_tags_def)
  from h assms(3) consider x where "s' = s\<lparr>awriter := x\<rparr>"
    | "s' = register t (new_proc (KListen n) st) (s\<lparr>awriter := None\<rparr>)"
    by (auto simp: listen_commit_def split: if_splits)
  then show ?thesis
    by cases (auto intro: keep [OF assms(1)] keep_register [OF assms(1,2) n] simp: register_proc)
qed

lemma keep_cancel_tag:
  assumes "conversing_all kind says s" "ainv s"
  shows "conversing_all kind says (cancel_tag s)"
proof -
  let ?t = "tag_of CHR ''c'' (Suc (anext s))"
  have n: "aprocs s ?t = None" using assms(2) fresh_tag by (auto simp: ainv_def inv_tags_def)
  show ?thesis
  proof (cases "atags s")
    case None
    then have "cancel_tag s = s\<lparr>anext := Suc (anext s)\<rparr>" by (simp add: cancel_tag_def Let_def)
    with assms(1) show ?thesis by (auto intro: keep)
  next
    case (Some ts)
    have "conversing_all kind says (register ?t (new_proc KRun None) (s\<lparr>anext := Suc (anext s), acancels := acancels s @ [?t]\<rparr>))"
      by (rule keep_register [OF assms n]) (simp_all add: register_proc)
    with Some show ?thesis by (simp add: cancel_tag_def Let_def)
  qed
qed

lemma keep_step:
  assumes "conversing_all kind says s" "ainv s" "astep e s = Some s'"
  shows "conversing_all kind says s'"
proof (cases e)
  case EvAsync
  with assms show ?thesis
    by (auto simp: start_async_def ainv_def inv_loop_def intro!: keep [OF assms(1)] split: if_splits)
next
  case (EvReceive t)
  with assms(3) show ?thesis
    by (auto simp: receive_def set_proc_def told_def split: option.splits list.splits if_splits
        intro!: keep [OF assms(1)])
next
  case (EvRead r)
  with assms(3) show ?thesis
    by (auto simp: loop_read_def split: if_splits sum.splits intro!: keep [OF assms(1)])
next
  case EvLookup
  with assms(3) show ?thesis
    by (auto simp: loop_lookup_def split: loop_pc.splits intro!: keep [OF assms(1)])
next
  case EvRunBegin
  with assms(3) show ?thesis by (auto simp: run_begin_def split: if_splits intro!: keep [OF assms(1)])
next
  case (EvListenBegin n c)
  with assms(3) show ?thesis by (auto simp: listen_begin_def split: if_splits intro!: keep [OF assms(1)])
next
  case (EvCancelWrite t)
  with assms(3) show ?thesis by (auto simp: cancel_write_def split: if_splits intro!: keep [OF assms(1)])
next
  case EvClose
  with assms(3) show ?thesis by (auto intro!: keep [OF assms(1)])
next
  case EvCancelTag
  with assms show ?thesis by (auto intro: keep_cancel_tag)
qed (use assms in \<open>auto dest: keep_run_commit keep_listen_commit keep_process keep_delete keep_close keep_close_tags\<close>)

lemma always: "areach s \<Longrightarrow> conversing_all kind says s"
proof (induction rule: areach.induct)
  case reach_init
  show ?case by (simp add: conversing_all_def async_init_def)
next
  case (reach_next s e s')
  then show ?case by (auto elim!: atransE intro: keep_step areach_ainv)
qed

end

subsection \<open>Calls\<close>

definition talk :: "loop_pc \<Rightarrow> string \<Rightarrow> sentence list \<Rightarrow> aproc \<Rightarrow> bool" where
  "talk pc t conv p \<longleftrightarrow>
     preply p = replay conv
   \<and> (if \<exists>e. leaving pc t e then perr p = None \<and> (\<forall>e. leaving pc t e \<longrightarrow> settled conv e)
      else if pclosed p then settled conv (perr p) \<or> list_all quiet conv \<and> (\<exists>e. pc = LEnded e)
      else perr p = None \<and> list_all quiet conv)"

lemma replay_snoc: "replay (sens @ [sen]) = snd (process_reply sen (replay sens))"
  by (simp add: replay_def)

lemma settled_snoc: "list_all quiet conv \<Longrightarrow> \<not> quiet sen \<Longrightarrow> settled (conv @ [sen]) (snd (verdict sen))"
  by (auto simp: settled_def)

lemma leaving_after [simp]:
  "leaving (after_process t v) u e \<longleftrightarrow> (fst v \<or> snd v \<noteq> None) \<and> u = t \<and> e = snd v"
  by (auto simp: leaving_def after_process_def)

lemma quiet_verdict: "quiet sen \<longleftrightarrow> \<not> (fst (verdict sen) \<or> snd (verdict sen) \<noteq> None)"
  by (cases "verdict sen") (auto simp: quiet_def)

lemma leaving_pcs [simp]:
  "leaving (LDel u x) t e \<longleftrightarrow> t = u \<and> e = x" "leaving (LClose u x) t e \<longleftrightarrow> t = u \<and> e = x"
  "\<not> leaving LRead t e" "\<not> leaving (LProc sen) t e" "\<not> leaving (LFail y) t e" "\<not> leaving (LEnded y) t e"
  by (auto simp: leaving_def)

lemma talk_leaving:
  "\<forall>e. leaving pc' t e = leaving pc t e \<Longrightarrow> ((\<exists>e. pc = LEnded e) \<Longrightarrow> (\<exists>e. pc' = LEnded e)) \<Longrightarrow>
     talk pc t conv p \<Longrightarrow> talk pc' t conv p"
  by (auto simp: talk_def split: if_splits)

lemma talk_told: "told p p' \<Longrightarrow> talk pc t conv p' = talk pc t conv p"
  by (simp add: talk_def told_def)

interpretation calls: conversing "\<lambda>k. k = KRun" talk
proof
  show "talk pc' t conv p'"
    if "talk pc t conv p" "pc' = pc \<or> aside pc t \<and> aside pc' t" "told p p'" for pc t conv p pc' p'
    using that talk_leaving [of pc' t pc conv p] talk_told [of p p'] by (auto simp: aside_def)
  show "talk pc t [] (new_proc k st)" if "\<forall>e. \<not> leaving pc t e" for k pc t st
    using that by (simp add: talk_def new_proc_def replay_def)
  show "talk (after_process t v) t (conv @ [sen]) p'"
    if "pkind p = KRun" "talk (LProc sen) t conv p" "\<not> pclosed p" "handles sen p v p'" for p sen t conv v p'
  proof -
    from that(1,4) have "v = verdict sen" "p' = p\<lparr>preply := snd (process_reply sen (preply p))\<rparr>"
      by (simp_all add: handles_def run_process_eq)
    with that(2,3) settled_snoc [of conv sen] show ?thesis
      by (auto simp: talk_def replay_snoc quiet_verdict)
  qed
  show "talk (LClose t e) t conv p" if "talk (LDel t e) t conv p" for t e conv p
    using that by (simp add: talk_def)
  show "talk LRead t conv p'" if "talk (LClose t e) t conv p" "close_proc e p = Some p'" for t e conv p p'
    using that by (auto simp: talk_def close_proc_def split: if_splits)
  show "talk (LEnded e) t conv p'" if "talk (LFail e) t conv p" "p' = p \<or> close_proc x p = Some p'" for e t conv p p' x
    using that by (auto simp: talk_def close_proc_def split: if_splits)
qed

text \<open>What a call has, in every reachable state.\<close>

lemma areach_talk:
  assumes "areach s" "aprocs s t = Some p" "pkind p = KRun"
  shows "talk (apc s) t (conversation t s) p"
  using calls.always [OF assms(1)] assms(2,3) by (simp add: conversing_all_def)

text \<open>A call is closed by its own final sentence, or by the end of the loop.\<close>

lemma closed_call_settled:
  assumes "areach s" "aprocs s t = Some p" "pkind p = KRun" "pclosed p"
  shows "settled (conversation t s) (perr p) \<or> (\<exists>e. apc s = LEnded e)"
proof -
  have "ainv s" using assms(1) by (rule areach_ainv)
  with assms(2,4) have "\<not> leaving (apc s) t e" for e
    by (auto simp: leaving_def ainv_def inv_pc_def inv_closed_def inv_open_def)
  with areach_talk [OF assms(1-3)] assms(4) show ?thesis by (auto simp: talk_def)
qed

subsection \<open>Listeners\<close>

text \<open>
  A listener is closed by its own final sentence, which gives its error and its \<open>Done\<close>; or by the end of
  the loop.
\<close>

definition ended_by :: "sentence list \<Rightarrow> goerr option \<Rightarrow> sentence option \<Rightarrow> bool" where
  "ended_by conv e d \<longleftrightarrow>
     (\<exists>qs sen. conv = qs @ [sen] \<and> list_all quiet qs \<and> \<not> quiet sen
        \<and> listen_verdict sen = (True, e, d \<noteq> None) \<and> (d \<noteq> None \<longrightarrow> d = Some sen))"

definition hears :: "loop_pc \<Rightarrow> string \<Rightarrow> sentence list \<Rightarrow> aproc \<Rightarrow> bool" where
  "hears pc t conv p \<longleftrightarrow>
     (if \<exists>e. leaving pc t e
      then perr p = None \<and> \<not> pclosed p \<and> (\<forall>e. leaving pc t e \<longrightarrow> ended_by conv e (done_sen (preply p)))
      else if pclosed p
      then ended_by conv (perr p) (done_sen (preply p))
        \<or> list_all quiet conv \<and> done_sen (preply p) = None \<and> (\<exists>e. pc = LEnded e)
      else perr p = None \<and> list_all quiet conv \<and> done_sen (preply p) = None)"

lemma quiet_words: "quiet sen \<longleftrightarrow> sen_word sen = ''!re'' \<or> ignorable sen"
  by (auto simp: quiet_def verdict_def process_reply_def ignorable_def)

lemma listen_verdict_quiet: "quiet sen \<Longrightarrow> listen_verdict sen = (False, None, False)"
  by (auto simp: quiet_words listen_verdict_def ignorable_def)

lemma listen_verdict_loud: "\<not> quiet sen \<Longrightarrow> \<exists>e sets. listen_verdict sen = (True, e, sets)"
  by (auto simp: quiet_words listen_verdict_def ignorable_def)

lemma listen_process_told:
  assumes "listen_process sen p = Some (v, p')"
  shows "perr p' = perr p" "pclosed p' = pclosed p"
    "done_sen (preply p') = (if snd (snd (listen_verdict sen)) then Some sen else done_sen (preply p))"
    "v = (fst (listen_verdict sen), fst (snd (listen_verdict sen)))"
  using assms
  by (auto simp: listen_process_def close_stop_def Let_def split: prod.splits if_splits option.splits)

lemma hears_leaving:
  "\<forall>e. leaving pc' t e = leaving pc t e \<Longrightarrow> ((\<exists>e. pc = LEnded e) \<Longrightarrow> (\<exists>e. pc' = LEnded e)) \<Longrightarrow>
     hears pc t conv p \<Longrightarrow> hears pc' t conv p"
  by (auto simp: hears_def split: if_splits)

lemma hears_told: "told p p' \<Longrightarrow> hears pc t conv p' = hears pc t conv p"
  by (simp add: hears_def told_def)

interpretation listeners: conversing "\<lambda>k. k \<noteq> KRun" hears
proof
  show "hears pc' t conv p'"
    if "hears pc t conv p" "pc' = pc \<or> aside pc t \<and> aside pc' t" "told p p'" for pc t conv p pc' p'
    using that hears_leaving [of pc' t pc conv p] hears_told [of p p'] by (auto simp: aside_def)
  show "hears pc t [] (new_proc k st)" if "\<forall>e. \<not> leaving pc t e" for k pc t st
    using that by (simp add: hears_def new_proc_def empty_reply_def)
  show "hears (after_process t v) t (conv @ [sen]) p'"
    if k: "pkind p \<noteq> KRun" "hears (LProc sen) t conv p" "\<not> pclosed p" "handles sen p v p'" for p sen t conv v p'
  proof -
    obtain cap where cap: "pkind p = KListen cap" using k(1) by (cases "pkind p") auto
    have h: "perr p = None" "list_all quiet conv" "done_sen (preply p) = None"
      using k(2,3) by (auto simp: hears_def)
    show ?thesis
    proof (cases "sen_word sen = ''!re''")
      case True
      with k(4) cap deliver_told have "v = (False, None)" "told p p'" by (auto simp: handles_def)
      with True h k(3) show ?thesis by (auto simp: hears_def told_def quiet_words)
    next
      case False
      with k(4) cap have lp: "listen_process sen p = Some (v, p')" by (simp add: handles_def)
      note l = listen_process_told [OF lp]
      show ?thesis
      proof (cases "quiet sen")
        case True
        with l h k(3) listen_verdict_quiet [OF True] show ?thesis by (simp add: hears_def)
      next
        case False
        then obtain e sets where "listen_verdict sen = (True, e, sets)" using listen_verdict_loud by blast
        with l h k(3) False show ?thesis by (auto simp: hears_def ended_by_def)
      qed
    qed
  qed
  show "hears (LClose t e) t conv p" if "hears (LDel t e) t conv p" for t e conv p
    using that by (simp add: hears_def)
  show "hears LRead t conv p'" if "hears (LClose t e) t conv p" "close_proc e p = Some p'" for t e conv p p'
    using that by (auto simp: hears_def close_proc_def split: if_splits)
  show "hears (LEnded y) t conv p'" if "hears (LFail y) t conv p" "p' = p \<or> close_proc x p = Some p'" for y t conv p p' x
    using that by (auto simp: hears_def close_proc_def split: if_splits)
qed

lemma areach_hears:
  assumes "areach s" "aprocs s t = Some p" "pkind p \<noteq> KRun"
  shows "hears (apc s) t (conversation t s) p"
  using listeners.always [OF assms(1)] assms(2,3) by (simp add: conversing_all_def)

subsection \<open>The synchronous call on the same sentences\<close>

lemma replay_quiet: "list_all quiet sens \<Longrightarrow> replay sens = \<lparr>re_sens = rows_of sens, done_sen = None\<rparr>"
proof (induction sens rule: rev_induct)
  case (snoc sen sens)
  then show ?case
    by (auto simp: replay_snoc quiet_words process_reply_def rows_of_def ignorable_def)
qed (simp add: replay_def empty_reply_def rows_of_def)

lemma quiet_passing: "list_all quiet sens \<Longrightarrow> \<forall>sen \<in> set sens. passing sen"
  by (auto simp: list_all_iff quiet_words passing_def)

lemma quiet_no_trap: "list_all quiet sens \<Longrightarrow> last_trap None sens = None"
proof -
  assume "list_all quiet sens"
  then have "filter (\<lambda>sen. sen_word sen = ''!trap'') sens = []"
    by (auto simp: filter_empty_conv list_all_iff quiet_words ignorable_def)
  then show ?thesis by (simp add: last_trap_def)
qed

lemma yields_snoc:
  "yields s (sens @ [sen]) s' \<longleftrightarrow> (\<exists>s0. yields s sens s0 \<and> read_sentence s0 = (Inr sen, s'))"
  by (induction sens arbitrary: s) (auto split: prod.splits sum.splits)

lemma verdict_loud:
  "\<not> quiet sen \<Longrightarrow> verdict sen =
     (if sen_word sen = ''!done'' then (True, None)
      else if sen_word sen = ''!trap'' then (False, Some (DeviceErr sen))
      else if sen_word sen = ''!fatal'' then (True, Some (DeviceErr sen))
      else (True, Some (UnknownReplyErr sen)))"
  by (simp add: verdict_def process_reply_def quiet_words ignorable_def)

lemma sync_loop_settled:
  assumes "list_all quiet qs" "\<not> quiet sen" "yields s (qs @ [sen]) s1"
  shows "fst (sync_loop empty_reply None s) =
     (if sen_word sen = ''!done'' then (Some (replay (qs @ [sen])), None)
      else if sen_word sen = ''!trap'' then fst (sync_loop (replay (qs @ [sen])) (snd (verdict sen)) s1)
      else (None, snd (verdict sen)))"
proof -
  obtain s0 where y: "yields s qs s0" and rd: "read_sentence s0 = (Inr sen, s1)"
    using assms(3) by (auto simp: yields_snoc)
  have "sync_loop empty_reply None s = sync_loop (replay qs) None s0"
    using sync_loop_passing [OF y quiet_passing [OF assms(1)], of empty_reply None]
    by (simp add: replay_quiet [OF assms(1)] quiet_no_trap [OF assms(1)] empty_reply_def)
  then have "fst (sync_loop empty_reply None s) = fst (sync_loop (replay qs) None s0)" by simp
  moreover
  have pr: "process_reply sen (replay qs) = (verdict sen, replay (qs @ [sen]))"
    by (metis prod.collapse process_reply_verdict replay_snoc)
  have "fst (sync_loop (replay qs) None s0) =
     (if sen_word sen = ''!done'' then (Some (replay (qs @ [sen])), None)
      else if sen_word sen = ''!trap'' then fst (sync_loop (replay (qs @ [sen])) (snd (verdict sen)) s1)
      else (None, snd (verdict sen)))"
    by (subst sync_loop.simps) (simp add: rd pr verdict_loud [OF assms(2)])
  ultimately show ?thesis by simp
qed

subsection \<open>Properties\<close>



text \<open>C19: Listeners end by themselves: while the loop runs, a listener whose channel is closed was closed by its own
final sentence, whatever is cancelled or fails beside it; that sentence is its error or its \<open>Done\<close>, and all data
sentences before it have been handed over.\<close>

theorem listener_ends_by_itself:
  assumes "areach s" "aprocs s t = Some p" "pkind p = KListen cap" "pclosed p" "\<forall>e. apc s \<noteq> LEnded e"
  shows "\<exists>qs sen. conversation t s = qs @ [sen] \<and> list_all quiet qs \<and> sen_tag sen = t
    \<and> listen_verdict sen = (True, perr p, done_sen (preply p) = Some sen)
    \<and> (done_sen (preply p) \<noteq> None \<longrightarrow> done_sen (preply p) = Some sen)
    \<and> preceived p @ pqueue p = rows_of qs"
proof -
  have "ainv s" using assms(1) by (rule areach_ainv)
  with assms(2,4) have "\<not> leaving (apc s) t e" for e
    by (auto simp: leaving_def ainv_def inv_pc_def inv_closed_def inv_open_def)
  moreover have "hears (apc s) t (conversation t s) p" using areach_hears [OF assms(1,2)] assms(3) by simp
  ultimately have "ended_by (conversation t s) (perr p) (done_sen (preply p))"
    using assms(4,5) by (simp add: hears_def)
  then obtain qs sen where c: "conversation t s = qs @ [sen]" "list_all quiet qs" "\<not> quiet sen"
    "listen_verdict sen = (True, perr p, done_sen (preply p) \<noteq> None)"
    "done_sen (preply p) \<noteq> None \<longrightarrow> done_sen (preply p) = Some sen"
    by (auto simp: ended_by_def)
  have "rows_for_tag t (ahandled s) = delivered p"
    using \<open>ainv s\<close> assms(2) unfolding ainv_def inv_closed_def by blast
  then have "delivered p = rows_of (qs @ [sen])"
    using c(1) by (simp add: rows_for_tag_def rows_of_def conversation_def conj_commute flip: filter_filter)
  then have "preceived p @ pqueue p = rows_of qs"
    using c(3) assms(3) by (simp add: delivered_def rows_of_def quiet_words)
  moreover have "sen \<in> set (conversation t s)" by (simp add: c(1))
  then have "sen_tag sen = t" by (simp add: conversation_def)
  ultimately show ?thesis using c by auto
qed

lemma listener_ends_by_itself_witness:
  "\<exists>s p qs sen. areach s \<and> aprocs s ''l1'' = Some p \<and> perr p = None \<and> conversation ''l1'' s = qs @ [sen]
     \<and> done_sen (preply p) = Some sen \<and> length (preceived p @ pqueue p) = 1"
proof -
  have "sample_check [EvAsync, EvListenBegin 1 True, EvListenCommit None,
      EvRead (Inr (sample_sentence ''!re'' ''l1'')), EvLookup, EvProcess False,
      EvRead (Inr (sample_sentence ''!done'' ''l1'')), EvLookup, EvProcess False, EvDelete, EvCloseReply]
    (\<lambda>s. apc s = LRead \<and> (case aprocs s ''l1'' of None \<Rightarrow> False
        | Some p \<Rightarrow> pkind p = KListen 1 \<and> pclosed p \<and> perr p = None \<and> length (preceived p @ pqueue p) = 1
          \<and> done_sen (preply p) \<noteq> None))"
    by code_simp
  then obtain s where s: "areach s" "apc s = LRead" "case aprocs s ''l1'' of None \<Rightarrow> False
      | Some p \<Rightarrow> pkind p = KListen 1 \<and> pclosed p \<and> perr p = None \<and> length (preceived p @ pqueue p) = 1
          \<and> done_sen (preply p) \<noteq> None"
    by (rule sample_reach) blast
  then obtain p where p: "aprocs s ''l1'' = Some p" "pkind p = KListen 1" "pclosed p" "perr p = None"
    "length (preceived p @ pqueue p) = 1" "done_sen (preply p) \<noteq> None"
    by (cases "aprocs s ''l1''") simp_all
  have "\<forall>e. apc s \<noteq> LEnded e" using s(2) by simp
  from listener_ends_by_itself [OF s(1) p(1-3) this] s(1) p show ?thesis by blast
qed

end
