(* ===== verification/Async_Channel.thy ===== *)
theory Async_Channel
  imports Async_Replies
begin

text \<open>
  The two other goroutine ends of \<open>async.go\<close> and \<open>listen.go\<close>: the error channel that \<open>Async\<close> returns, and
  the goroutine that waits for a listener's context or for its stop channel.
\<close>

subsection \<open>Calls and their sentences\<close>

definition is_async :: "astate \<Rightarrow> bool" where
  "is_async s = aasync s"

text \<open>
  Every way to run or to listen is one general call: a context (\<open>None\<close> is the background context), a
  sentence, and for a listener the capacity of its channel, \<open>Client.Queue\<close> unless given.
\<close>

type_synonym 'x run_request = "'x option \<times> string list"
type_synonym 'x listen_request = "'x option \<times> string list \<times> nat"

definition run_args :: "string list \<Rightarrow> 'x run_request" where
  "run_args sentences = (None, sentences)"

definition run_plain :: "string list \<Rightarrow> 'x run_request" where
  "run_plain sentences = run_args sentences"

definition run_context :: "'x \<Rightarrow> string list \<Rightarrow> 'x run_request" where
  "run_context ctx sentences = (Some ctx, sentences)"

definition listen_args_queue :: "string list \<Rightarrow> nat \<Rightarrow> 'x listen_request" where
  "listen_args_queue sentence queue_size = (None, sentence, queue_size)"

definition listen_plain :: "nat \<Rightarrow> string list \<Rightarrow> 'x listen_request" where
  "listen_plain queue sentence = listen_args_queue sentence queue"

definition listen_args :: "nat \<Rightarrow> string list \<Rightarrow> 'x listen_request" where
  "listen_args queue sentence = listen_args_queue sentence queue"

definition listen_context :: "nat \<Rightarrow> 'x \<Rightarrow> string list \<Rightarrow> 'x listen_request" where
  "listen_context queue ctx sentence = (Some ctx, sentence, queue)"

definition listen_args_context :: "nat \<Rightarrow> 'x \<Rightarrow> string list \<Rightarrow> 'x listen_request" where
  "listen_args_context queue ctx sentence = (Some ctx, sentence, queue)"

text \<open>The words a request puts on the wire: its own and its tag; a cancellation names the tag it ends.\<close>

definition tagged :: "string list \<Rightarrow> string \<Rightarrow> string list" where
  "tagged ws tag = ws @ [''.tag='' @ tag]"

definition cancel_words :: "string \<Rightarrow> string list" where
  "cancel_words target = [''/cancel'', ''=tag='' @ target]"

definition listen_cancel :: "string \<Rightarrow> 'x run_request" where
  "listen_cancel tag = run_plain (cancel_words tag)"

definition listen_cancel_context :: "'x \<Rightarrow> string \<Rightarrow> 'x run_request" where
  "listen_cancel_context ctx tag = run_context ctx (cancel_words tag)"

definition cancel_sentence :: "string \<Rightarrow> string \<Rightarrow> string list" where
  "cancel_sentence target tag = [''/cancel'', ''=tag='' @ target, ''.tag='' @ tag]"

text \<open>A listener cancelled by its user and one cancelled by its context send the same command.\<close>

lemma cancels_agree: "tagged (snd (listen_cancel target)) tag = cancel_sentence target tag"
  by (simp add: tagged_def listen_cancel_def run_plain_def run_args_def cancel_words_def cancel_sentence_def)

text \<open>The peer reads a cancellation as the command with its own tag, and the target as its attribute.\<close>

lemma cancel_reads_back:
  assumes "length target < 2 ^ 31" "length tag < 2 ^ 31"
  shows "read_sentence (s\<lparr>pending := sentence_bytes (cancel_sentence target tag) @ rest\<rparr>)
    = (Inr \<lparr>sen_word = ''/cancel'', sen_tag = tag, sen_list = [(''tag'', target)], sen_map = [(''tag'', target)]\<rparr>,
       s\<lparr>pending := rest\<rparr>)"
proof -
  have "sendable (cancel_sentence target tag)"
    using assms by (simp add: sendable_def cancel_sentence_def)
  moreover have "parse_words new_sentence (cancel_sentence target tag)
      = (Inr \<lparr>sen_word = ''/cancel'', sen_tag = tag, sen_list = [(''tag'', target)], sen_map = [(''tag'', target)]\<rparr>, [])"
    by (simp add: cancel_sentence_def word_step_def new_sentence_def cut_pair_def Let_def)
  ultimately show ?thesis by (simp add: read_sentence_refines)
qed

text \<open>Requests never share a tag: the letter says who asked, the counter is never used twice.\<close>

lemma tag_of_inject: "tag_of c n = tag_of d m \<longleftrightarrow> c = d \<and> n = m"
  by (simp add: tag_of_def)

subsection \<open>The error channel\<close>

text \<open>A channel of capacity one with what has been sent on it.\<close>

record errchan =
  esent :: "goerr list"
  eclosed :: bool

definition async_context :: "astate \<Rightarrow> errchan \<times> astate" where
  "async_context s =
     (if aasync s then (\<lparr>esent = [ErrAlreadyAsync], eclosed = True\<rparr>, s)
      else (\<lparr>esent = [], eclosed = False\<rparr>, start_async s))"

text \<open>
  \<open>asyncLoopChan\<close> after the loop has returned its error: it is dropped when the client is closing; the
  deferred close follows.  Neither a send on a closed channel nor a second close happens: \<open>None\<close> would
  be the panic.
\<close>

definition loop_report :: "astate \<Rightarrow> errchan \<Rightarrow> errchan option" where
  "loop_report s ch =
     (case apc s of
        LEnded e \<Rightarrow>
          (if eclosed ch then None
           else Some \<lparr>esent = esent ch @ (if aclosing s then [] else [e]), eclosed = True\<rparr>)
      | _ \<Rightarrow> None)"

text \<open>The loop reports at most one error on the channel its start returned, so the send never blocks.\<close>

lemma loop_reports_once:
  assumes "async_context s0 = (ch, s1)" "\<not> aasync s0" "loop_report s ch = Some ch'"
  shows "length (esent ch') \<le> 1 \<and> eclosed ch' \<and> loop_report s ch' = None
    \<and> (\<forall>e. apc s = LEnded e \<longrightarrow> esent ch' = (if aclosing s then [] else [e]))"
  using assms by (auto simp: async_context_def loop_report_def split: loop_pc.splits if_splits)

subsection \<open>The goroutine that waits for a listener's context\<close>

text \<open>It ends when the context is done or the stop channel is closed: \<open>Some False\<close> is a waiter.\<close>

definition waiting :: "astate \<Rightarrow> string \<Rightarrow> bool" where
  "waiting s t \<longleftrightarrow> (case aprocs s t of None \<Rightarrow> False | Some p \<Rightarrow> pstop p = Some False)"

definition waiter_ok :: "loop_pc \<Rightarrow> string \<Rightarrow> aproc \<Rightarrow> bool" where
  "waiter_ok pc t p \<longleftrightarrow>
     (pkind p = KRun \<longrightarrow> pstop p = None)
     \<and> (pstop p = Some False \<and> (pclosed p \<or> (\<exists>e. leaving pc t e)) \<longrightarrow> (\<exists>e. pc = LEnded e))"

definition sinv :: "astate \<Rightarrow> bool" where
  "sinv s \<longleftrightarrow> (\<forall>t p. aprocs s t = Some p \<longrightarrow> waiter_ok (apc s) t p)"

lemma sinvD: "sinv s \<Longrightarrow> aprocs s t = Some p \<Longrightarrow> waiter_ok (apc s) t p"
  by (simp add: sinv_def)

lemma sinv_same:
  assumes "sinv s" "apc s' = apc s"
    and "\<And>t p'. aprocs s' t = Some p' \<Longrightarrow>
      \<exists>p. aprocs s t = Some p \<and> pkind p' = pkind p \<and> pstop p' = pstop p \<and> pclosed p' = pclosed p"
  shows "sinv s'"
  using assms unfolding sinv_def waiter_ok_def by metis

lemma sinv_pc:
  assumes "sinv s" "aprocs s' = aprocs s" "\<forall>e. apc s \<noteq> LEnded e" "still (apc s')"
  shows "sinv s'"
  using assms by (auto simp: sinv_def still_def waiter_ok_def)

lemma sinv_register:
  assumes "sinv s" "ainv s" "aprocs s t = None" "k = KRun \<longrightarrow> st = None"
    and "apc s' = apc s" "aprocs s' = (aprocs s)(t \<mapsto> new_proc k st)"
  shows "sinv s'"
proof -
  have "\<not> leaving (apc s) t e" for e
    using assms(2,3) by (auto simp: leaving_def ainv_def inv_pc_def inv_open_def)
  then have "waiter_ok (apc s) t (new_proc k st)" using assms(4) by (simp add: waiter_ok_def new_proc_def)
  with assms(1,5,6) show ?thesis by (auto simp: sinv_def)
qed

text \<open>The loop touches one processor; it is not at its end.\<close>

lemma sinv_touch:
  assumes "sinv s" "\<forall>e. apc s \<noteq> LEnded e" "aprocs s' = (aprocs s)(t \<mapsto> p')"
    and "waiter_ok (apc s') t p'" "\<forall>u e. u \<noteq> t \<longrightarrow> \<not> leaving (apc s') u e"
  shows "sinv s'"
  using assms by (auto simp: sinv_def waiter_ok_def)

lemma listen_process_stops:
  assumes "listen_process sen p = Some (v, p')" "fst v \<or> snd v \<noteq> None"
  shows "pstop p' \<noteq> Some False"
  using assms
  by (auto simp: listen_process_def listen_verdict_def close_stop_def Let_def split: if_splits option.splits)

lemma sinv_process:
  assumes "sinv s" "ainv s" "loop_process h s = Some s'"
  shows "sinv s'"
proof -
  obtain sen p where pc: "apc s = LProc sen" and p: "aprocs s (sen_tag sen) = Some p"
    using assms(3) by (auto simp: loop_process_def Let_def split: loop_pc.splits option.splits)
  note open_p = ainv_at_proc [OF assms(2) pc p]
  have ok: "pkind p = KRun \<longrightarrow> pstop p = None" using sinvD [OF assms(1) p] by (simp add: waiter_ok_def)
  have touch: "sinv ((set_proc (sen_tag sen) p' (s\<lparr>ahandled := x\<rparr>))\<lparr>apc := pc'\<rparr>)"
    if "waiter_ok pc' (sen_tag sen) p'" "pc' = LRead \<or> (\<exists>e. pc' = LDel (sen_tag sen) e)" for p' pc' x
    using that pc by (auto intro!: sinv_touch [OF assms(1)] simp: leaving_def)
  show ?thesis
  proof (cases "pkind p")
    case KRun
    obtain v p' where v: "run_process sen p = (v, p')" by fastforce
    with KRun have "pkind p' = KRun" "pstop p' = None"
      using run_process_spec(2) [OF v KRun] ok by (auto simp: run_process_def split: prod.splits)
    then have "waiter_ok (after_process (sen_tag sen) v) (sen_tag sen) p'" by (simp add: waiter_ok_def)
    with touch assms(3) pc p KRun v show ?thesis
      by (auto simp: loop_process_def Let_def after_process_def)
  next
    case (KListen cap)
    show ?thesis
    proof (cases "sen_word sen = ''!re''")
      case True
      with assms(3) pc p KListen open_p obtain p' where d: "deliver h cap sen p = Some p'"
        "s' = (set_proc (sen_tag sen) p' (s\<lparr>ahandled := ahandled s @ [sen]\<rparr>))\<lparr>apc := LRead\<rparr>"
        by (auto simp: loop_process_def Let_def)
      with deliver_spec [OF d(1) KListen True] deliver_kind [OF d(1)] open_p KListen
      have "waiter_ok LRead (sen_tag sen) p'" by (simp add: waiter_ok_def leaving_def)
      with touch d(2) show ?thesis by blast
    next
      case False
      obtain v p' where d: "listen_process sen p = Some (v, p')"
        using listen_process_none [of sen p] open_p by (cases "listen_process sen p") auto
      with assms(3) pc p KListen False
      have s': "s' = (set_proc (sen_tag sen) p' (s\<lparr>ahandled := ahandled s @ [sen]\<rparr>))\<lparr>apc := after_process (sen_tag sen) v\<rparr>"
        by (simp add: loop_process_def Let_def)
      have "waiter_ok (after_process (sen_tag sen) v) (sen_tag sen) p'"
        using listen_process_spec(1) [OF d KListen False] listen_process_kind [OF d] open_p KListen
          listen_process_stops [OF d]
        by (auto simp: waiter_ok_def after_process_def leaving_def)
      with touch s' show ?thesis by (auto simp: after_process_def)
    qed
  qed
qed

lemma sinv_delete:
  assumes "sinv s" "loop_delete s = Some s'"
  shows "sinv s'"
proof -
  obtain t e where "apc s = LDel t e" "aprocs s' = aprocs s" "apc s' = LClose t e"
    using assms(2) by (auto simp: loop_delete_def split: loop_pc.splits)
  with assms(1) show ?thesis by (auto simp: sinv_def waiter_ok_def leaving_def)
qed

lemma sinv_close:
  assumes "sinv s" "ainv s" "loop_close s = Some s'"
  shows "sinv s'"
proof -
  obtain t e where pc: "apc s = LClose t e" using assms(3) by (auto simp: loop_close_def split: loop_pc.splits)
  with assms(2) obtain p where p: "aprocs s t = Some p" "\<not> pclosed p" by (auto simp: ainv_def inv_pc_def)
  then obtain p' where p': "close_proc e p = Some p'" by (simp add: close_proc_def)
  have s': "s' = (set_proc t p' s)\<lparr>apc := LRead\<rparr>" using assms(3) pc p p' by (simp add: loop_close_def)
  have "waiter_ok (LClose t e) t p" using sinvD [OF assms(1) p(1)] pc by simp
  then have "waiter_ok LRead t p'"
    using p' p(2) by (auto simp: waiter_ok_def leaving_def close_proc_def)
  with pc show ?thesis by (auto intro!: sinv_touch [OF assms(1)] simp: s' leaving_def)
qed

lemma sinv_close_tags:
  assumes "sinv s" "loop_close_tags s = Some s'"
  shows "sinv s'"
  unfolding sinv_def
proof (intro allI impI)
  fix t q
  assume q: "aprocs s' t = Some q"
  obtain e where pc: "apc s = LFail e" "apc s' = LEnded e"
    using assms(2) by (auto simp: loop_close_tags_def split: loop_pc.splits)
  obtain p where "aprocs s t = Some p" "pkind q = pkind p" "pstop q = pstop p"
    using assms(2) pc q by (auto simp: loop_close_tags_def close_proc_def split: if_splits)
  with sinvD [OF assms(1)] pc show "waiter_ok (apc s') t q" by (auto simp: waiter_ok_def)
qed

lemma sinv_run_commit:
  assumes "sinv s" "ainv s" "run_commit w s = Some s'"
  shows "sinv s'"
proof -
  obtain t where h: "awriter s = Some (HRun t)"
    using assms(3) by (auto simp: run_commit_def split: option.splits holder.splits)
  then have n: "aprocs s t = None" using assms(2) by (auto simp: ainv_def inv_tags_def)
  from h assms(3) consider x where "s' = s\<lparr>awriter := x\<rparr>"
    | "s' = register t (new_proc KRun None) (s\<lparr>awriter := None\<rparr>)"
    by (auto simp: run_commit_def split: if_splits)
  then show ?thesis
    by cases (auto intro: sinv_same [OF assms(1)] sinv_register [OF assms(1,2) n] simp: register_proc)
qed

lemma sinv_listen_commit:
  assumes "sinv s" "ainv s" "listen_commit w s = Some s'"
  shows "sinv s'"
proof -
  obtain t n st where h: "awriter s = Some (HListen t n st)"
    using assms(3) by (auto simp: listen_commit_def split: option.splits holder.splits)
  then have n: "aprocs s t = None" using assms(2) by (auto simp: ainv_def inv_tags_def)
  from h assms(3) consider x where "s' = s\<lparr>awriter := x\<rparr>"
    | "s' = register t (new_proc (KListen n) st) (s\<lparr>awriter := None\<rparr>)"
    by (auto simp: listen_commit_def split: if_splits)
  then show ?thesis
    by cases (auto intro: sinv_same [OF assms(1)] sinv_register [OF assms(1,2) n] simp: register_proc)
qed

lemma sinv_cancel_tag:
  assumes "sinv s" "ainv s"
  shows "sinv (cancel_tag s)"
proof -
  let ?t = "tag_of CHR ''c'' (Suc (anext s))"
  have n: "aprocs s ?t = None" using assms(2) fresh_tag by (auto simp: ainv_def inv_tags_def)
  show ?thesis
  proof (cases "atags s")
    case None
    then have "cancel_tag s = s\<lparr>anext := Suc (anext s)\<rparr>" by (simp add: cancel_tag_def Let_def)
    with assms(1) show ?thesis by (auto intro: sinv_same)
  next
    case (Some ts)
    have "sinv (register ?t (new_proc KRun None) (s\<lparr>anext := Suc (anext s), acancels := acancels s @ [?t]\<rparr>))"
      by (rule sinv_register [OF assms n]) (simp_all add: register_proc)
    with Some show ?thesis by (simp add: cancel_tag_def Let_def)
  qed
qed

lemma sinv_step:
  assumes "sinv s" "ainv s" "astep e s = Some s'"
  shows "sinv s'"
proof (cases e)
  case EvAsync
  with assms show ?thesis
    by (auto simp: start_async_def ainv_def inv_loop_def split: if_splits intro: sinv_pc [OF assms(1)])
next
  case (EvReceive t)
  with assms(3) show ?thesis
    by (auto simp: receive_def split: option.splits list.splits if_splits intro!: sinv_same [OF assms(1)])
next
  case (EvRead r)
  with assms(3) show ?thesis
    by (auto simp: loop_read_def split: if_splits sum.splits intro!: sinv_pc [OF assms(1)])
next
  case EvLookup
  with assms(3) show ?thesis
    by (auto simp: loop_lookup_def split: loop_pc.splits intro!: sinv_pc [OF assms(1)])
next
  case EvRunBegin
  with assms(3) show ?thesis by (auto simp: run_begin_def split: if_splits intro!: sinv_same [OF assms(1)])
next
  case (EvListenBegin n c)
  with assms(3) show ?thesis by (auto simp: listen_begin_def split: if_splits intro!: sinv_same [OF assms(1)])
next
  case (EvCancelWrite t)
  with assms(3) show ?thesis by (auto simp: cancel_write_def split: if_splits intro!: sinv_same [OF assms(1)])
next
  case EvClose
  with assms(3) show ?thesis by (auto intro!: sinv_same [OF assms(1)])
next
  case EvCancelTag
  with assms show ?thesis by (auto intro: sinv_cancel_tag)
qed (use assms in \<open>auto dest: sinv_run_commit sinv_listen_commit sinv_process sinv_delete sinv_close sinv_close_tags\<close>)

lemma areach_sinv: "areach s \<Longrightarrow> sinv s"
proof (induction rule: areach.induct)
  case reach_init
  show ?case by (simp add: sinv_def async_init_def)
next
  case (reach_next s e s')
  then show ?case by (auto elim!: atransE intro: sinv_step areach_ainv)
qed

text \<open>
  The end of the loop closes the reply channels but no stop channel: a listener that was still open keeps
  its goroutine until its context is done.
\<close>

lemma listener_waiter_outlives_loop:
  "sample_check sample_run (\<lambda>s. apc s = LEnded IoEOF \<and> waiting s ''l2''
     \<and> (case aprocs s ''l2'' of None \<Rightarrow> False | Some p \<Rightarrow> pclosed p))"
  by code_simp

subsection \<open>Properties\<close>

text \<open>C37: No goroutine is left behind while the connection lives: as long as the loop has not ended, a
listener whose channel is closed, or is about to be closed, has released the goroutine that waits for its
context.\<close>

theorem listener_releases_waiter:
  assumes "areach s" "\<forall>e. apc s \<noteq> LEnded e" "aprocs s t = Some p"
    and "pclosed p \<or> (\<exists>e. apc s = LDel t e) \<or> (\<exists>e. apc s = LClose t e)"
  shows "\<not> waiting s t"
  using sinvD [OF areach_sinv [OF assms(1)] assms(3)] assms(2-4)
  by (auto simp: waiting_def waiter_ok_def leaving_def)

lemma listener_releases_waiter_witness:
  "\<exists>s p. areach s \<and> aprocs s ''l1'' = Some p \<and> pclosed p \<and> pstop p = Some True \<and> \<not> waiting s ''l1''"
proof -
  have "sample_check [EvAsync, EvListenBegin 1 True, EvListenCommit None,
      EvRead (Inr (sample_sentence ''!done'' ''l1'')), EvLookup, EvProcess False, EvDelete, EvCloseReply]
    (\<lambda>s. apc s = LRead \<and> (case aprocs s ''l1'' of None \<Rightarrow> False
        | Some p \<Rightarrow> pclosed p \<and> pstop p = Some True))"
    by code_simp
  then obtain s where s: "areach s" "apc s = LRead" "case aprocs s ''l1'' of None \<Rightarrow> False
      | Some p \<Rightarrow> pclosed p \<and> pstop p = Some True"
    by (rule sample_reach) blast
  then obtain p where p: "aprocs s ''l1'' = Some p" "pclosed p" "pstop p = Some True"
    by (cases "aprocs s ''l1''") simp_all
  from listener_releases_waiter [OF s(1) _ p(1)] s(1,2) p show ?thesis by auto
qed

end
