(* ===== verification/Cut_Calls.thy ===== *)
theory Cut_Calls
  imports Client_Sync
begin

text \<open>
  Calls that \<open>Close\<close> or \<open>Cancel\<close> overtakes (\<open>run.go\<close> over \<open>proto/io_context.go\<close>).  Once the \<open>done\<close> channel is
  ready the select of \<open>ctxWriter.Write\<close> and of \<open>ctxReader.Read\<close> may go either way, at every write and at
  every read: a call is cut at one of its writes, at one of its reads, or not at all.  The first write
  that is interrupted is an index into the writes of the sentence, the first read a number of bytes.
\<close>

subsection \<open>Cut writes\<close>

text \<open>The writes of \<open>WriteWord\<close>: for every word its length and its bytes.\<close>

definition word_writes :: "string \<Rightarrow> byte list list" where
  "word_writes x = [encode_length (word_of_nat (length (to_bytes x))), to_bytes x]"

definition sentence_writes :: "string list \<Rightarrow> byte list list" where
  "sentence_writes ws = concat (map word_writes ws)"

text \<open>The writes before the \<open>k\<close>-th go through, that one and the later ones are interrupted.\<close>

definition write_until :: "nat \<Rightarrow> byte list list \<Rightarrow> writer \<Rightarrow> writer" where
  "write_until k cs w = fold (write_bytes True) (drop k cs) (fold (write_bytes False) (take k cs) w)"

definition end_until :: "nat \<Rightarrow> writer \<Rightarrow> goerr option \<times> writer" where
  "end_until k w =
     (let w' = flush_writer (write_until k (word_writes []) w) in (werr w', w'\<lparr>wlocked := False\<rparr>))"

lemma write_words_writes: "write_words intr ws w = fold (write_bytes intr) (sentence_writes ws) w"
  by (induction ws arbitrary: w) (simp_all add: write_words_def sentence_writes_def word_writes_def write_word_def Let_def)

lemma write_until_whole: "length cs \<le> k \<Longrightarrow> write_until k cs w = fold (write_bytes False) cs w"
  by (simp add: write_until_def)

lemma end_until_whole: "2 \<le> k \<Longrightarrow> end_until k w = end_sentence False w"
  by (simp add: end_until_def end_sentence_def write_until_whole word_writes_def write_word_def Let_def)

lemma write_bytes_cut: "werr (write_bytes True b w) \<noteq> None"
  by (auto simp: write_bytes_def ctx_write_def split: option.split prod.split)

lemma writes_keep_error: "werr w \<noteq> None \<Longrightarrow> fold (write_bytes intr) cs w = w"
  by (induction cs) (auto simp: write_bytes_sticky)

lemma write_until_locked [simp]: "wlocked (write_until k cs w) = wlocked w"
proof -
  have "wlocked (fold (write_bytes intr) cs' w') = wlocked w'" for intr cs' w'
    by (induction cs' arbitrary: w') simp_all
  then show ?thesis by (simp add: write_until_def)
qed

text \<open>A cut write is an error that stays; without an error nothing has been cut.\<close>

lemma write_until_cut: "k < length cs \<Longrightarrow> werr (write_until k cs w) \<noteq> None"
proof -
  assume "k < length cs"
  then obtain c cs' where "drop k cs = c # cs'" by (metis Cons_nth_drop_Suc)
  with write_bytes_cut writes_keep_error show ?thesis by (simp add: write_until_def)
qed

lemma writes_ok:
  "werr (fold (write_bytes intr) cs w) = None \<Longrightarrow>
     werr w = None \<and> wire (fold (write_bytes intr) cs w) = wire w @ concat cs"
proof (induction cs arbitrary: w)
  case (Cons c cs)
  then have "werr (write_bytes intr c w) = None \<and>
      wire (fold (write_bytes intr) (c # cs) w) = wire (write_bytes intr c w) @ concat cs" by simp
  with write_bytes_ok [of intr c w] show ?case by simp
qed simp

lemma write_until_ok:
  assumes "werr (write_until k cs w) = None"
  shows "werr w = None \<and> length cs \<le> k \<and> wire (write_until k cs w) = wire w @ concat cs"
proof -
  from assms write_until_cut have "length cs \<le> k" by (metis not_le)
  with assms writes_ok [of False cs w] show ?thesis by (simp add: write_until_whole)
qed

text \<open>Whatever is cut, what has been accepted is a prefix of the sentence.\<close>

lemma take_min_self: "take (min j (length c)) c = take j c"
  by (simp add: min_def)

lemma take_min_append: "take (min j (length c)) (c @ d) = take j c"
  by (simp add: min_def)

lemma write_bytes_prefix: "\<exists>j. wire (write_bytes intr b w) = wire w @ take j b"
proof (cases "werr w")
  case None
  obtain r bw where bw: "buf_write b (wbuf w) = (r, bw)" by force
  then have "\<exists>j. accepted bw = accepted (wbuf w) @ take j b"
    by (cases r) (auto dest!: buf_write_accepted buf_write_error intro: exI [of _ "length b"])
  with None bw show ?thesis
    by (auto simp: write_bytes_def ctx_write_def wire_def split: option.split)
qed (auto simp: write_bytes_sticky intro: exI [of _ 0])

lemma writes_prefix: "\<exists>j. wire (fold (write_bytes intr) cs w) = wire w @ take j (concat cs)"
proof (induction cs arbitrary: w)
  case (Cons c cs)
  show ?case
  proof (cases "werr (write_bytes intr c w)")
    case None
    with write_bytes_ok [of intr c w] have "wire (write_bytes intr c w) = wire w @ c" by simp
    moreover obtain j where "wire (fold (write_bytes intr) cs (write_bytes intr c w))
        = wire (write_bytes intr c w) @ take j (concat cs)" using Cons.IH by blast
    ultimately show ?thesis by (intro exI [of _ "length c + j"]) (simp add: take_add)
  next
    case (Some e)
    obtain j where "wire (write_bytes intr c w) = wire w @ take j c" using write_bytes_prefix by blast
    with Some writes_keep_error [of "write_bytes intr c w" intr cs] show ?thesis
      by (intro exI [of _ "min j (length c)"]) (simp add: take_min_self)
  qed
qed (auto intro: exI [of _ 0])

lemma write_until_prefix: "\<exists>j. wire (write_until k cs w) = wire w @ take j (concat cs)"
proof (cases "werr (fold (write_bytes False) (take k cs) w)")
  case None
  with writes_ok [of False "take k cs" w]
  have 1: "wire (fold (write_bytes False) (take k cs) w) = wire w @ concat (take k cs)" by simp
  obtain j where "wire (write_until k cs w)
      = wire (fold (write_bytes False) (take k cs) w) @ take j (concat (drop k cs))"
    unfolding write_until_def using writes_prefix by blast
  moreover have "concat cs = concat (take k cs) @ concat (drop k cs)"
    by (metis append_take_drop_id concat_append)
  ultimately show ?thesis
    using 1 by (intro exI [of _ "length (concat (take k cs)) + j"]) (simp add: take_add)
next
  case (Some e)
  obtain j where "wire (fold (write_bytes False) (take k cs) w) = wire w @ take j (concat (take k cs))"
    using writes_prefix by blast
  moreover have "concat cs = concat (take k cs) @ concat (drop k cs)"
    by (metis append_take_drop_id concat_append)
  then have "take j (concat (take k cs)) = take (min j (length (concat (take k cs)))) (concat cs)"
    by (metis take_min_append)
  ultimately show ?thesis
    using Some writes_keep_error [of "fold (write_bytes False) (take k cs) w" True "drop k cs"]
    by (auto simp: write_until_def)
qed

lemma flush_writer_wire: "wire (flush_writer w) = wire w"
  by (auto simp: flush_writer_def wire_def dest: buf_flush_accepted split: option.split prod.split)

lemma flush_writer_error: "werr w \<noteq> None \<Longrightarrow> flush_writer w = w"
  by (auto simp: flush_writer_def)

subsection \<open>Cut reads\<close>

text \<open>
  The reads up to the \<open>n\<close>-th byte go through, the next one is interrupted and reports \<open>io.EOF\<close>.  What is
  left of a stream after an interrupted read is of no account: nothing is decoded from it any more.
\<close>

definition cut_stream :: "nat option \<Rightarrow> stream \<Rightarrow> stream" where
  "cut_stream lim s =
     (case lim of None \<Rightarrow> s | Some n \<Rightarrow> \<lparr>pending = take n (pending s), fin = IoEOF\<rparr>)"

definition rejoin :: "nat option \<Rightarrow> stream \<Rightarrow> stream \<Rightarrow> stream" where
  "rejoin lim s s' =
     (case lim of None \<Rightarrow> s' | Some n \<Rightarrow> prolong (drop n (pending s)) (fin s) s')"

lemma prolong_cut: "prolong (drop n (pending s)) (fin s) (cut_stream (Some n) s) = s"
  by (simp add: prolong_def cut_stream_def)

lemma read_sentence_cut:
  assumes "read_sentence (cut_stream lim s) = (Inr sen, s')"
  shows "read_sentence s = (Inr sen, rejoin lim s s')"
  using assms read_sentence_prolong [of "cut_stream lim s" sen s' "drop (the lim) (pending s)" "fin s"]
    prolong_cut [of "the lim" s]
  by (cases lim) (simp_all add: rejoin_def cut_stream_def)

lemma sync_loop_prolong:
  "sync_loop out e0 s = ((Some r, e), s') \<Longrightarrow> sync_loop out e0 (prolong m f s) = ((Some r, e), prolong m f s')"
proof (induction out e0 s rule: sync_loop.induct)
  case (1 out e0 s)
  obtain sen s1 where rd: "read_sentence s = (Inr sen, s1)"
    using "1.prems" by (subst (asm) sync_loop.simps) (auto split: prod.splits sum.splits)
  obtain d x out' where pr: "process_reply sen out = ((d, x), out')" by (metis surj_pair)
  note rd' = read_sentence_prolong [OF rd, of m f]
  note IH = "1.IH" [OF rd [symmetric] refl pr [symmetric] refl]
  show ?case
  proof (cases d)
    case True
    with "1.prems" rd pr have "x = None" "r = out'" "e = e0" "s' = s1"
      by (subst (asm) sync_loop.simps, cases x, simp_all)+
    with True rd' pr show ?thesis by (subst sync_loop.simps) simp
  next
    case False
    show ?thesis
    proof (cases x)
      case None
      with "1.prems" rd pr False have "sync_loop out' e0 s1 = ((Some r, e), s')"
        by (subst (asm) sync_loop.simps) simp
      with IH(1) False None rd' pr show ?thesis by (subst sync_loop.simps) simp
    next
      case (Some y)
      with "1.prems" rd pr False have "sync_loop out' (Some y) s1 = ((Some r, e), s')"
        by (subst (asm) sync_loop.simps) simp
      with IH(2) False Some rd' pr show ?thesis by (subst sync_loop.simps) simp
    qed
  qed
qed

lemma sync_loop_cut:
  assumes "sync_loop out e0 (cut_stream lim s) = ((Some r, e), s')"
  shows "sync_loop out e0 s = ((Some r, e), rejoin lim s s')"
  using assms sync_loop_prolong [of out e0 "cut_stream lim s" r e s' "drop (the lim) (pending s)" "fin s"]
    prolong_cut [of "the lim" s]
  by (cases lim) (simp_all add: rejoin_def cut_stream_def)

subsection \<open>Cut calls\<close>

text \<open>\<open>RunArgsContext\<close> of the synchronous client, cut at write \<open>k\<close> or at byte \<open>n\<close> of the answer.\<close>

definition cut_exchange ::
  "nat \<Rightarrow> nat option \<Rightarrow> string list \<Rightarrow> client \<Rightarrow> (reply option \<times> goerr option) \<times> client" where
  "cut_exchange k lim ws c =
     (case end_until (k - length (sentence_writes ws)) (write_until k (sentence_writes ws) (cw c)) of
        (Some e, w') \<Rightarrow> ((None, Some e), c\<lparr>cw := w'\<rparr>)
      | (None, w') \<Rightarrow>
          (let (r, s') = sync_loop empty_reply None (cut_stream lim (cr c)) in
           (r, c\<lparr>cw := w', cr := rejoin lim (cr c) s'\<rparr>)))"

definition cut_run :: "nat \<Rightarrow> nat option \<Rightarrow> string list \<Rightarrow> client \<Rightarrow> run_outcome \<times> client" where
  "cut_run k lim ws c =
     (case begin_sentence (cw c) of
        None \<Rightarrow> (Blocks, c)
      | Some w1 \<Rightarrow> (let (r, c') = cut_exchange k lim ws (c\<lparr>cw := w1\<rparr>) in (Returns r, c')))"

lemma end_until_result:
  assumes "end_until k' (write_until k cs w) = (e, w')"
  shows "\<not> wlocked w' \<and> werr w' = e \<and> (e = None \<longrightarrow> werr (write_until k' (word_writes []) (write_until k cs w)) = None)"
proof -
  have "werr w = None" if "werr (flush_writer w) = None" for w
    using that flush_writer_ok by blast
  with assms show ?thesis by (auto simp: end_until_def Let_def)
qed

lemma sentence_bytes_writes: "sentence_bytes ws = concat (sentence_writes ws) @ concat (word_writes [])"
proof -
  have "concat (sentence_writes ws) = concat (map word_bytes ws)"
    by (induction ws) (simp_all add: sentence_writes_def word_writes_def word_bytes_def)
  then show ?thesis by (simp add: sentence_bytes_def word_writes_def word_bytes_def)
qed

lemma cut_exchange_honest:
  assumes "cut_exchange k lim ws c = ((r, e), c')"
  shows "r = None \<and> e \<noteq> None \<or> (\<exists>c0. sync_exchange ws c = ((r, e), c0) \<and> cw c0 = cw c' \<and> cr c0 = cr c')"
proof -
  let ?k = "k - length (sentence_writes ws)" and ?w = "write_until k (sentence_writes ws) (cw c)"
  obtain err w' where eu: "end_until ?k ?w = (err, w')" by force
  show ?thesis
  proof (cases err)
    case (Some x)
    with assms eu show ?thesis by (auto simp: cut_exchange_def)
  next
    case None
    with end_until_result [OF eu] write_until_ok [of ?k "word_writes []" ?w]
    have w: "werr ?w = None" "2 \<le> ?k" by (auto simp: word_writes_def)
    with write_until_ok [of k "sentence_writes ws" "cw c"] have "length (sentence_writes ws) \<le> k" by simp
    then have "?w = write_words False ws (cw c)" by (simp add: write_until_whole write_words_writes)
    with eu None w(2) have es: "end_sentence False (write_words False ws (cw c)) = (None, w')"
      by (simp add: end_until_whole)
    obtain s' where sl: "sync_loop empty_reply None (cut_stream lim (cr c)) = ((r, e), s')"
      and c': "c' = c\<lparr>cw := w', cr := rejoin lim (cr c) s'\<rparr>"
      using assms eu None by (auto simp: cut_exchange_def split: prod.splits)
    show ?thesis
    proof (cases r)
      case None
      with sync_loop_result [OF sl] show ?thesis by simp
    next
      case (Some rep)
      with sl sync_loop_cut have "sync_loop empty_reply None (cr c) = ((r, e), rejoin lim (cr c) s')" by blast
      with es c' show ?thesis by (auto simp: sync_exchange_def)
    qed
  qed
qed

lemma cut_exchange_writer:
  assumes "cut_exchange k lim ws c = (r, c')"
  shows "\<not> wlocked (cw c') \<and> (\<exists>j. wire (cw c') = wire (cw c) @ take j (sentence_bytes ws))"
proof -
  let ?k = "k - length (sentence_writes ws)" and ?w = "write_until k (sentence_writes ws) (cw c)"
  obtain err w' where eu: "end_until ?k ?w = (err, w')" by force
  with assms have c': "cw c' = w'" by (auto simp: cut_exchange_def split: option.splits prod.splits)
  have w': "wire w' = wire (write_until ?k (word_writes []) ?w)"
    using eu flush_writer_wire [of "write_until ?k (word_writes []) ?w"]
    by (auto simp: end_until_def Let_def wire_def)
  have "\<exists>j. wire w' = wire (cw c) @ take j (sentence_bytes ws)"
  proof (cases "werr ?w")
    case None
    with write_until_ok [of k "sentence_writes ws" "cw c"]
    have "wire ?w = wire (cw c) @ concat (sentence_writes ws)" by simp
    moreover obtain j where "wire w' = wire ?w @ take j (concat (word_writes []))"
      using w' write_until_prefix [of ?k "word_writes []" ?w] by auto
    ultimately show ?thesis
      by (intro exI [of _ "length (concat (sentence_writes ws)) + j"]) (simp add: sentence_bytes_writes take_add)
  next
    case (Some x)
    then have "wire w' = wire ?w" using w' by (simp add: write_until_def writes_keep_error)
    moreover obtain j where "wire ?w = wire (cw c) @ take j (concat (sentence_writes ws))"
      using write_until_prefix by blast
    ultimately show ?thesis
      by (intro exI [of _ "min j (length (concat (sentence_writes ws)))"])
        (simp add: sentence_bytes_writes take_min_self)
  qed
  with end_until_result [OF eu] c' show ?thesis by simp
qed

subsection \<open>Properties\<close>

text \<open>C15: \<open>Close\<close> never corrupts a call: wherever it is cut, a call returns, frees the writer, and either gives
exactly the result it would have given, or an error and no reply; what it has put on the wire is a prefix
of its sentence.\<close>

theorem cut_calls_are_honest:
  assumes "\<not> wlocked (cw c)"
  shows "\<exists>r e c'. cut_run k lim ws c = (Returns (r, e), c') \<and> \<not> wlocked (cw c')
    \<and> (r = None \<and> e \<noteq> None \<or> fst (run_sync ws c) = Returns (r, e))
    \<and> (\<exists>j. wire (cw c') = wire (cw c) @ take j (sentence_bytes ws))"
proof -
  let ?c = "c\<lparr>cw := (cw c)\<lparr>wlocked := True\<rparr>\<rparr>"
  obtain r e c' where ex: "cut_exchange k lim ws ?c = ((r, e), c')" by (metis surj_pair)
  with assms have "cut_run k lim ws c = (Returns (r, e), c')" by (simp add: cut_run_def begin_sentence_def)
  moreover have "r = None \<and> e \<noteq> None \<or> fst (run_sync ws c) = Returns (r, e)"
    using cut_exchange_honest [OF ex] assms by (auto simp: run_sync_def begin_sentence_def)
  moreover have "wire (cw ?c) = wire (cw c)" by (simp add: wire_def)
  ultimately show ?thesis using cut_exchange_writer [OF ex] by metis
qed

lemma cut_calls_are_honest_witness:
  "\<exists>c'. cut_run 9 (Some 3) [''/x''] sample_client = (Returns (None, Some IoUnexpectedEOF), c') \<and> \<not> wlocked (cw c')"
proof -
  have "\<not> wlocked (cw sample_client)" by (simp add: sample_client_def new_client_def new_writer_def)
  from cut_calls_are_honest [OF this, of 9 "Some 3" "[''/x'']"] obtain r c' where
    "cut_run 9 (Some 3) [''/x''] sample_client = (Returns r, c')" "\<not> wlocked (cw c')" by auto
  moreover have "fst (cut_run 9 (Some 3) [''/x''] sample_client) = Returns (None, Some IoUnexpectedEOF)"
    by code_simp
  ultimately show ?thesis by auto
qed

text \<open>A call cut before anything is written leaves nothing on the wire.\<close>

lemma cut_at_once:
  "fst (cut_run 0 None [''/x''] sample_client) = Returns (None, Some IoEOF)"
  by code_simp

end
