(* ===== verification/Transport_Contract.thy ===== *)
theory Transport_Contract
  imports Go_Errors
begin

text \<open>
  \<open>transport/contract.go\<close>: the canonical command, its renderings as a console line and as a sentence
  of words, the canonical reply, and the seams a transport offers.  A seam method takes the state of
  the transport and a context and returns a result or an error together with the new state.
\<close>

subsection \<open>Replies\<close>

datatype reply_type = ReplyRe | ReplyDone | ReplyTrap | ReplyFatal | ReplyEmpty | ReplyOther string

fun reply_type_string :: "reply_type \<Rightarrow> string" where
  "reply_type_string ReplyRe = ''!re''"
| "reply_type_string ReplyDone = ''!done''"
| "reply_type_string ReplyTrap = ''!trap''"
| "reply_type_string ReplyFatal = ''!fatal''"
| "reply_type_string ReplyEmpty = ''!empty''"
| "reply_type_string (ReplyOther s) = s"

definition reply_type_of :: "string \<Rightarrow> reply_type" where
  "reply_type_of s =
     (if s = ''!re'' then ReplyRe else if s = ''!done'' then ReplyDone
      else if s = ''!trap'' then ReplyTrap else if s = ''!fatal'' then ReplyFatal
      else if s = ''!empty'' then ReplyEmpty else ReplyOther s)"

lemma reply_type_string_of [simp]: "reply_type_string (reply_type_of s) = s"
  by (simp add: reply_type_of_def)

record treply =
  rtype :: reply_type
  rattrs :: attrs
  rtag :: string
  rwords :: "string list"

definition reply_ret :: "treply \<Rightarrow> string" where
  "reply_ret r = gomap_str (rattrs r) ''ret''"

definition reply_message :: "treply \<Rightarrow> string" where
  "reply_message r = gomap_str (rattrs r) ''message''"

subsection \<open>Commands\<close>

record command =
  cpath :: string
  cverb :: string
  cattrs :: attrs
  cqueries :: "string list"
  cproplist :: "string list"
  cscript :: string

definition script_command :: "string \<Rightarrow> command" where
  "script_command s =
     \<lparr>cpath = [], cverb = [], cattrs = [], cqueries = [], cproplist = [], cscript = s\<rparr>"

definition path_tokens :: "string \<Rightarrow> string list" where
  "path_tokens p = fields_func (\<lambda>c. c = CHR ''/'') p"

definition quote_cli_value :: "string \<Rightarrow> string" where
  "quote_cli_value v =
     (if \<not> contains_any v [CHR '' '', CHR 0x09, CHR 0x22] then v
      else [CHR 0x22] @ replace_all v [CHR 0x22] [CHR 0x5C, CHR 0x22] @ [CHR 0x22])"

text \<open>The loops of \<open>CLI\<close>, \<open>ConsoleCLI\<close> and \<open>Words\<close> over attributes, queries and proplist.\<close>

definition cli_tail :: "command \<Rightarrow> string" where
  "cli_tail c =
     concat (map (\<lambda>k. '' '' @ k @ ''='' @ quote_cli_value (gomap_str (cattrs c) k))
               (sorted_keys (cattrs c)))
     @ concat (map (\<lambda>q. '' ?'' @ q) (cqueries c))
     @ (if cproplist c \<noteq> [] then '' .proplist='' @ go_join (cproplist c) '','' else [])"

definition cli :: "command \<Rightarrow> string" where
  "cli c =
     (if cscript c \<noteq> [] then cscript c
      else cpath c @ (if cverb c \<noteq> [] then ''/'' @ cverb c else []) @ cli_tail c)"

definition console_cli :: "command \<Rightarrow> string" where
  "console_cli c =
     (if cscript c \<noteq> [] then cscript c
      else ''/'' @ go_join (path_tokens (cpath c)) '' ''
           @ (if cverb c \<noteq> [] then '' '' @ cverb c else []) @ cli_tail c)"

definition words :: "command \<Rightarrow> string list" where
  "words c =
     (if cscript c \<noteq> [] then [''/execute'', ''=script='' @ cscript c, ''=as-string='']
      else
        [if cverb c \<noteq> [] then trim_right (cpath c) ''/'' @ ''/'' @ cverb c else cpath c]
        @ map (\<lambda>k. ''='' @ k @ ''='' @ gomap_str (cattrs c) k) (sorted_keys (cattrs c))
        @ map (\<lambda>q. ''?'' @ q) (cqueries c)
        @ (if cproplist c \<noteq> [] then [''.proplist='' @ go_join (cproplist c) '',''] else []))"

subsection \<open>Contexts, capabilities and inspect nodes\<close>

text \<open>The context of a call, as its \<open>Err()\<close> when the operation looks: \<open>None\<close> while it is live.\<close>

type_synonym ctx = "goerr option"

record capabilities =
  structured :: bool
  console :: bool
  inspect_cap :: bool

datatype inspect_kind = InspectChild | InspectCompletion

fun inspect_kind_string :: "inspect_kind \<Rightarrow> string" where
  "inspect_kind_string InspectChild = ''child''"
| "inspect_kind_string InspectCompletion = ''completion''"

record inspect_node =
  ntype :: string
  nnode_type :: string
  nname :: string
  ncompletion :: string
  nvalue :: string
  ntext :: string

type_synonym ('t, 'a) seam = "'t \<Rightarrow> (goerr + 'a) \<times> 't"
type_synonym 't command_fn = "ctx \<Rightarrow> command \<Rightarrow> ('t, treply) seam"
type_synonym 't inspect_fn = "ctx \<Rightarrow> inspect_kind \<Rightarrow> string \<Rightarrow> ('t, inspect_node list) seam"
type_synonym 't run_fn = "ctx \<Rightarrow> string \<Rightarrow> ('t, string) seam"

subsection \<open>Rendering is deterministic\<close>

lemma gomap_str_cong: "map_of m = map_of m' \<Longrightarrow> gomap_str m k = gomap_str m' k"
  by (simp add: gomap_str_def)

lemma words_order_independent:
  assumes "gomap_ok m" "gomap_ok m'" "map_of m = map_of m'"
  shows "words (c\<lparr>cattrs := m\<rparr>) = words (c\<lparr>cattrs := m'\<rparr>)
       \<and> cli (c\<lparr>cattrs := m\<rparr>) = cli (c\<lparr>cattrs := m'\<rparr>)
       \<and> console_cli (c\<lparr>cattrs := m\<rparr>) = console_cli (c\<lparr>cattrs := m'\<rparr>)"
  using sorted_keys_order_independent [OF assms] gomap_str_cong [OF assms(3)]
  by (simp add: words_def cli_def console_cli_def cli_tail_def)

subsection \<open>Quoting of console values\<close>

text \<open>What the console reads back from a quoted value: a backslash takes the next character.\<close>

fun unescape :: "string \<Rightarrow> string" where
  "unescape [] = []"
| "unescape (c # d # s) = (if c = CHR 0x5C then d # unescape s else c # unescape (d # s))"
| "unescape [c] = [c]"

lemma unescape_plain: "c \<noteq> CHR 0x5C \<Longrightarrow> unescape (c # s) = c # unescape s"
  by (cases s) simp_all

lemma unescape_escape_quotes:
  "CHR 0x5C \<notin> set v \<Longrightarrow>
     unescape (concat (map (\<lambda>c. if c = CHR 0x22 then [CHR 0x5C, CHR 0x22] else [c]) v)) = v"
  by (induction v) (auto simp: unescape_plain)

lemma contains_any_iff: "contains_any s cs \<longleftrightarrow> (\<exists>c \<in> set s. c \<in> set cs)"
  by (simp add: contains_any_def list_ex_iff)

subsection \<open>Properties\<close>

text \<open>The wire form and both console forms of a command are functions of its attribute map: they do
not depend on the iteration order of the Go map.\<close>

lemma rendering_deterministic:
  assumes "gomap_ok m" "gomap_ok m'" "map_of m = map_of m'"
  shows "words (c\<lparr>cattrs := m\<rparr>) = words (c\<lparr>cattrs := m'\<rparr>)
       \<and> cli (c\<lparr>cattrs := m\<rparr>) = cli (c\<lparr>cattrs := m'\<rparr>)
       \<and> console_cli (c\<lparr>cattrs := m\<rparr>) = console_cli (c\<lparr>cattrs := m'\<rparr>)"
  using words_order_independent [OF assms] .

text \<open>A quoted console value without backslashes is read back as the value: an unquoted one has no
blank and no quote, a quoted one unescapes to the original.\<close>

lemma quoted_value_reads_back:
  assumes "CHR 0x5C \<notin> set v"
  shows "quote_cli_value v = v \<and> \<not> contains_any v [CHR '' '', CHR 0x09, CHR 0x22]
       \<or> (\<exists>body. quote_cli_value v = [CHR 0x22] @ body @ [CHR 0x22] \<and> unescape body = v)"
  using unescape_escape_quotes [OF assms]
  by (simp add: quote_cli_value_def replace_all_single)

end
