(* ===== verification/Regexp.thy ===== *)
theory Regexp
  imports Prelude
begin

text \<open>
  The part of Go's \<open>regexp\<close> the gates use: literals with and without case folding, greedy repetition
  of a character class, groups, alternation and the multi-line \<open>^\<close>, with leftmost-first matching.  A
  matcher returns its successes in the order of preference, so the first one is the one Go reports.
  Matching runs over bytes: every class here is either an ASCII set or the complement of one, and no
  part of a pattern can begin inside an encoded rune, so bytes and runes give the same matches.
\<close>

datatype charset =
    Blank | White | NonWhite | Digit | NoParen | NoParenLine

fun in_class :: "charset \<Rightarrow> char \<Rightarrow> bool" where
  "in_class Blank c \<longleftrightarrow> c = CHR 0x20 \<or> c = CHR 0x09"
| "in_class White c \<longleftrightarrow> c \<in> {CHR 0x09, CHR 0x0A, CHR 0x0C, CHR 0x0D, CHR 0x20}"
| "in_class NonWhite c \<longleftrightarrow> c \<notin> {CHR 0x09, CHR 0x0A, CHR 0x0C, CHR 0x0D, CHR 0x20}"
| "in_class Digit c \<longleftrightarrow> is_digit c"
| "in_class NoParen c \<longleftrightarrow> c \<noteq> CHR ''('' \<and> c \<noteq> CHR '')''"
| "in_class NoParenLine c \<longleftrightarrow> c \<noteq> CHR ''('' \<and> c \<noteq> CHR '')'' \<and> c \<noteq> CHR 0x0A"

datatype re =
    Lit string
  | Fold string
  | Many charset
  | Some1 charset
  | Bol
  | Group re
  | Alt re re
  | Seq re re

definition ascii_lower :: "char \<Rightarrow> char" where
  "ascii_lower c =
     (let n = of_char c :: nat in if 65 \<le> n \<and> n \<le> 90 then char_of (n + 32) else c)"

text \<open>
  A folded literal (given in lower case) against the front of a string.  Unicode simple folding adds
  the long s U+017F and the Kelvin sign U+212A to \<open>s\<close> and \<open>k\<close>.
\<close>

fun fold_literal :: "string \<Rightarrow> string \<Rightarrow> string option" where
  "fold_literal [] s = Some s"
| "fold_literal (p # ps) [] = None"
| "fold_literal (p # ps) (c # s) =
     (if ascii_lower c = p then fold_literal ps s
      else if p = CHR ''s'' \<and> has_prefix (c # s) [CHR 0xC5, CHR 0xBF]
      then fold_literal ps (drop 1 s)
      else if p = CHR ''k'' \<and> has_prefix (c # s) [CHR 0xE2, CHR 0x84, CHR 0xAA]
      then fold_literal ps (drop 2 s)
      else None)"

text \<open>A state of the matcher: whether a line begins here, the rest of the text, the groups so far.\<close>

type_synonym mstate = "bool \<times> string \<times> string list"

fun advance :: "mstate \<Rightarrow> string \<Rightarrow> mstate" where
  "advance (b, s, g) s' =
     (if length s' = length s then (b, s, g)
      else (s ! (length s - length s' - 1) = CHR 0x0A, s', g))"

text \<open>The rests a greedy repetition leaves, longest match first.\<close>

fun greedy :: "charset \<Rightarrow> string \<Rightarrow> string list" where
  "greedy k [] = [[]]"
| "greedy k (c # s) = (if in_class k c then greedy k s @ [c # s] else [c # s])"

fun runs :: "re \<Rightarrow> mstate \<Rightarrow> mstate list" where
  "runs (Lit w) st = (if has_prefix (fst (snd st)) w then [advance st (drop (length w) (fst (snd st)))] else [])"
| "runs (Fold w) st = (case fold_literal w (fst (snd st)) of None \<Rightarrow> [] | Some s' \<Rightarrow> [advance st s'])"
| "runs (Many k) st = map (advance st) (greedy k (fst (snd st)))"
| "runs (Some1 k) st = map (advance st) (butlast (greedy k (fst (snd st))))"
| "runs Bol st = (if fst st then [st] else [])"
| "runs (Group r) st =
     map (\<lambda>(b, s', g).
            (b, s', g @ [take (length (fst (snd st)) - length s') (fst (snd st))])) (runs r st)"
| "runs (Alt r r') st = runs r st @ runs r' st"
| "runs (Seq r r') st = concat (map (runs r') (runs r st))"

text \<open>\<open>FindStringSubmatch\<close>: the groups of the leftmost match (without group 0).\<close>

fun find_from :: "re \<Rightarrow> bool \<Rightarrow> string \<Rightarrow> string list option" where
  "find_from r b [] = (case runs r (b, [], []) of [] \<Rightarrow> None | (_, _, g) # _ \<Rightarrow> Some g)"
| "find_from r b (c # s) =
     (case runs r (b, c # s, []) of
        [] \<Rightarrow> find_from r (c = CHR 0x0A) s
      | (_, _, g) # _ \<Rightarrow> Some g)"

definition find_submatch :: "re \<Rightarrow> string \<Rightarrow> string list option" where
  "find_submatch r s = find_from r True s"

definition match_string :: "re \<Rightarrow> string \<Rightarrow> bool" where
  "match_string r s \<longleftrightarrow> find_submatch r s \<noteq> None"

subsection \<open>Matching at a position\<close>

text \<open>A text has a match exactly when the pattern matches at one of its positions.\<close>

lemma find_from_iff:
  "find_from r b s \<noteq> None \<longleftrightarrow>
     (\<exists>pre suf. s = pre @ suf \<and> runs r (if pre = [] then b else last pre = CHR 0x0A, suf, []) \<noteq> [])"
proof (induction s arbitrary: b)
  case Nil
  then show ?case by (auto split: list.split)
next
  case (Cons c s)
  show ?case
  proof (cases "runs r (b, c # s, [])")
    case Nil
    have "find_from r b (c # s) \<noteq> None \<longleftrightarrow> find_from r (c = CHR 0x0A) s \<noteq> None"
      using Nil by simp
    also have "\<dots> \<longleftrightarrow> (\<exists>pre suf. s = pre @ suf \<and>
        runs r (if pre = [] then c = CHR 0x0A else last pre = CHR 0x0A, suf, []) \<noteq> [])"
      by (rule Cons)
    also have "\<dots> \<longleftrightarrow> (\<exists>pre suf. c # s = pre @ suf \<and>
        runs r (if pre = [] then b else last pre = CHR 0x0A, suf, []) \<noteq> [])" (is "?L \<longleftrightarrow> ?R")
    proof
      assume ?L
      then obtain pre suf where "s = pre @ suf"
        "runs r (if pre = [] then c = CHR 0x0A else last pre = CHR 0x0A, suf, []) \<noteq> []" by blast
      then show ?R by (rule_tac x = "c # pre" in exI, rule_tac x = suf in exI) (simp split: if_splits)
    next
      assume ?R
      then obtain pre suf where p: "c # s = pre @ suf"
        "runs r (if pre = [] then b else last pre = CHR 0x0A, suf, []) \<noteq> []" by blast
      with Nil have "pre \<noteq> []" by (cases pre) auto
      with p obtain pre' where "pre = c # pre'" "s = pre' @ suf" by (cases pre) auto
      with p show ?L by (rule_tac x = pre' in exI, rule_tac x = suf in exI) (simp split: if_splits)
    qed
    finally show ?thesis .
  next
    case (Cons x xs)
    then show ?thesis
      by (cases x) (auto intro!: exI [of _ "[]"])
  qed
qed

text \<open>An anchored pattern can match at a line start only, so on one line it is tried once.\<close>

definition anchored :: "re \<Rightarrow> re" where
  "anchored r = Seq Bol r"

lemma runs_anchored: "runs (anchored r) (b, s, g) = (if b then runs r (b, s, g) else [])"
  by (simp add: anchored_def)

lemma find_anchored_line:
  assumes "CHR 0x0A \<notin> set s"
  shows "find_submatch (anchored r) s \<noteq> None \<longleftrightarrow> runs r (True, s, []) \<noteq> []"
  unfolding find_submatch_def find_from_iff
proof
  assume "\<exists>pre suf. s = pre @ suf \<and>
      runs (anchored r) (if pre = [] then True else last pre = CHR 0x0A, suf, []) \<noteq> []"
  then obtain pre suf where p: "s = pre @ suf"
    "runs (anchored r) (if pre = [] then True else last pre = CHR 0x0A, suf, []) \<noteq> []" by blast
  with assms have "pre = []"
    by (cases pre rule: rev_cases) (auto simp: runs_anchored)
  with p show "runs r (True, s, []) \<noteq> []" by (simp add: runs_anchored)
next
  assume "runs r (True, s, []) \<noteq> []"
  then show "\<exists>pre suf. s = pre @ suf \<and>
      runs (anchored r) (if pre = [] then True else last pre = CHR 0x0A, suf, []) \<noteq> []"
    by (rule_tac x = "[]" in exI, rule_tac x = s in exI) (simp add: runs_anchored)
qed

text \<open>Every rest of a repetition is a suffix after characters of the class.\<close>

lemma greedy_sound:
  "s' \<in> set (greedy k s) \<Longrightarrow> \<exists>w. s = w @ s' \<and> (\<forall>c \<in> set w. in_class k c)"
proof (induction s)
  case (Cons c s)
  show ?case
  proof (cases "in_class k c \<and> s' \<in> set (greedy k s)")
    case True
    with Cons obtain w where "s = w @ s'" "\<forall>c \<in> set w. in_class k c" by auto
    with True show ?thesis by (intro exI [of _ "c # w"]) simp
  next
    case False
    with Cons.prems show ?thesis by (intro exI [of _ "[]"]) (auto split: if_splits)
  qed
qed simp

lemma greedy_last: "greedy k s \<noteq> [] \<and> last (greedy k s) = s"
  by (cases s) auto

lemma greedy_first: "hd (greedy k s) = dropWhile (in_class k) s"
proof (induction s)
  case (Cons c s)
  then show ?case using greedy_last [of k s] by simp
qed simp

lemma greedy_one: "s = [] \<or> \<not> in_class k (hd s) \<Longrightarrow> greedy k s = [s]"
  by (cases s) auto

end
