(* ===== verification/Gate1.thy ===== *)
theory Gate1
  imports Transport_Contract Regexp
begin

text \<open>
  \<open>gate/gate1.go\<close> and \<open>gate/console.go\<close>: the syntax gate.  A command is rendered, checked for
  unbalanced quotes, embedded as a string literal in a \<open>:parse\<close> script, sent over a command seam, and
  the answer is classified.  The seam is the locale \<open>commanding\<close>; what the gate sends is stated there.
\<close>

definition string_literal :: "string \<Rightarrow> string" where
  "string_literal s =
     (let escaped = replace_all s [CHR 0x5C] [CHR 0x5C, CHR 0x5C];
          escaped' = replace_all escaped [CHR 0x22] [CHR 0x5C, CHR 0x22]
      in [CHR 0x22] @ escaped' @ [CHR 0x22])"

fun count_quotes :: "bool \<Rightarrow> nat \<Rightarrow> nat \<Rightarrow> string \<Rightarrow> nat \<times> nat" where
  "count_quotes escaped dq sq [] = (dq, sq)"
| "count_quotes escaped dq sq (c # s) =
     (if escaped then count_quotes False dq sq s
      else if c = CHR 0x5C then count_quotes True dq sq s
      else if c = CHR 0x22 then count_quotes False (dq + 1) sq s
      else if c = CHR 0x27 then count_quotes False dq (sq + 1) s
      else count_quotes False dq sq s)"

definition has_unbalanced_quotes :: "string \<Rightarrow> bool" where
  "has_unbalanced_quotes s =
     (case count_quotes False 0 0 s of (dq, sq) \<Rightarrow> dq mod 2 = 1 \<or> sq mod 2 = 1)"

subsection \<open>The classifier\<close>

record classify_result =
  cr_valid :: bool
  cr_code :: "code option"
  cr_attribute :: string
  cr_line :: int
  cr_col :: int
  cr_message :: string

text \<open>\<open>(?mi)^[ \\t]*\<close> followed by a pattern, the common start of the four anchored ones.\<close>

definition line_start :: "re \<Rightarrow> re" where
  "line_start r = anchored (Seq (Many Blank) r)"

definition syntax_words :: "re \<Rightarrow> re" where
  "syntax_words tail =
     Alt (Fold ''syntax error'') (Alt (Fold ''bad command name'') (Seq (Fold ''expected'') tail))"

definition wrapped_bad_param_re :: re where
  "wrapped_bad_param_re =
     line_start (Seq (Fold ''(evl'') (Seq (Some1 White) (Seq (Fold ''bad parameter'')
       (Seq (Some1 White) (Group (Some1 NonWhite))))))"

definition wrapped_syntax_re :: re where
  "wrapped_syntax_re =
     line_start (Seq (Fold ''(<%'') (Seq (Many NoParen) (syntax_words (Many NoParen))))"

definition bad_param_re :: re where
  "bad_param_re =
     line_start (Seq (Fold ''bad parameter'') (Seq (Some1 White) (Group (Some1 NonWhite))))"

definition syntax_re :: re where
  "syntax_re = line_start (syntax_words (Many NoParenLine))"

definition line_col_re :: re where
  "line_col_re =
     Seq (Lit ''(line '') (Seq (Group (Some1 Digit)) (Seq (Lit '' column '')
       (Seq (Group (Some1 Digit)) (Lit '')''))))"

definition apply_position :: "classify_result \<Rightarrow> string \<Rightarrow> classify_result" where
  "apply_position res s =
     (case find_submatch line_col_re s of
        Some (l # c # _) \<Rightarrow> res\<lparr>cr_line := atoi l, cr_col := atoi c\<rparr>
      | _ \<Rightarrow> res)"

definition new_result :: "string \<Rightarrow> classify_result" where
  "new_result ret =
     \<lparr>cr_valid = False, cr_code = None, cr_attribute = [], cr_line = 0, cr_col = 0, cr_message = ret\<rparr>"

definition classify :: "string \<Rightarrow> classify_result" where
  "classify ret =
     (let res = new_result ret in
      case find_submatch wrapped_bad_param_re ret of
        Some g \<Rightarrow> apply_position
          (res\<lparr>cr_code := Some CodeValidationUnknownAttribute, cr_attribute := hd g\<rparr>) ret
      | None \<Rightarrow>
          if match_string wrapped_syntax_re ret
          then apply_position (res\<lparr>cr_code := Some CodeValidationSyntax\<rparr>) ret
          else (case find_submatch bad_param_re ret of
                  Some g \<Rightarrow> apply_position
                    (res\<lparr>cr_code := Some CodeValidationUnknownAttribute, cr_attribute := hd g\<rparr>) ret
                | None \<Rightarrow>
                    if match_string syntax_re ret
                    then apply_position (res\<lparr>cr_code := Some CodeValidationSyntax\<rparr>) ret
                    else res\<lparr>cr_valid := True\<rparr>))"

subsection \<open>The gate\<close>

record 't gate1 =
  g1command :: "'t command_fn"
  g1render :: "(command \<Rightarrow> string) option"
  g1supports :: "('t \<Rightarrow> bool) option"

definition parse_script :: "string \<Rightarrow> string" where
  "parse_script line = '':put [:parse '' @ string_literal line @ '']''"

definition rejection :: "string \<Rightarrow> classify_result \<Rightarrow> goerr" where
  "rejection path res =
     (let extra = (if cr_attribute res \<noteq> [] then [(''attribute'', AnyStr (cr_attribute res))] else [])
            @ (if cr_line res \<noteq> 0 \<or> cr_col res \<noteq> 0
               then [(''line'', AnyInt (cr_line res)), (''col'', AnyInt (cr_col res))] else []);
          c = (via_context ''gate1'')\<lparr>ctx_path := path, ctx_extra := extra\<rparr>
      in ros_new (the (cr_code res)) (cr_message res) [WithContext c])"

definition gate1_rendering :: "'t gate1 \<Rightarrow> command \<Rightarrow> string" where
  "gate1_rendering g cmd = (case g1render g of None \<Rightarrow> cli cmd | Some f \<Rightarrow> f cmd)"

definition gate1_run :: "'t gate1 \<Rightarrow> ctx \<Rightarrow> command \<Rightarrow> 't \<Rightarrow> goerr option \<times> 't" where
  "gate1_run g ctx cmd t =
     (if (case g1supports g of None \<Rightarrow> False | Some f \<Rightarrow> \<not> f t) then (None, t)
      else
        (let line = gate1_rendering g cmd in
         if has_unbalanced_quotes line
         then (Some (ros_new CodeValidationSyntax ''command contains unbalanced quotes''
                      [WithContext ((via_context ''gate1'')\<lparr>ctx_path := cpath cmd\<rparr>)]), t)
         else
           (case g1command g ctx (script_command (parse_script line)) t of
              (Inl e, t') \<Rightarrow> (Some e, t')
            | (Inr rep, t') \<Rightarrow>
                (let res = classify (reply_ret rep) in
                 if cr_valid res then (None, t') else (Some (rejection (cpath cmd) res), t')))))"

subsection \<open>Console wiring\<close>

definition console_command :: "'t run_fn \<Rightarrow> 't command_fn" where
  "console_command run ctx cmd t =
     (let line = (if cscript cmd = [] then console_cli cmd else cscript cmd) in
      case run ctx line t of
        (Inl e, t') \<Rightarrow> (Inl e, t')
      | (Inr out, t') \<Rightarrow>
          (Inr \<lparr>rtype = ReplyRe, rattrs = [(''ret'', out)], rtag = [], rwords = []\<rparr>, t'))"

definition new_console_gate :: "'t run_fn \<Rightarrow> ('t \<Rightarrow> bool) option \<Rightarrow> 't gate1" where
  "new_console_gate run supports =
     \<lparr>g1command = console_command run, g1render = Some console_cli, g1supports = supports\<rparr>"

definition validate_console :: "'t run_fn \<Rightarrow> ctx \<Rightarrow> string \<Rightarrow> 't \<Rightarrow> goerr option \<times> 't" where
  "validate_console run ctx line t =
     gate1_run (new_console_gate run None) ctx (script_command line) t"

subsection \<open>The literal\<close>

text \<open>Only a backslash and a double quote are escaped, each by a backslash before it.\<close>

definition escape_char :: "char \<Rightarrow> string" where
  "escape_char c = (if c = CHR 0x5C \<or> c = CHR 0x22 then [CHR 0x5C, c] else [c])"

lemma string_literal_eq:
  "string_literal s = [CHR 0x22] @ concat (map escape_char s) @ [CHR 0x22]"
proof -
  have "concat (map (\<lambda>c. if c = CHR 0x22 then [CHR 0x5C, CHR 0x22] else [c])
          (concat (map (\<lambda>c. if c = CHR 0x5C then [CHR 0x5C, CHR 0x5C] else [c]) s)))
      = concat (map escape_char s)"
    by (induction s) (auto simp: escape_char_def)
  then show ?thesis
    by (simp add: string_literal_def replace_all_single)
qed

lemma escaped_unambiguous:
  "concat (map escape_char s) @ CHR 0x22 # rest = concat (map escape_char s') @ CHR 0x22 # rest' \<longleftrightarrow> s = s' \<and> rest = rest'"
proof (induction s arbitrary: s')
  case Nil
  then show ?case by (cases s') (auto simp: escape_char_def)
next
  case (Cons c s)
  then show ?case by (cases s') (auto simp: escape_char_def)
qed

lemma escaped_inject: "concat (map escape_char s) = concat (map escape_char s') \<longleftrightarrow> s = s'"
  using escaped_unambiguous [of s "[]" s' "[]"] by simp

lemma string_literal_plain:
  "CHR 0x5C \<notin> set s \<Longrightarrow> CHR 0x22 \<notin> set s \<Longrightarrow> string_literal s = [CHR 0x22] @ s @ [CHR 0x22]"
  by (induction s) (auto simp: string_literal_eq escape_char_def)

lemma count_quotes_escaped:
  "count_quotes False dq sq (concat (map escape_char s) @ rest) = count_quotes False dq (sq + count_list s CHR 0x27) rest"
  by (induction s arbitrary: sq) (auto simp: escape_char_def)

text \<open>The quotes the preflight counts: those no backslash takes.\<close>

fun bare_chars :: "string \<Rightarrow> string" where
  "bare_chars [] = []"
| "bare_chars (c # s) =
     (if c = CHR 0x5C then (case s of [] \<Rightarrow> [] | d # s' \<Rightarrow> bare_chars s') else c # bare_chars s)"

lemma count_quotes_bare:
  "count_quotes False dq sq s =
     (dq + count_list (bare_chars s) CHR 0x22, sq + count_list (bare_chars s) CHR 0x27)"
proof (induction s arbitrary: dq sq rule: bare_chars.induct)
  case (2 c s)
  then show ?case by (cases s) auto
qed simp

lemma has_unbalanced_quotes_iff:
  "has_unbalanced_quotes s \<longleftrightarrow>
     odd (count_list (bare_chars s) CHR 0x22) \<or> odd (count_list (bare_chars s) CHR 0x27)"
  by (simp add: has_unbalanced_quotes_def count_quotes_bare odd_iff_mod_2_eq_one)

subsection \<open>The order of the classifier\<close>

lemma apply_position_simps [simp]:
  "cr_valid (apply_position res s) = cr_valid res"
  "cr_code (apply_position res s) = cr_code res"
  "cr_attribute (apply_position res s) = cr_attribute res"
  "cr_message (apply_position res s) = cr_message res"
  by (simp_all add: apply_position_def split: option.split list.split)

lemma classify_message: "cr_message (classify ret) = ret"
  by (simp add: classify_def new_result_def Let_def split: option.split)

lemma classify_code:
  "cr_code (classify ret) =
     (if match_string wrapped_bad_param_re ret then Some CodeValidationUnknownAttribute
      else if match_string wrapped_syntax_re ret then Some CodeValidationSyntax
      else if match_string bad_param_re ret then Some CodeValidationUnknownAttribute
      else if match_string syntax_re ret then Some CodeValidationSyntax
      else None)"
  by (auto simp: classify_def new_result_def Let_def match_string_def split: option.split)

lemma classify_valid: "cr_valid (classify ret) \<longleftrightarrow> cr_code (classify ret) = None"
  by (auto simp: classify_def new_result_def Let_def match_string_def split: option.split)

text \<open>What a line that echoes an accepted command looks like: \<open>(evl\<close>, a blank, then the command.\<close>

lemma line_start_runs:
  assumes "CHR 0x0A \<notin> set s" "s = [] \<or> \<not> in_class Blank (hd s)"
  shows "match_string (line_start r) s \<longleftrightarrow> runs r (True, s, []) \<noteq> []"
proof -
  have "runs (Seq (Many Blank) r) (True, s, []) = runs r (True, s, [])"
    using greedy_one [OF assms(2)] by simp
  then show ?thesis
    unfolding match_string_def line_start_def find_anchored_line [OF assms(1)] by simp
qed

lemma classify_evl:
  assumes "CHR 0x0A \<notin> set rest" "rest = [] \<or> \<not> in_class White (hd rest)"
    and "fold_literal ''bad parameter'' rest = None"
  shows "cr_valid (classify (''(evl '' @ rest))"
proof -
  let ?s = "''(evl '' @ rest"
  have nl: "CHR 0x0A \<notin> set ?s" and nb: "?s = [] \<or> \<not> in_class Blank (hd ?s)"
    using assms(1) by simp_all
  have g: "greedy White (CHR 0x20 # rest) = [rest, CHR 0x20 # rest]"
    using assms(2) by (simp add: greedy_one)
  have 1: "\<not> match_string wrapped_bad_param_re ?s"
    unfolding wrapped_bad_param_re_def line_start_runs [OF nl nb]
    using g assms(3) by (simp add: ascii_lower_def)
  have 2: "\<not> match_string wrapped_syntax_re ?s"
    unfolding wrapped_syntax_re_def line_start_runs [OF nl nb]
    by (simp add: ascii_lower_def)
  have 3: "\<not> match_string bad_param_re ?s"
    unfolding bad_param_re_def line_start_runs [OF nl nb]
    by (simp add: ascii_lower_def)
  have 4: "\<not> match_string syntax_re ?s"
    unfolding syntax_re_def syntax_words_def line_start_runs [OF nl nb]
    by (simp add: ascii_lower_def)
  show ?thesis
    using 1 2 3 4 by (simp add: classify_valid classify_code)
qed

text \<open>The attribute of an unknown-attribute result is a non-empty run of non-blank characters.\<close>

lemma find_from_Some:
  "find_from r b s = Some g \<Longrightarrow> \<exists>b0 suf b' s'. (b', s', g) \<in> set (runs r (b0, suf, []))"
proof (induction s arbitrary: b)
  case Nil
  then obtain b' s' xs where "runs r (b, [], []) = (b', s', g) # xs"
    by (auto split: list.splits)
  then have "(b', s', g) \<in> set (runs r (b, [], []))" by simp
  then show ?case by blast
next
  case (Cons c s)
  show ?case
  proof (cases "runs r (b, c # s, [])")
    case Nil
    with Cons.prems have "find_from r (c = CHR 0x0A) s = Some g" by simp
    then show ?thesis by (rule Cons.IH)
  next
    case (Cons x xs)
    with Cons.prems have "\<exists>b' s'. x = (b', s', g)" by (cases x) auto
    with Cons show ?thesis by (metis list.set_intros(1))
  qed
qed

lemma butlast_greedy:
  assumes "s' \<in> set (butlast (greedy k s))"
  shows "\<exists>w. w \<noteq> [] \<and> s = w @ s' \<and> (\<forall>c \<in> set w. in_class k c)"
proof (cases s)
  case (Cons c t)
  with assms have "in_class k c" "s' \<in> set (greedy k t)" by (auto split: if_splits)
  with greedy_sound [of s' k t] obtain w where "t = w @ s'" "\<forall>c \<in> set w. in_class k c" by auto
  with Cons \<open>in_class k c\<close> show ?thesis by (intro exI [of _ "c # w"]) simp
qed (use assms in simp)

lemma advance_rest: "length s' \<le> length s \<Longrightarrow> s' = drop (length s - length s') s \<Longrightarrow>
    advance (b, s, g) s' = (b', t, g') \<Longrightarrow> t = s' \<and> g' = g"
  by (auto split: if_splits)

lemma group_nonwhite:
  assumes "(b', t, g') \<in> set (runs (Group (Some1 NonWhite)) (b, s, g))"
  shows "\<exists>w. g' = g @ [w] \<and> w \<noteq> [] \<and> (\<forall>c \<in> set w. in_class NonWhite c)"
proof -
  from assms obtain s' where s': "s' \<in> set (butlast (greedy NonWhite s))"
    and eq: "(b', t, g') = (case advance (b, s, g) s' of
           (b, s', g) \<Rightarrow> (b, s', g @ [take (length s - length s') s]))"
    by (auto simp del: advance.simps)
  obtain b1 t1 g1 where adv: "advance (b, s, g) s' = (b1, t1, g1)" by (metis prod_cases3)
  with eq have g': "g' = g1 @ [take (length s - length t1) s]" by simp
  from butlast_greedy [OF s'] obtain w where w: "w \<noteq> []" "s = w @ s'" "\<forall>c \<in> set w. in_class NonWhite c"
    by blast
  with adv have "t1 = s' \<and> g1 = g" by (auto split: if_splits)
  with g' w show ?thesis by auto
qed

lemma group_seqs:
  assumes "(b', t, g') \<in> set (runs (Seq r r') (b, s, g))"
  shows "\<exists>b1 s1 g1. (b1, s1, g1) \<in> set (runs r (b, s, g)) \<and> (b', t, g') \<in> set (runs r' (b1, s1, g1))"
  using assms by auto

definition names_attribute :: "string list \<Rightarrow> bool" where
  "names_attribute g \<longleftrightarrow> g \<noteq> [] \<and> last g \<noteq> [] \<and> (\<forall>c \<in> set (last g). in_class NonWhite c)"

lemma names_attribute_group: "x \<in> set (runs (Group (Some1 NonWhite)) st) \<Longrightarrow> names_attribute (snd (snd x))"
  using group_nonwhite by (cases st, cases x) (fastforce simp: names_attribute_def)

lemma names_attribute_seq:
  assumes "\<forall>st. \<forall>x \<in> set (runs r' st). names_attribute (snd (snd x))"
  shows "\<forall>st. \<forall>x \<in> set (runs (Seq r r') st). names_attribute (snd (snd x))"
  using assms by auto

lemma bad_param_names:
  "\<forall>st. \<forall>x \<in> set (runs wrapped_bad_param_re st). names_attribute (snd (snd x))"
  "\<forall>st. \<forall>x \<in> set (runs bad_param_re st). names_attribute (snd (snd x))"
  unfolding wrapped_bad_param_re_def bad_param_re_def line_start_def anchored_def
  by (intro names_attribute_seq allI ballI names_attribute_group; assumption)+

text \<open>No other part of the two patterns captures, so there is exactly one group.\<close>

fun groups :: "re \<Rightarrow> nat option" where
  "groups (Group r) = (case groups r of Some n \<Rightarrow> Some (n + 1) | None \<Rightarrow> None)"
| "groups (Alt r r') = (if groups r = groups r' then groups r else None)"
| "groups (Seq r r') = (case groups r of Some n \<Rightarrow> (case groups r' of Some n' \<Rightarrow> Some (n + n') | None \<Rightarrow> None)
                         | None \<Rightarrow> None)"
| "groups _ = Some 0"

lemma groups_advance: "snd (snd (advance st s')) = snd (snd st)"
  by (cases st) auto

lemma groups_runs:
  "groups r = Some n \<Longrightarrow> x \<in> set (runs r st) \<Longrightarrow> length (snd (snd x)) = length (snd (snd st)) + n"
proof (induction r arbitrary: n st x)
  case (Group r)
  then obtain k where k: "groups r = Some k" "n = k + 1" by (auto split: option.splits)
  from Group.prems(2) obtain y where "y \<in> set (runs r st)" "length (snd (snd x)) = length (snd (snd y)) + 1"
    by auto
  with Group.IH [OF k(1)] k(2) show ?case by simp
next
  case (Seq r1 r2)
  then obtain n1 n2 where k: "groups r1 = Some n1" "groups r2 = Some n2" "n = n1 + n2"
    by (auto split: option.splits)
  from Seq.prems(2) obtain y where "y \<in> set (runs r1 st)" "x \<in> set (runs r2 y)" by auto
  with Seq.IH(1) [OF k(1)] Seq.IH(2) [OF k(2)] k(3) show ?case by fastforce
qed (auto simp: groups_advance split: if_splits option.splits)

lemma find_attribute:
  assumes "find_submatch r s = Some g" "r = wrapped_bad_param_re \<or> r = bad_param_re"
  shows "hd g \<noteq> [] \<and> (\<forall>c \<in> set (hd g). in_class NonWhite c)"
proof -
  from assms(1) obtain b0 suf b' s' where x: "(b', s', g) \<in> set (runs r (b0, suf, []))"
    using find_from_Some by (metis find_submatch_def)
  have n: "names_attribute g"
    using bad_param_names x assms(2) by (metis snd_conv)
  have "groups r = Some 1"
    using assms(2) by (auto simp: wrapped_bad_param_re_def bad_param_re_def line_start_def anchored_def)
  with groups_runs [OF _ x] have "length g = 1" by simp
  then have "hd g = last g" by (cases g) auto
  with n show ?thesis by (simp add: names_attribute_def)
qed

lemma classify_attribute:
  assumes "cr_code (classify ret) = Some CodeValidationUnknownAttribute"
  shows "cr_attribute (classify ret) \<noteq> [] \<and> (\<forall>c \<in> set (cr_attribute (classify ret)). in_class NonWhite c)"
  using assms find_attribute [of wrapped_bad_param_re ret] find_attribute [of bad_param_re ret]
  by (auto simp: classify_def new_result_def Let_def match_string_def split: option.splits if_splits)

subsection \<open>The seams of the gate\<close>

text \<open>
  A \<open>commanding\<close> transport hands at most the given command to the device, a \<open>running\<close> one at most the
  given line; \<open>sent\<close> and \<open>lines\<close> are what the device was handed so far.
\<close>

definition extends_by :: "'l list \<Rightarrow> 'l list \<Rightarrow> 'l \<Rightarrow> bool" where
  "extends_by l' l x \<longleftrightarrow> l' = l \<or> l' = l @ [x]"

locale commanding =
  fixes command :: "'t command_fn"
    and sent :: "'t \<Rightarrow> 'l list"
    and rendered :: "command \<Rightarrow> 'l"
  assumes command_sends:
    "sent (snd (command ctx cmd t)) = sent t \<or> sent (snd (command ctx cmd t)) = sent t @ [rendered cmd]"
begin

lemma gate1_sends:
  assumes "g1command g = command"
  shows "extends_by (sent (snd (gate1_run g ctx cmd t))) (sent t)
           (rendered (script_command (parse_script (gate1_rendering g cmd))))"
  using command_sends [of ctx "script_command (parse_script (gate1_rendering g cmd))" t] assms
  by (auto simp: gate1_run_def Let_def extends_by_def split: prod.split sum.split option.split)

lemma gate1_skips:
  assumes "g1supports g = Some f" "\<not> f t"
  shows "gate1_run g ctx cmd t = (None, t)"
  using assms by (simp add: gate1_run_def)

end

locale running =
  fixes run :: "'t run_fn"
    and lines :: "'t \<Rightarrow> string list"
  assumes run_sends:
    "lines (snd (run ctx line t)) = lines t \<or> lines (snd (run ctx line t)) = lines t @ [line]"

definition console_line :: "command \<Rightarrow> string" where
  "console_line cmd = (if cscript cmd = [] then console_cli cmd else cscript cmd)"

lemma console_line_script [simp]: "s \<noteq> [] \<Longrightarrow> console_line (script_command s) = s"
  by (simp add: console_line_def script_command_def)

sublocale running \<subseteq> over_console: commanding "console_command run" lines console_line
proof
  show "lines (snd (console_command run ctx cmd t)) = lines t
      \<or> lines (snd (console_command run ctx cmd t)) = lines t @ [console_line cmd]" for ctx cmd t
    using run_sends [of ctx "console_line cmd" t]
    by (auto simp: console_command_def console_line_def Let_def split: prod.split sum.split)
qed

context running
begin

lemma validate_console_sends:
  assumes "line \<noteq> []"
  shows "extends_by (lines (snd (validate_console run ctx line t))) (lines t) (parse_script line)"
proof -
  have r: "gate1_rendering (new_console_gate run None) (script_command line) = line"
    using assms by (simp add: gate1_rendering_def new_console_gate_def console_cli_def script_command_def)
  have n: "parse_script line \<noteq> []" by (simp add: parse_script_def)
  have "extends_by (lines (snd (validate_console run ctx line t))) (lines t)
      (console_line (script_command (parse_script (gate1_rendering (new_console_gate run None) (script_command line)))))"
    unfolding validate_console_def
    by (rule over_console.gate1_sends) (simp add: new_console_gate_def)
  then show ?thesis by (simp add: r n)
qed

end

subsection \<open>Outcomes\<close>

lemma rejection_code [simp]: "is_RosErr (rejection path res)" "ros_code (rejection path res) = the (cr_code res)"
  by (simp_all add: rejection_def Let_def)

text \<open>The verdict of the gate when it applies: a local rejection, the seam's own error, or the classifier.\<close>

lemma gate1_run_local:
  assumes "\<forall>f. g1supports g = Some f \<longrightarrow> f t" "has_unbalanced_quotes (gate1_rendering g cmd)"
  shows "\<exists>e. gate1_run g ctx cmd t = (Some e, t) \<and> is_RosErr e \<and> ros_code e = CodeValidationSyntax"
  using assms by (auto simp: gate1_run_def Let_def split: option.split)

lemma gate1_run_remote:
  assumes "\<forall>f. g1supports g = Some f \<longrightarrow> f t" "\<not> has_unbalanced_quotes (gate1_rendering g cmd)"
    and "g1command g ctx (script_command (parse_script (gate1_rendering g cmd))) t = (r, t')"
  shows "gate1_run g ctx cmd t =
      ((case r of
          Inl e \<Rightarrow> Some e
        | Inr rep \<Rightarrow> let res = classify (reply_ret rep) in
            if cr_valid res then None else Some (rejection (cpath cmd) res)), t')"
  using assms by (auto simp: gate1_run_def Let_def split: option.split sum.split)

subsection \<open>Properties\<close>

text \<open>C26: The literal keeps texts apart and closes itself.  Whatever follows them, the literals of two texts are equal only
for equal texts, so no text can be chosen whose literal is that of another one and something more, and two commands
never give the same \<open>:parse\<close> script.  The quote scanner of the package sees exactly two double quotes in a literal, its own,
and goes on behind it as if nothing were open.  (What the device does with a dollar sign inside a literal is not part of
this: \<open>StringLiteral\<close> leaves it as it is.)\<close>

theorem string_literal_unambiguous:
  "(string_literal s @ rest = string_literal s' @ rest' \<longleftrightarrow> s = s' \<and> rest = rest')
   \<and> (parse_script s = parse_script s' \<longleftrightarrow> s = s')
   \<and> count_quotes False dq sq (string_literal s @ rest) = count_quotes False (dq + 2) (sq + count_list s CHR 0x27) rest"
  by (simp add: parse_script_def string_literal_eq escaped_unambiguous escaped_inject count_quotes_escaped)

text \<open>A command substitution in a text stays one in its literal.\<close>

lemma string_literal_keeps_dollar: "string_literal ''$[:beep]'' = [CHR 0x22] @ ''$[:beep]'' @ [CHR 0x22]"
  by (rule string_literal_plain) simp_all

text \<open>The classifier tries its four patterns in the fixed order and accepts exactly the texts that
match none of them; the message is kept verbatim.\<close>

lemma classify_order:
  "cr_code (classify ret) =
     (if match_string wrapped_bad_param_re ret then Some CodeValidationUnknownAttribute
      else if match_string wrapped_syntax_re ret then Some CodeValidationSyntax
      else if match_string bad_param_re ret then Some CodeValidationUnknownAttribute
      else if match_string syntax_re ret then Some CodeValidationSyntax
      else None)
   \<and> (cr_valid (classify ret) \<longleftrightarrow> cr_code (classify ret) = None) \<and> cr_message (classify ret) = ret"
  by (simp add: classify_code classify_valid classify_message)

text \<open>An unknown-attribute verdict always names the attribute: a non-empty word without blanks.\<close>

lemma unknown_attribute_is_named:
  assumes "cr_code (classify ret) = Some CodeValidationUnknownAttribute"
  shows "cr_attribute (classify ret) \<noteq> [] \<and> (\<forall>c \<in> set (cr_attribute (classify ret)). in_class NonWhite c)"
  using classify_attribute [OF assms] .

text \<open>No false alarm on the echo of an accepted command: a one-line answer \<open>(evl ...\<close> whose text does not
itself begin with "bad parameter" is valid, whatever error-looking text stands further on.\<close>

lemma echo_of_valid_command:
  assumes "CHR 0x0A \<notin> set rest" "rest = [] \<or> \<not> in_class White (hd rest)"
    and "fold_literal ''bad parameter'' rest = None"
  shows "cr_valid (classify (''(evl '' @ rest))"
  using classify_evl [OF assms] .

lemma echo_of_valid_command_witness:
  "cr_valid (classify (''(evl '' @ ''/ip address print comment=syntax error bad parameter x)''))"
  by (rule echo_of_valid_command) (simp_all add: ascii_lower_def)

text \<open>The verdict of the gate: with unbalanced quotes a local syntax error and no call; otherwise the
transport's own error unchanged, or acceptance, or an error with the classifier's code.\<close>

lemma gate1_verdict:
  assumes "\<forall>f. g1supports g = Some f \<longrightarrow> f t"
  shows "if has_unbalanced_quotes (gate1_rendering g cmd)
    then \<exists>e. gate1_run g ctx cmd t = (Some e, t) \<and> is_RosErr e \<and> ros_code e = CodeValidationSyntax
    else (case g1command g ctx (script_command (parse_script (gate1_rendering g cmd))) t of
        (Inl e, t') \<Rightarrow> gate1_run g ctx cmd t = (Some e, t')
      | (Inr rep, t') \<Rightarrow>
          if cr_valid (classify (reply_ret rep)) then gate1_run g ctx cmd t = (None, t')
          else \<exists>e. gate1_run g ctx cmd t = (Some e, t') \<and> is_RosErr e
            \<and> Some (ros_code e) = cr_code (classify (reply_ret rep)))"
  using gate1_run_local [OF assms] gate1_run_remote [OF assms]
  by (auto simp: Let_def classify_valid split: prod.split sum.split)

end
