(* ===== verification/Schema_Inspect.thy ===== *)
theory Schema_Inspect
  imports Transport_Contract
begin

text \<open>
  \<open>schema/schema.go\<close> and \<open>schema/inspect.go\<close>: command schemas and the pure primitives over the rows
  of \<open>/console/inspect\<close>.
\<close>

datatype category = CategoryTable | CategoryAction | CategoryUnknown

fun category_string :: "category \<Rightarrow> string" where
  "category_string CategoryTable = ''table''"
| "category_string CategoryAction = ''action''"
| "category_string CategoryUnknown = ''unknown''"

record attribute =
  aname :: string

text \<open>Attributes are ordered by name, the order \<open>sortedAttributes\<close> sorts them in.\<close>

instantiation attribute_ext :: (linorder) linorder
begin

definition less_eq_attribute_ext :: "'a attribute_scheme \<Rightarrow> 'a attribute_scheme \<Rightarrow> bool" where
  "less_eq_attribute_ext a b \<longleftrightarrow>
     aname a < aname b \<or> aname a = aname b \<and> attribute.more a \<le> attribute.more b"

definition less_attribute_ext :: "'a attribute_scheme \<Rightarrow> 'a attribute_scheme \<Rightarrow> bool" where
  "less_attribute_ext a b \<longleftrightarrow>
     aname a < aname b \<or> aname a = aname b \<and> attribute.more a < attribute.more b"

instance
  by standard
    (auto simp: less_eq_attribute_ext_def less_attribute_ext_def intro: attribute.equality)

end

lemma aname_mono: "a \<le> b \<Longrightarrow> aname a \<le> aname b"
  by (auto simp: less_eq_attribute_ext_def)

record command_schema =
  spath :: string
  sverb :: string
  scategory :: category
  sattributes :: "attribute list"
  ssource :: string

definition has_attribute :: "command_schema \<Rightarrow> string \<Rightarrow> bool" where
  "has_attribute s name = list_ex (\<lambda>a. aname a = name) (sattributes s)"

definition schema_path_tokens :: "string \<Rightarrow> string list" where
  "schema_path_tokens p = fields_func (\<lambda>c. c = CHR ''/'') p"

definition inspect_path :: "string list \<Rightarrow> string" where
  "inspect_path tokens = go_join tokens '',''"

definition is_argument_node :: "inspect_node \<Rightarrow> bool" where
  "is_argument_node n \<longleftrightarrow> ntype n = ''arg'' \<or> nnode_type n = ''arg''"

definition is_command_node :: "inspect_node \<Rightarrow> string \<Rightarrow> bool" where
  "is_command_node n name \<longleftrightarrow> nname n = name \<and> (ntype n = ''cmd'' \<or> nnode_type n = ''cmd'')"

text \<open>
  \<open>ExtractCompletionNames\<close>: the inner loop over one row picks its non-empty name fields, or the text
  when there is none, and each picked value is cut at the first \<open>=\<close>, trimmed and dropped if blank.
\<close>

definition picked_fields :: "inspect_node \<Rightarrow> string list" where
  "picked_fields r =
     (let picked = filter (\<lambda>v. v \<noteq> []) [ncompletion r, nname r, nvalue r] in
      if picked = [] \<and> ntext r \<noteq> [] then [ntext r] else picked)"

definition completion_name :: "string \<Rightarrow> string" where
  "completion_name v =
     (let i = index_byte v CHR ''='' in
      trim_space (if i \<noteq> - 1 then take (nat i) v else v))"

definition extract_completion_names :: "inspect_node list \<Rightarrow> string list" where
  "extract_completion_names rows =
     concat (map (\<lambda>r. filter (\<lambda>v. v \<noteq> []) (map completion_name (picked_fields r))) rows)"

definition swallowable :: "goerr \<Rightarrow> bool" where
  "swallowable err \<longleftrightarrow> is_code err CodeUnknownPath \<or> is_code err CodeCommandFailed"

definition inspect_children_or_empty ::
  "'t inspect_fn \<Rightarrow> ctx \<Rightarrow> string list \<Rightarrow> ('t, inspect_node list) seam" where
  "inspect_children_or_empty inspect ctx tokens t =
     (case inspect ctx InspectChild (inspect_path tokens) t of
        (Inl e, t') \<Rightarrow> (if swallowable e then (Inr [], t') else (Inl e, t'))
      | (Inr nodes, t') \<Rightarrow> (Inr nodes, t'))"

lemma has_attribute_iff: "has_attribute s name \<longleftrightarrow> name \<in> aname ` set (sattributes s)"
  by (auto simp: has_attribute_def list_ex_iff)

lemma extract_completion_names_nonempty: "n \<in> set (extract_completion_names rows) \<Longrightarrow> n \<noteq> []"
  by (auto simp: extract_completion_names_def)

text \<open>A path and the tokens that make it up.\<close>

definition token :: "string \<Rightarrow> bool" where
  "token t \<longleftrightarrow> t \<noteq> [] \<and> CHR ''/'' \<notin> set t"

definition slash_path :: "string list \<Rightarrow> string" where
  "slash_path ts = concat (map (\<lambda>t. ''/'' @ t) ts)"

lemma split_slash_path:
  "list_all token ts \<Longrightarrow> split_on (\<lambda>c. c = CHR ''/'') (slash_path ts) = [] # ts"
proof (induction ts)
  case Nil
  then show ?case by (simp add: slash_path_def)
next
  case (Cons t ts)
  then have t: "\<forall>c \<in> set t. c \<noteq> CHR ''/''" and IH: "split_on (\<lambda>c. c = CHR ''/'') (slash_path ts) = [] # ts"
    by (auto simp: token_def)
  show ?case
  proof (cases ts)
    case Nil
    with t show ?thesis by (simp add: slash_path_def split_on_no_sep)
  next
    case (Cons u us)
    then have sp: "slash_path ts = CHR ''/'' # (u @ slash_path us)" by (simp add: slash_path_def)
    with IH have "split_on (\<lambda>c. c = CHR ''/'') (u @ slash_path us) = ts" by simp
    moreover have "split_on (\<lambda>c. c = CHR ''/'') (t @ CHR ''/'' # (u @ slash_path us))
        = t # split_on (\<lambda>c. c = CHR ''/'') (u @ slash_path us)"
      by (rule split_on_append_sep) (use t in auto)
    ultimately show ?thesis
      using sp by (simp add: slash_path_def)
  qed
qed

lemma path_tokens_slash_path: "list_all token ts \<Longrightarrow> schema_path_tokens (slash_path ts) = ts"
proof -
  assume a: "list_all token ts"
  then have "filter (\<lambda>w. w \<noteq> []) ts = ts" by (induction ts) (auto simp: token_def)
  with split_slash_path [OF a] show ?thesis
    by (simp add: schema_path_tokens_def fields_func_def)
qed

lemma path_tokens_are_tokens: "list_all token (schema_path_tokens p)"
  by (auto simp: schema_path_tokens_def list_all_iff token_def
      dest: fields_func_nonempty fields_func_pieces)

end
