(* ===== verification/Schema_Cache.thy ===== *)
theory Schema_Cache
  imports Schema_Inspect
begin

text \<open>
  \<open>schema/cache.go\<close>: the TTL cache of schemas.  Times are nanoseconds of one monotonic clock, passed in
  where the code calls \<open>time.Now()\<close>; a TTL of zero disables expiry.  The contract of the store that
  uses it is the locale \<open>schema_cache\<close>: what a lookup returns after a store, a delete and a clear, in
  terms of the entries that are visible at a time.
\<close>

definition schema_key :: "string \<Rightarrow> string \<Rightarrow> string" where
  "schema_key path verb = path @ [CHR 0x00] @ verb"

record cache_entry =
  eschema :: command_schema
  eexpires :: int

record cache =
  cttl :: int
  centries :: "cache_entry gomap"

definition default_schema_ttl :: int where
  "default_schema_ttl = 30 * 1000000000"

definition new_cache_with_ttl :: "int \<Rightarrow> cache" where
  "new_cache_with_ttl ttl = \<lparr>cttl = ttl, centries = []\<rparr>"

definition new_cache :: cache where
  "new_cache = new_cache_with_ttl default_schema_ttl"

definition cache_get :: "int \<Rightarrow> string \<Rightarrow> cache \<Rightarrow> command_schema option \<times> cache" where
  "cache_get now key c =
     (case map_of (centries c) key of
        None \<Rightarrow> (None, c)
      | Some e \<Rightarrow>
          if cttl c > 0 \<and> now > eexpires e
          then (None, c\<lparr>centries := AList.delete key (centries c)\<rparr>)
          else (Some (eschema e), c))"

definition cache_put :: "int \<Rightarrow> string \<Rightarrow> command_schema \<Rightarrow> cache \<Rightarrow> cache" where
  "cache_put now key s c =
     c\<lparr>centries := AList.update key \<lparr>eschema = s, eexpires = now + cttl c\<rparr> (centries c)\<rparr>"

definition cache_delete :: "string \<Rightarrow> string \<Rightarrow> cache \<Rightarrow> cache" where
  "cache_delete path verb c =
     c\<lparr>centries := AList.delete (schema_key path verb) (centries c)\<rparr>"

definition cache_clear :: "cache \<Rightarrow> cache" where
  "cache_clear c = c\<lparr>centries := []\<rparr>"

text \<open>Keys are unambiguous: a NUL cannot appear in a path.\<close>

lemma schema_key_inj:
  assumes "CHR 0x00 \<notin> set p" "CHR 0x00 \<notin> set p'"
  shows "schema_key p v = schema_key p' v' \<longleftrightarrow> p = p' \<and> v = v'"
proof
  assume eq: "schema_key p v = schema_key p' v'"
  have tw: "takeWhile (\<lambda>c. c \<noteq> CHR 0x00) (schema_key q w) = q" if "CHR 0x00 \<notin> set q" for q w
    using that by (induction q) (auto simp: schema_key_def)
  from tw [OF assms(1), of v] tw [OF assms(2), of v'] eq have "p = p'" by simp
  with eq show "p = p' \<and> v = v'" by (simp add: schema_key_def)
qed simp

text \<open>The entries a caller can see at a time.\<close>

definition visible :: "int \<Rightarrow> cache \<Rightarrow> string \<Rightarrow> command_schema option" where
  "visible now c key =
     (case map_of (centries c) key of
        None \<Rightarrow> None
      | Some e \<Rightarrow> if cttl c > 0 \<and> now > eexpires e then None else Some (eschema e))"

lemma cache_get_fst: "fst (cache_get now key c) = visible now c key"
  by (simp add: cache_get_def visible_def split: option.split)

lemma visible_after_get:
  assumes "now \<le> later"
  shows "visible later (snd (cache_get now key c)) k = visible later c k"
  using assms
  by (auto simp: cache_get_def visible_def delete_conv' split: option.split)

lemma visible_put:
  "visible later (cache_put now key s c) k =
     (if k = key then (if cttl c > 0 \<and> later > now + cttl c then None else Some s)
      else visible later c k)"
  by (simp add: cache_put_def visible_def update_conv' split: option.split)

lemma visible_delete:
  "visible later (cache_delete path verb c) k =
     (if k = schema_key path verb then None else visible later c k)"
  by (simp add: cache_delete_def visible_def delete_conv' split: option.split)

lemma visible_clear: "visible later (cache_clear c) k = None"
  by (simp add: cache_clear_def visible_def)

lemma cache_ttl [simp]:
  "cttl (snd (cache_get now key c)) = cttl c" "cttl (cache_put now key s c) = cttl c"
  "cttl (cache_delete path verb c) = cttl c" "cttl (cache_clear c) = cttl c"
  by (simp_all add: cache_get_def cache_put_def cache_delete_def cache_clear_def split: option.split)

definition cache_ok :: "cache \<Rightarrow> bool" where
  "cache_ok c \<longleftrightarrow> gomap_ok (centries c) \<and> 0 \<le> cttl c"

lemma cache_ok_ops [inv_intros]:
  assumes "cache_ok c"
  shows "cache_ok (snd (cache_get now key c))" "cache_ok (cache_put now key s c)"
    "cache_ok (cache_delete path verb c)" "cache_ok (cache_clear c)"
  using assms
  by (auto simp: cache_ok_def cache_get_def cache_put_def cache_delete_def cache_clear_def
      split: option.split)

lemma cache_ok_new [inv_intros]: "cache_ok new_cache"
  by (simp add: cache_ok_def new_cache_def new_cache_with_ttl_def default_schema_ttl_def)

subsection \<open>The contract of a schema cache\<close>

text \<open>
  The users of the cache rely on the laws of this locale only: a lookup returns what is visible and
  hides nothing else, a store is visible until its TTL has passed, a delete removes one key.
\<close>

locale schema_cache =
  fixes get :: "int \<Rightarrow> string \<Rightarrow> 'c \<Rightarrow> command_schema option \<times> 'c"
    and put :: "int \<Rightarrow> string \<Rightarrow> command_schema \<Rightarrow> 'c \<Rightarrow> 'c"
    and delete :: "string \<Rightarrow> string \<Rightarrow> 'c \<Rightarrow> 'c"
    and clear :: "'c \<Rightarrow> 'c"
    and vis :: "int \<Rightarrow> 'c \<Rightarrow> string \<Rightarrow> command_schema option"
    and ttl :: "'c \<Rightarrow> int"
  assumes get_returns: "fst (get now key c) = vis now c key"
    and get_keeps: "now \<le> later \<Longrightarrow> vis later (snd (get now key c)) k = vis later c k"
    and put_visible: "vis later (put now key s c) k =
          (if k = key then (if ttl c > 0 \<and> later > now + ttl c then None else Some s)
           else vis later c k)"
    and delete_hides: "vis later (delete path verb c) k =
          (if k = schema_key path verb then None else vis later c k)"
    and clear_hides: "vis later (clear c) k = None"
    and get_ttl: "ttl (snd (get now key c)) = ttl c"
    and put_ttl: "ttl (put now key s c) = ttl c"
    and delete_ttl: "ttl (delete path verb c) = ttl c"
begin

lemma get_after_put:
  assumes "ttl c > 0 \<longrightarrow> later \<le> now + ttl c"
  shows "fst (get later key (put now key s c)) = Some s"
  using assms by (auto simp: get_returns put_visible)

lemma get_after_expiry:
  assumes "ttl c > 0" "later > now + ttl c"
  shows "fst (get later key (put now key s c)) = None"
  using assms by (simp add: get_returns put_visible)

lemma vis_after_gets:
  assumes "\<forall>(now, key) \<in> set ops. now \<le> later"
  shows "vis later (fold (\<lambda>(now, key) c. snd (get now key c)) ops c) k = vis later c k"
  using assms by (induction ops arbitrary: c) (auto simp: get_keeps)

lemma get_after_delete: "fst (get later (schema_key path verb) (delete path verb c)) = None"
  by (simp add: get_returns delete_hides)

lemma get_after_clear: "fst (get later key (clear c)) = None"
  by (simp add: get_returns clear_hides)

end

interpretation schemas: schema_cache cache_get cache_put cache_delete cache_clear visible cttl
  by unfold_locales (simp_all add: cache_get_fst visible_after_get visible_put visible_delete visible_clear)

text \<open>
  A run of the cache: the calls its users make, each at the time of the clock.
\<close>

datatype cache_op = OpGet int string | OpPut int string command_schema | OpDelete string string

fun cache_step :: "cache_op \<Rightarrow> cache \<Rightarrow> cache" where
  "cache_step (OpGet now key) c = snd (cache_get now key c)"
| "cache_step (OpPut now key s) c = cache_put now key s c"
| "cache_step (OpDelete path verb) c = cache_delete path verb c"

fun touches :: "string \<Rightarrow> cache_op \<Rightarrow> bool" where
  "touches k (OpGet now key) = False"
| "touches k (OpPut now key s) = (key = k)"
| "touches k (OpDelete path verb) = (schema_key path verb = k)"

fun op_time :: "cache_op \<Rightarrow> int option" where
  "op_time (OpGet now key) = Some now"
| "op_time (OpPut now key s) = Some now"
| "op_time (OpDelete path verb) = None"

lemma cache_run_keeps:
  assumes "\<forall>x \<in> set ops. \<not> touches k x \<and> (case op_time x of None \<Rightarrow> True | Some t \<Rightarrow> t \<le> later)"
  shows "visible later (fold cache_step ops c) k = visible later c k
       \<and> cttl (fold cache_step ops c) = cttl c"
  using assms
proof (induction ops arbitrary: c)
  case (Cons x ops)
  have "visible later (cache_step x c) k = visible later c k \<and> cttl (cache_step x c) = cttl c"
    using Cons.prems
    by (cases x) (auto simp: schemas.get_keeps schemas.put_visible schemas.delete_hides)
  with Cons show ?case by simp
qed simp

subsection \<open>Properties\<close>

text \<open>A stored schema is what every later lookup of its key returns while its TTL has not passed (for
ever when the TTL is zero or negative), whatever other lookups, stores and deletes of other keys come
in between.\<close>

lemma cached_schema_served:
  assumes "\<forall>x \<in> set ops. \<not> touches k x \<and> (case op_time x of None \<Rightarrow> True | Some t \<Rightarrow> t \<le> later)"
    and "cttl c > 0 \<longrightarrow> later \<le> now + cttl c"
  shows "fst (cache_get later k (fold cache_step ops (cache_put now k s c))) = Some s"
  using cache_run_keeps [OF assms(1), of "cache_put now k s c"] assms(2)
  by (auto simp: schemas.get_returns schemas.put_visible)

lemma cached_schema_served_witness:
  "fst (cache_get 9 ''k'' (fold cache_step [OpGet 4 ''j'', OpDelete ''p'' ''v'', OpGet 8 ''k'']
     (cache_put 0 ''k'' \<lparr>spath = [], sverb = [], scategory = CategoryTable, sattributes = [], ssource = []\<rparr>
        (new_cache_with_ttl 10))))
   = Some \<lparr>spath = [], sverb = [], scategory = CategoryTable, sattributes = [], ssource = []\<rparr>"
  by (rule cached_schema_served) (simp_all add: new_cache_with_ttl_def schema_key_def)

text \<open>A schema that has expired, was deleted, or is gone with a clear is not served.\<close>

lemma stale_schema_not_served:
  "(cttl c > 0 \<and> later > now + cttl c \<longrightarrow> fst (cache_get later k (cache_put now k s c)) = None)
   \<and> fst (cache_get later (schema_key path verb) (cache_delete path verb c)) = None
   \<and> fst (cache_get later k (cache_clear c)) = None"
  using schemas.get_after_expiry schemas.get_after_delete schemas.get_after_clear by blast

end
