(* ===== verification/Schema_Discover.thy ===== *)
theory Schema_Discover
  imports Schema_Cache "HOL-Library.Multiset"
begin

text \<open>
  \<open>schema/discover.go\<close>: the schema store.  \<open>discover\<close> takes the inspect seam of its transport, the
  context, the clock at the lookup and at the store, and threads the state of the store and of the
  transport through its probes; every early return of the code is a branch that returns both.
\<close>

record store =
  stcache :: cache
  stoverrides :: "category gomap"

definition new_store :: store where
  "new_store = \<lparr>stcache = new_cache, stoverrides = []\<rparr>"

definition register_category :: "string \<Rightarrow> string \<Rightarrow> category \<Rightarrow> store \<Rightarrow> store" where
  "register_category path verb c s =
     s\<lparr>stoverrides := AList.update (schema_key path verb) c (stoverrides s),
       stcache := cache_delete path verb (stcache s)\<rparr>"

definition has_command_node :: "inspect_node list \<Rightarrow> string \<Rightarrow> bool" where
  "has_command_node nodes name = list_ex (\<lambda>n. is_command_node n name) nodes"

definition names_of_argument_nodes :: "inspect_node list \<Rightarrow> string list" where
  "names_of_argument_nodes nodes =
     map nname (filter (\<lambda>n. is_argument_node n \<and> nname n \<noteq> []) nodes)"

fun merge_into :: "string list \<Rightarrow> string list \<Rightarrow> string list" where
  "merge_into dst [] = dst"
| "merge_into dst (n # src) = (if n \<in> set dst then merge_into dst src else merge_into (dst @ [n]) src)"

definition merge_names :: "string list \<Rightarrow> string list \<Rightarrow> string list" where
  "merge_names dst src = merge_into dst src"

definition structural_completion_tokens :: "string list" where
  "structural_completion_tokens =
     [''['', '']'', ''('', '')'', ''$'', [CHR 0x22], ''*'', ''<value>'', ''about'', [CHR 0x60]]"

definition usable_completion_names :: "string list \<Rightarrow> string list" where
  "usable_completion_names names =
     filter (\<lambda>n. n \<notin> set structural_completion_tokens) names"

definition sorted_attributes :: "string list \<Rightarrow> attribute list" where
  "sorted_attributes names = sort (map (\<lambda>n. \<lparr>aname = n\<rparr>) names)"

definition field_discovery_argument :: "string \<Rightarrow> inspect_node list \<Rightarrow> string" where
  "field_discovery_argument verb path_children =
     (if verb = ''print'' then (if has_command_node path_children ''print'' then ''proplist'' else [])
      else if verb = ''get'' then (if has_command_node path_children ''get'' then ''value-name'' else [])
      else [])"

definition discovered_category :: "inspect_node list \<Rightarrow> string \<Rightarrow> category" where
  "discovered_category path_children verb =
     (if has_command_node path_children verb
      then (if verb = ''print'' \<or> verb = ''get'' then CategoryTable else CategoryAction)
      else CategoryUnknown)"

definition store_put :: "int \<Rightarrow> string \<Rightarrow> command_schema \<Rightarrow> store \<Rightarrow> store" where
  "store_put now key sch s = s\<lparr>stcache := cache_put now key sch (stcache s)\<rparr>"

text \<open>
  A completion probe: its names are merged into the attributes, a swallowable error leaves them, and
  any other error ends the discovery.
\<close>

definition completion_probe ::
  "'t inspect_fn \<Rightarrow> ctx \<Rightarrow> string list \<Rightarrow> string list \<Rightarrow> ('t, string list) seam" where
  "completion_probe inspect ctx tokens attrs t =
     (case inspect ctx InspectCompletion (inspect_path tokens) t of
        (Inr rows, t') \<Rightarrow>
          (Inr (merge_names attrs (usable_completion_names (extract_completion_names rows))), t')
      | (Inl e, t') \<Rightarrow> (if swallowable e then (Inr attrs, t') else (Inl e, t')))"

definition field_probe ::
  "'t inspect_fn \<Rightarrow> ctx \<Rightarrow> string list \<Rightarrow> string \<Rightarrow> inspect_node list \<Rightarrow> string list
     \<Rightarrow> ('t, string list) seam" where
  "field_probe inspect ctx path_toks verb path_children attrs t =
     (let field_arg = field_discovery_argument verb path_children in
      if field_arg \<noteq> []
      then completion_probe inspect ctx (path_toks @ [verb, field_arg]) attrs t
      else (Inr attrs, t))"

definition discover_miss ::
  "'t inspect_fn \<Rightarrow> ctx \<Rightarrow> int \<Rightarrow> string \<Rightarrow> string \<Rightarrow> store \<Rightarrow> 't
     \<Rightarrow> (goerr + command_schema) \<times> store \<times> 't" where
  "discover_miss inspect ctx now path verb s t =
     (let key = schema_key path verb;
          path_toks = schema_path_tokens path;
          cmd_toks = path_toks @ [verb] in
      case inspect ctx InspectChild (inspect_path cmd_toks) t of
        (Inl e, t1) \<Rightarrow>
          if swallowable e
          then (let sch = \<lparr>spath = path, sverb = verb, scategory = CategoryUnknown,
                           sattributes = [], ssource = ''inspect-failed''\<rparr>
                in (Inr sch, store_put now key sch s, t1))
          else (Inl e, s, t1)
      | (Inr cmd_children, t1) \<Rightarrow>
          (case inspect_children_or_empty inspect ctx path_toks t1 of
             (Inl e, t2) \<Rightarrow> (Inl e, s, t2)
           | (Inr path_children, t2) \<Rightarrow>
               (case completion_probe inspect ctx cmd_toks (names_of_argument_nodes cmd_children) t2 of
                  (Inl e, t3) \<Rightarrow> (Inl e, s, t3)
                | (Inr attrs, t3) \<Rightarrow>
                    (case field_probe inspect ctx path_toks verb path_children attrs t3 of
                       (Inl e, t4) \<Rightarrow> (Inl e, s, t4)
                     | (Inr attrs', t4) \<Rightarrow>
                         let cat = (case map_of (stoverrides s) key of
                                      Some c \<Rightarrow> c
                                    | None \<Rightarrow> discovered_category path_children verb);
                             sch = \<lparr>spath = path, sverb = verb, scategory = cat,
                                    sattributes = sorted_attributes attrs',
                                    ssource = ''inspect child+completion''\<rparr>
                         in (Inr sch, store_put now key sch s, t4)))))"

definition discover ::
  "'t inspect_fn \<Rightarrow> ctx \<Rightarrow> int \<Rightarrow> int \<Rightarrow> string \<Rightarrow> string \<Rightarrow> store \<Rightarrow> 't
     \<Rightarrow> (goerr + command_schema) \<times> store \<times> 't" where
  "discover inspect ctx asked stored path verb s t =
     (case cache_get asked (schema_key path verb) (stcache s) of
        (Some sch, c) \<Rightarrow> (Inr sch, s\<lparr>stcache := c\<rparr>, t)
      | (None, c) \<Rightarrow> discover_miss inspect ctx stored path verb (s\<lparr>stcache := c\<rparr>) t)"

subsection \<open>Names\<close>

lemma has_command_node_iff: "has_command_node nodes name \<longleftrightarrow> (\<exists>n \<in> set nodes. is_command_node n name)"
  by (simp add: has_command_node_def list_ex_iff)

lemma set_merge_names [simp]: "set (merge_names dst src) = set dst \<union> set src"
  unfolding merge_names_def by (induction dst src rule: merge_into.induct) auto

lemma distinct_merge_names [simp]: "distinct (merge_names dst src) = distinct dst"
  unfolding merge_names_def by (induction dst src rule: merge_into.induct) auto

lemma merge_names_extends: "\<exists>new. merge_names dst src = dst @ new"
  unfolding merge_names_def by (induction dst src rule: merge_into.induct) auto

lemma aname_sorted_attributes: "map aname (sorted_attributes names) = sort names"
proof -
  have "sorted (map aname (sorted_attributes names))"
    unfolding sorted_attributes_def
    by (rule sorted_map_mono [OF sorted_sort]) (simp add: aname_mono mono_onI)
  moreover have "mset (map aname (sorted_attributes names)) = mset names"
    by (simp add: sorted_attributes_def mset_map multiset.map_comp comp_def)
  ultimately show ?thesis by (metis properties_for_sort)
qed

lemma sorted_attributes_sorted: "sorted (map aname (sorted_attributes names))"
  by (simp add: aname_sorted_attributes)

lemma has_attribute_sorted_attributes:
  "aname ` set (sorted_attributes names) = set names"
  using aname_sorted_attributes [of names] by (metis set_map set_sort)

lemma field_discovery_argument_cases:
  "field_discovery_argument verb nodes \<noteq> [] \<longleftrightarrow>
     (verb = ''print'' \<or> verb = ''get'') \<and> has_command_node nodes verb"
  by (simp add: field_discovery_argument_def)

subsection \<open>What discovery leaves in the store\<close>

lemma discover_hit:
  assumes "visible asked (stcache s) (schema_key path verb) = Some sch"
  shows "discover inspect ctx asked stored path verb s t = (Inr sch, s, t)"
proof -
  from assms have "cache_get asked (schema_key path verb) (stcache s) = (Some sch, stcache s)"
    by (auto simp: cache_get_def visible_def split: option.splits if_splits)
  then show ?thesis by (simp add: discover_def)
qed

lemma discover_miss_eq:
  assumes "visible asked (stcache s) (schema_key path verb) = None"
  shows "discover inspect ctx asked stored path verb s t
       = discover_miss inspect ctx stored path verb
           (s\<lparr>stcache := snd (cache_get asked (schema_key path verb) (stcache s))\<rparr>) t"
proof -
  obtain c where "cache_get asked (schema_key path verb) (stcache s) = (None, c)"
    using assms by (metis cache_get_fst prod.collapse)
  then show ?thesis by (simp add: discover_def)
qed

text \<open>Discovery stores exactly what it answers, and stores nothing when it fails.\<close>

lemma discover_miss_stores:
  "case discover_miss inspect ctx now path verb s t of
     (Inl e, s', t') \<Rightarrow> s' = s \<and> \<not> swallowable e
   | (Inr sch, s', t') \<Rightarrow> s' = store_put now (schema_key path verb) sch s
       \<and> spath sch = path \<and> sverb sch = verb \<and> sorted (map aname (sattributes sch))"
  by (auto simp: discover_miss_def Let_def inspect_children_or_empty_def completion_probe_def
      field_probe_def sorted_attributes_sorted
      split: prod.splits sum.splits if_splits)

subsection \<open>The contract of an inspecting transport\<close>

text \<open>
  The store relies on one operation of its transport.  An \<open>inspecting\<close> transport makes at most one
  round trip for it; an \<open>answering\<close> one also answers from a fixed table while it is in order.
\<close>

locale inspecting =
  fixes inspect :: "'t inspect_fn"
    and trips :: "'t \<Rightarrow> nat"
  assumes inspect_trip: "trips (snd (inspect ctx kind p t)) \<le> Suc (trips t)"
begin

lemma inspect_trip_eq: "inspect ctx kind p t = (r, t') \<Longrightarrow> trips t' \<le> Suc (trips t)"
  using inspect_trip [of ctx kind p t] by simp

lemma children_trips: "trips (snd (inspect_children_or_empty inspect ctx toks t)) \<le> Suc (trips t)"
  by (auto simp: inspect_children_or_empty_def dest: inspect_trip_eq split: prod.split sum.split)

lemma completion_trips: "trips (snd (completion_probe inspect ctx toks attrs t)) \<le> Suc (trips t)"
  by (auto simp: completion_probe_def dest: inspect_trip_eq split: prod.split sum.split)

lemma field_trips:
  "trips (snd (field_probe inspect ctx toks verb nodes attrs t)) \<le> Suc (trips t)"
  using completion_trips [of ctx "toks @ [verb, field_discovery_argument verb nodes]" attrs t]
  by (simp add: field_probe_def Let_def)

lemma discover_miss_trips:
  "trips (snd (snd (discover_miss inspect ctx now path verb s t))) \<le> trips t + 4"
proof -
  have c: "inspect_children_or_empty inspect ctx toks t = (r, t') \<Longrightarrow> trips t' \<le> Suc (trips t)" for toks r t t'
    using children_trips [of ctx toks t] by simp
  have p: "completion_probe inspect ctx toks attrs t = (r, t') \<Longrightarrow> trips t' \<le> Suc (trips t)" for toks attrs r t t'
    using completion_trips [of ctx toks attrs t] by simp
  have f: "field_probe inspect ctx toks verb nodes attrs t = (r, t') \<Longrightarrow> trips t' \<le> Suc (trips t)"
    for toks nodes attrs r t t'
    using field_trips [of ctx toks verb nodes attrs t] by simp
  show ?thesis
    by (auto simp: discover_miss_def Let_def split: prod.split sum.split
        dest!: inspect_trip_eq c p f)
qed

lemma discover_trips:
  "trips (snd (snd (discover inspect ctx asked stored path verb s t)))
     \<le> trips t + (if visible asked (stcache s) (schema_key path verb) = None then 4 else 0)"
  using discover_miss_trips by (auto simp: discover_hit discover_miss_eq)

end

locale answering = inspecting inspect trips
  for inspect :: "'t inspect_fn" and trips :: "'t \<Rightarrow> nat" +
  fixes answers :: "inspect_kind \<Rightarrow> string \<Rightarrow> goerr + inspect_node list"
    and serving :: "'t \<Rightarrow> bool"
  assumes serves: "serving t \<Longrightarrow> fst (inspect ctx kind p t) = answers kind p"
    and keeps_serving: "serving t \<Longrightarrow> serving (snd (inspect ctx kind p t))"
begin

lemma inspect_served:
  assumes "serving t"
  obtains t' where "inspect ctx kind p t = (answers kind p, t')" "serving t'"
  using assms serves keeps_serving by (metis prod.collapse)

lemma children_served:
  assumes "serving t"
  obtains t' where "serving t'" "inspect_children_or_empty inspect ctx toks t =
      ((case answers InspectChild (inspect_path toks) of
          Inl e \<Rightarrow> if swallowable e then Inr [] else Inl e
        | Inr nodes \<Rightarrow> Inr nodes), t')"
proof -
  obtain t' where t': "inspect ctx InspectChild (inspect_path toks) t
      = (answers InspectChild (inspect_path toks), t')" "serving t'"
    using assms by (rule inspect_served)
  show thesis
    by (rule that [OF t'(2)]) (use t'(1) in \<open>simp add: inspect_children_or_empty_def split: sum.split\<close>)
qed

lemma completion_served:
  assumes "serving t"
  obtains t' where "serving t'" "completion_probe inspect ctx toks attrs t =
      ((case answers InspectCompletion (inspect_path toks) of
          Inl e \<Rightarrow> if swallowable e then Inr attrs else Inl e
        | Inr rows \<Rightarrow> Inr (merge_names attrs (usable_completion_names (extract_completion_names rows)))), t')"
proof -
  obtain t' where t': "inspect ctx InspectCompletion (inspect_path toks) t
      = (answers InspectCompletion (inspect_path toks), t')" "serving t'"
    using assms by (rule inspect_served)
  show thesis
    by (rule that [OF t'(2)]) (use t'(1) in \<open>simp add: completion_probe_def split: sum.split\<close>)
qed

end

text \<open>The rows a table of answers gives, and the attribute names of a command under it.\<close>

definition rows_for ::
  "(inspect_kind \<Rightarrow> string \<Rightarrow> goerr + inspect_node list) \<Rightarrow> inspect_kind \<Rightarrow> string list \<Rightarrow> inspect_node list" where
  "rows_for answers kind toks = (case answers kind (inspect_path toks) of Inl e \<Rightarrow> [] | Inr rows \<Rightarrow> rows)"

definition completions_for ::
  "(inspect_kind \<Rightarrow> string \<Rightarrow> goerr + inspect_node list) \<Rightarrow> string list \<Rightarrow> string set" where
  "completions_for answers toks =
     {n \<in> set (extract_completion_names (rows_for answers InspectCompletion toks)).
        n \<notin> set structural_completion_tokens}"

lemma completions_for_usable:
  "completions_for answers toks =
     set (usable_completion_names (extract_completion_names (rows_for answers InspectCompletion toks)))"
  by (simp add: completions_for_def usable_completion_names_def)

definition schema_names ::
  "(inspect_kind \<Rightarrow> string \<Rightarrow> goerr + inspect_node list) \<Rightarrow> string \<Rightarrow> string \<Rightarrow> string set" where
  "schema_names answers path verb =
     (let pt = schema_path_tokens path;
          fa = field_discovery_argument verb (rows_for answers InspectChild pt) in
      {nname n | n. n \<in> set (rows_for answers InspectChild (pt @ [verb])) \<and> is_argument_node n \<and> nname n \<noteq> []}
      \<union> completions_for answers (pt @ [verb])
      \<union> (if fa = [] then {} else completions_for answers (pt @ [verb, fa])))"

definition all_swallowable :: "(inspect_kind \<Rightarrow> string \<Rightarrow> goerr + inspect_node list) \<Rightarrow> bool" where
  "all_swallowable answers \<longleftrightarrow> (\<forall>kind p e. answers kind p = Inl e \<longrightarrow> swallowable e)"

text \<open>The schema of a command the device does not know: whatever the store has registered for it, its category is
unknown.\<close>

definition unresolved_schema :: "string \<Rightarrow> string \<Rightarrow> command_schema" where
  "unresolved_schema path verb =
     \<lparr>spath = path, sverb = verb, scategory = CategoryUnknown, sattributes = [], ssource = ''inspect-failed''\<rparr>"

context answering
begin

lemma completion_names_served:
  assumes "serving t" "all_swallowable answers"
  obtains t' attrs' where "serving t'" "completion_probe inspect ctx toks attrs t = (Inr attrs', t')"
    "set attrs' = set attrs \<union> completions_for answers toks"
proof -
  have none: "extract_completion_names [] = []" by (simp add: extract_completion_names_def)
  obtain t' where t': "serving t'" "completion_probe inspect ctx toks attrs t =
      ((case answers InspectCompletion (inspect_path toks) of
          Inl e \<Rightarrow> if swallowable e then Inr attrs else Inl e
        | Inr rows \<Rightarrow> Inr (merge_names attrs (usable_completion_names (extract_completion_names rows)))), t')"
    using completion_served [OF assms(1)] by blast
  show thesis
  proof (cases "answers InspectCompletion (inspect_path toks)")
    case (Inl e)
    with assms(2) have "swallowable e" by (simp add: all_swallowable_def)
    with Inl t' show thesis
      by (intro that [of t' attrs]) (simp_all add: completions_for_def rows_for_def none)
  next
    case (Inr rows)
    with t' show thesis
      by (intro that [of t']) (auto simp: completions_for_def rows_for_def usable_completion_names_def)
  qed
qed

lemma field_names_served:
  assumes "serving t" "all_swallowable answers"
  shows "\<exists>t' attrs'. field_probe inspect ctx toks verb nodes attrs t = (Inr attrs', t')
     \<and> set attrs' = set attrs \<union> (if field_discovery_argument verb nodes = [] then {}
          else completions_for answers (toks @ [verb, field_discovery_argument verb nodes]))"
proof (cases "field_discovery_argument verb nodes = []")
  case False
  obtain t' attrs' where "serving t'"
    "completion_probe inspect ctx (toks @ [verb, field_discovery_argument verb nodes]) attrs t = (Inr attrs', t')"
    "set attrs' = set attrs \<union> completions_for answers (toks @ [verb, field_discovery_argument verb nodes])"
    using completion_names_served [OF assms] .
  with False show ?thesis by (simp add: field_probe_def)
qed (simp add: field_probe_def)

lemma children_rows_served:
  assumes "serving t" "all_swallowable answers"
  obtains t' where "serving t'"
    "inspect_children_or_empty inspect ctx toks t = (Inr (rows_for answers InspectChild toks), t')"
proof -
  obtain t' where t': "serving t'" "inspect_children_or_empty inspect ctx toks t =
      ((case answers InspectChild (inspect_path toks) of
          Inl e \<Rightarrow> if swallowable e then Inr [] else Inl e
        | Inr nodes \<Rightarrow> Inr nodes), t')"
    using children_served [OF assms(1)] by blast
  show thesis
    by (rule that [OF t'(1)])
      (use t'(2) assms(2) in \<open>simp add: rows_for_def all_swallowable_def split: sum.splits\<close>)
qed

lemma discover_miss_served:
  assumes "serving t" "all_swallowable answers"
    and "answers InspectChild (inspect_path (schema_path_tokens path @ [verb])) = Inr cmd_children"
  shows "\<exists>sch t'. discover_miss inspect ctx now path verb s t
       = (Inr sch, store_put now (schema_key path verb) sch s, t')
     \<and> aname ` set (sattributes sch) = schema_names answers path verb
     \<and> scategory sch = (case map_of (stoverrides s) (schema_key path verb) of
          Some c \<Rightarrow> c
        | None \<Rightarrow> discovered_category (rows_for answers InspectChild (schema_path_tokens path)) verb)"
proof -
  let ?pt = "schema_path_tokens path"
  let ?nodes = "rows_for answers InspectChild ?pt"
  let ?fa = "field_discovery_argument verb ?nodes"
  obtain t1 where t1: "inspect ctx InspectChild (inspect_path (?pt @ [verb])) t = (Inr cmd_children, t1)"
    "serving t1"
    using inspect_served [OF assms(1)] assms(3) by metis
  obtain t2 where t2: "serving t2" "inspect_children_or_empty inspect ctx ?pt t1 = (Inr ?nodes, t2)"
    using children_rows_served [OF t1(2) assms(2)] by metis
  obtain t3 attrs where t3: "serving t3"
    "completion_probe inspect ctx (?pt @ [verb]) (names_of_argument_nodes cmd_children) t2 = (Inr attrs, t3)"
    "set attrs = set (names_of_argument_nodes cmd_children) \<union> completions_for answers (?pt @ [verb])"
    using completion_names_served [OF t2(1) assms(2)] by metis
  obtain t4 attrs' where t4: "field_probe inspect ctx ?pt verb ?nodes attrs t3 = (Inr attrs', t4)"
    "set attrs' = set attrs \<union> (if ?fa = [] then {} else completions_for answers (?pt @ [verb, ?fa]))"
    using field_names_served [OF t3(1) assms(2)] by metis
  have "set (names_of_argument_nodes cmd_children) =
      {nname n | n. n \<in> set (rows_for answers InspectChild (?pt @ [verb])) \<and> is_argument_node n \<and> nname n \<noteq> []}"
    using assms(3) by (auto simp: names_of_argument_nodes_def rows_for_def)
  with t3(3) t4(2) have names: "set attrs' = schema_names answers path verb"
    by (simp add: schema_names_def Let_def)
  show ?thesis
    using t1(1) t2(2) t3(2) t4(1) names
    by (simp add: discover_miss_def Let_def has_attribute_sorted_attributes)
qed

lemma discover_miss_unresolved:
  assumes "serving t" "answers InspectChild (inspect_path (schema_path_tokens path @ [verb])) = Inl e" "swallowable e"
  shows "\<exists>t'. discover_miss inspect ctx now path verb s t
       = (Inr (unresolved_schema path verb), store_put now (schema_key path verb) (unresolved_schema path verb) s, t')"
proof -
  obtain t' where "inspect ctx InspectChild (inspect_path (schema_path_tokens path @ [verb])) t = (Inl e, t')"
    using inspect_served [OF assms(1)] assms(2) by metis
  with assms(3) show ?thesis by (simp add: discover_miss_def Let_def unresolved_schema_def)
qed

end

subsection \<open>Properties\<close>

text \<open>Discovery answers from the cache without touching the transport, and a fresh discovery stores
exactly the schema it answers -- for the path and verb asked for, with its attributes sorted -- so the
next one within the TTL is answered from the cache; a failed discovery stores nothing.\<close>

lemma discovery_is_cached:
  "case discover_miss inspect ctx now path verb s t of
     (Inl e, s', t') \<Rightarrow> s' = s \<and> \<not> swallowable e
   | (Inr sch, s', t') \<Rightarrow>
       spath sch = path \<and> sverb sch = verb \<and> sorted (map aname (sattributes sch))
       \<and> (\<forall>later stored' u. (cttl (stcache s) > 0 \<longrightarrow> later \<le> now + cttl (stcache s)) \<longrightarrow>
            discover inspect' ctx' later stored' path verb s' u = (Inr sch, s', u))"
proof (cases "discover_miss inspect ctx now path verb s t")
  case (fields r s' t')
  note stores = discover_miss_stores [where inspect = inspect and ctx = ctx and now = now and path = path
      and verb = verb and s = s and t = t, unfolded fields]
  show ?thesis
  proof (cases r)
    case (Inl e)
    with fields stores show ?thesis by simp
  next
    case (Inr sch)
    with stores have "s' = store_put now (schema_key path verb) sch s" by simp
    then have vis: "cttl (stcache s) > 0 \<longrightarrow> later \<le> now + cttl (stcache s) \<Longrightarrow>
        visible later (stcache s') (schema_key path verb) = Some sch" for later
      by (auto simp: store_put_def schemas.put_visible)
    have "discover inspect' ctx' later stored' path verb s' u = (Inr sch, s', u)"
      if "cttl (stcache s) > 0 \<longrightarrow> later \<le> now + cttl (stcache s)" for later stored' u
      by (rule discover_hit) (rule vis [OF that])
    with fields Inr stores show ?thesis by simp
  qed
qed

text \<open>A command the device does not know is no error: when the child probe fails with a swallowable
error the answer is a schema of unknown category, whatever override is registered.\<close>

lemma unknown_command_is_unknown_category:
  assumes "inspect ctx InspectChild (inspect_path (schema_path_tokens path @ [verb])) t = (Inl e, t')"
    and "swallowable e"
  shows "\<exists>sch. discover_miss inspect ctx now path verb s t =
      (Inr sch, store_put now (schema_key path verb) sch s, t')
    \<and> scategory sch = CategoryUnknown \<and> sattributes sch = []"
  using assms by (simp add: discover_miss_def Let_def)

end
