(* ===== verification/Gate2.thy ===== *)
theory Gate2
  imports Schema_Discover
begin

text \<open>
  \<open>gate/gate2.go\<close>: the attribute gate over the schema store.  The range over the attribute map is a
  range over the association list; the missing names are sorted before they are used.
\<close>

record 't gate2 =
  g2inspect :: "'t inspect_fn"
  g2supports :: "('t \<Rightarrow> bool) option"

definition missing_attributes :: "command_schema \<Rightarrow> attrs \<Rightarrow> string list" where
  "missing_attributes sch m = filter (\<lambda>k. \<not> has_attribute sch k) (map fst m)"

definition unknown_attributes_error :: "command \<Rightarrow> command_schema \<Rightarrow> string list \<Rightarrow> goerr" where
  "unknown_attributes_error cmd sch missing =
     ros_new CodeValidationUnknownAttribute (''unknown attribute(s): '' @ go_join missing '', '')
       [WithContext ((via_context ''gate2'')
          \<lparr>ctx_path := cpath cmd,
           ctx_extra :=
             [(''path'', AnyStr (cpath cmd)),
              (''verb'', AnyStr (cverb cmd)),
              (''missing'', AnyStrs missing),
              (''available'', AnyStrs (map aname (sattributes sch))),
              (''validationSource'', AnyStr (ssource sch))]\<rparr>)]"

definition gate2_validate ::
  "'t gate2 \<Rightarrow> ctx \<Rightarrow> int \<Rightarrow> int \<Rightarrow> command \<Rightarrow> store \<Rightarrow> 't \<Rightarrow> goerr option \<times> store \<times> 't" where
  "gate2_validate g ctx asked stored cmd s t =
     (if (case g2supports g of None \<Rightarrow> False | Some f \<Rightarrow> \<not> f t) then (None, s, t)
      else
        (case discover (g2inspect g) ctx asked stored (cpath cmd) (cverb cmd) s t of
           (Inl e, s', t') \<Rightarrow> (Some e, s', t')
         | (Inr sch, s', t') \<Rightarrow>
             if scategory sch = CategoryUnknown then (None, s', t')
             else
               (let missing = missing_attributes sch (cattrs cmd) in
                if missing = [] then (None, s', t')
                else (Some (unknown_attributes_error cmd sch (sort missing)), s', t'))))"

lemma missing_attributes_iff:
  "k \<in> set (missing_attributes sch m) \<longleftrightarrow> k \<in> fst ` set m \<and> k \<notin> aname ` set (sattributes sch)"
  by (auto simp: missing_attributes_def has_attribute_iff)

lemma set_missing_attributes:
  "set (missing_attributes sch m) = fst ` set m - aname ` set (sattributes sch)"
  by (simp add: set_eq_iff missing_attributes_iff)

lemma sorted_missing_order_independent:
  assumes "gomap_ok m" "gomap_ok m'" "map_of m = map_of m'"
  shows "sort (missing_attributes sch m) = sort (missing_attributes sch m')"
proof -
  have "sort (missing_attributes sch m0) = filter (\<lambda>k. \<not> has_attribute sch k) (sorted_keys m0)" for m0 :: attrs
    by (simp add: missing_attributes_def sorted_keys_def filter_sort)
  with sorted_keys_order_independent [OF assms] show ?thesis by simp
qed

text \<open>What the gate says of a command whose schema is known.\<close>

lemma gate2_validate_known:
  assumes "\<forall>f. g2supports g = Some f \<longrightarrow> f t"
    and "discover (g2inspect g) ctx asked stored (cpath cmd) (cverb cmd) s t = (Inr sch, s', t')"
    and "scategory sch \<noteq> CategoryUnknown"
  shows "gate2_validate g ctx asked stored cmd s t =
     (if fst ` set (cattrs cmd) \<subseteq> aname ` set (sattributes sch) then None
      else Some (unknown_attributes_error cmd sch (sort (missing_attributes sch (cattrs cmd)))), s', t')"
proof -
  have "missing_attributes sch (cattrs cmd) = [] \<longleftrightarrow> fst ` set (cattrs cmd) \<subseteq> aname ` set (sattributes sch)"
    using missing_attributes_iff [of _ sch "cattrs cmd"] by (metis (no_types, lifting) list.set(1) empty_iff last_in_set subset_iff)
  with assms show ?thesis
    by (auto simp: gate2_validate_def Let_def split: option.split)
qed

subsection \<open>Properties\<close>

text \<open>C30: On a command whose schema is known the attribute gate accepts exactly when every attribute of the
command is in the schema; otherwise it rejects with the unknown-attribute code and names, sorted,
exactly the missing attributes.\<close>

theorem gate2_accepts_known_attributes:
  assumes "\<forall>f. g2supports g = Some f \<longrightarrow> f t"
    and "discover (g2inspect g) ctx asked stored (cpath cmd) (cverb cmd) s t = (Inr sch, s', t')"
    and "scategory sch \<noteq> CategoryUnknown"
  shows "if fst ` set (cattrs cmd) \<subseteq> aname ` set (sattributes sch)
    then gate2_validate g ctx asked stored cmd s t = (None, s', t')
    else \<exists>missing. gate2_validate g ctx asked stored cmd s t =
        (Some (unknown_attributes_error cmd sch missing), s', t')
      \<and> sorted missing \<and> set missing = fst ` set (cattrs cmd) - aname ` set (sattributes sch)
      \<and> ros_code (unknown_attributes_error cmd sch missing) = CodeValidationUnknownAttribute"
proof (cases "fst ` set (cattrs cmd) \<subseteq> aname ` set (sattributes sch)")
  case True
  then show ?thesis by (simp add: gate2_validate_known [OF assms])
next
  case False
  let ?missing = "sort (missing_attributes sch (cattrs cmd))"
  have "gate2_validate g ctx asked stored cmd s t = (Some (unknown_attributes_error cmd sch ?missing), s', t')"
    unfolding gate2_validate_known [OF assms] using False by (simp only: if_False)
  moreover have "set ?missing = fst ` set (cattrs cmd) - aname ` set (sattributes sch)"
    by (simp add: set_missing_attributes)
  moreover have "sorted ?missing"
    "ros_code (unknown_attributes_error cmd sch ?missing) = CodeValidationUnknownAttribute"
    by (simp_all add: unknown_attributes_error_def)
  ultimately show ?thesis unfolding if_not_P [OF False] by blast
qed

lemma gate2_accepts_known_attributes_witness:
  "\<exists>missing s'. gate2_validate \<lparr>g2inspect = (\<lambda>ctx kind p t. (Inl (PlainErr ''down''), t)), g2supports = None\<rparr> None 1 2
      ((script_command [])\<lparr>cpath := ''/x'', cverb := ''v'', cattrs := [(''b'', []), (''a'', [])]\<rparr>)
      (store_put 0 (schema_key ''/x'' ''v'')
         \<lparr>spath = ''/x'', sverb = ''v'', scategory = CategoryAction, sattributes = [\<lparr>aname = ''b''\<rparr>], ssource = []\<rparr> new_store) ()
    = (Some missing, s', ()) \<and> ros_code missing = CodeValidationUnknownAttribute"
proof -
  let ?sch = "\<lparr>spath = ''/x'', sverb = ''v'', scategory = CategoryAction, sattributes = [\<lparr>aname = ''b''\<rparr>], ssource = []\<rparr>"
  let ?s = "store_put 0 (schema_key ''/x'' ''v'') ?sch new_store"
  let ?cmd = "(script_command [])\<lparr>cpath := ''/x'', cverb := ''v'', cattrs := [(''b'', []), (''a'', [])]\<rparr>"
  let ?g = "\<lparr>g2inspect = (\<lambda>ctx kind p t. (Inl (PlainErr ''down''), t)), g2supports = None\<rparr>"
  have "visible 1 (stcache ?s) (schema_key ''/x'' ''v'') = Some ?sch"
    by (simp add: store_put_def schemas.put_visible new_store_def new_cache_def new_cache_with_ttl_def
        default_schema_ttl_def)
  then have d: "discover (g2inspect ?g) None 1 2 (cpath ?cmd) (cverb ?cmd) ?s () = (Inr ?sch, ?s, ())"
    by (simp add: discover_hit)
  show ?thesis
    using gate2_accepts_known_attributes [OF _ d] by (auto simp: script_command_def)
qed

text \<open>Where the gate cannot apply it accepts: a session without inspect is not asked anything, and a
command of unknown category passes.\<close>

lemma gate2_skips:
  "(g2supports g = Some f \<and> \<not> f t \<longrightarrow> gate2_validate g ctx asked stored cmd s t = (None, s, t))
   \<and> ((\<forall>f. g2supports g = Some f \<longrightarrow> f t)
      \<and> discover (g2inspect g) ctx asked stored (cpath cmd) (cverb cmd) s t = (Inr sch, s', t')
      \<and> scategory sch = CategoryUnknown \<longrightarrow> gate2_validate g ctx asked stored cmd s t = (None, s', t'))"
  by (auto simp: gate2_validate_def split: option.split)

end
