(* ===== verification/Client_Transport.thy ===== *)
theory Client_Transport
  imports Client_Sync Gate1 Gate2
begin

text \<open>
  \<open>client_transport.go\<close>: the transport seam of the native-api client, over any way \<open>run\<close> of running
  one sentence.  The synchronous client provides one (\<open>sync_call\<close>).  A session is the connection with
  the probe results and the round-trip counter of \<open>runState\<close>.
\<close>

type_synonym 'c call = "ctx \<Rightarrow> string list \<Rightarrow> ('c, reply) seam"

text \<open>
  \<open>RunArgsContext\<close> of the synchronous client as a call: its pair of results is an error when the
  error is set, and a reply otherwise.  The writer is free whenever no call is running.
\<close>

definition sync_call :: "client call" where
  "sync_call ctx ws c =
     (case sync_exchange ws (c\<lparr>cw := (cw c)\<lparr>wlocked := True\<rparr>\<rparr>) of
        ((r, Some e), c') \<Rightarrow> (Inl e, c')
      | ((r, None), c') \<Rightarrow> (Inr (the r), c'))"

lemma sync_call_run_sync:
  assumes "\<not> wlocked (cw c)"
  shows "case run_sync ws c of
      (Returns (r, Some e), c') \<Rightarrow> sync_call ctx ws c = (Inl e, c')
    | (Returns (r, None), c') \<Rightarrow> (\<exists>rep. r = Some rep \<and> sync_call ctx ws c = (Inr rep, c'))
    | _ \<Rightarrow> False"
proof -
  obtain r e c' where ex: "sync_exchange ws (c\<lparr>cw := (cw c)\<lparr>wlocked := True\<rparr>\<rparr>) = ((r, e), c')"
    by (metis surj_pair)
  with assms have rs: "run_sync ws c = (Returns (r, e), c')"
    by (simp add: run_sync_def begin_sentence_def)
  then show ?thesis
    using ex run_sync_reply_has_done [of ws c r c']
    by (cases e) (auto simp: sync_call_def)
qed

subsection \<open>Translation\<close>

definition translate_error :: "(string \<Rightarrow> string) \<Rightarrow> goerr \<Rightarrow> goerr" where
  "translate_error q err =
     (case errors_as as_device err of
        None \<Rightarrow> err
      | Some sen \<Rightarrow>
          (let m = gomap_str (sen_map sen) ''message'';
               summary = (if m = [] then error_text q (DeviceErr sen) else m);
               code = (if sen_word sen = ''!fatal'' then CodeSessionClosed else CodeCommandFailed)
           in ros_new code summary [WithCause err, WithContext (via_context ''native-api'')]))"

definition raw_sentence_words :: "sentence \<Rightarrow> string list" where
  "raw_sentence_words sen =
     [sen_word sen] @ map (\<lambda>(k, v). ''='' @ k @ ''='' @ v) (sen_list sen)
     @ (if sen_tag sen \<noteq> [] then [''.tag='' @ sen_tag sen] else [])"

definition translate_sentence :: "sentence \<Rightarrow> treply" where
  "translate_sentence sen =
     \<lparr>rtype = reply_type_of (sen_word sen), rattrs = sen_map sen, rtag = sen_tag sen,
      rwords = raw_sentence_words sen\<rparr>"

definition translate_reply :: "reply \<Rightarrow> treply list" where
  "translate_reply r =
     map translate_sentence (re_sens r)
     @ (case done_sen r of None \<Rightarrow> [] | Some sen \<Rightarrow> [translate_sentence sen])"

subsection \<open>The seam\<close>

record 'c session =
  sconn :: 'c
  sinspect_probed :: bool
  ssupports_inspect :: bool
  sparse_probed :: bool
  ssupports_parse :: bool
  strips :: nat

definition new_session :: "'c \<Rightarrow> 'c session" where
  "new_session c =
     \<lparr>sconn = c, sinspect_probed = False, ssupports_inspect = False, sparse_probed = False,
      ssupports_parse = False, strips = 0\<rparr>"

definition client_list ::
  "(string \<Rightarrow> string) \<Rightarrow> 'c call \<Rightarrow> ctx \<Rightarrow> command \<Rightarrow> ('c session, treply list) seam" where
  "client_list q run ctx cmd s =
     (case run ctx (words cmd) (sconn s) of
        (Inl e, c) \<Rightarrow> (Inl (translate_error q e), s\<lparr>sconn := c\<rparr>)
      | (Inr r, c) \<Rightarrow> (Inr (translate_reply r), s\<lparr>sconn := c\<rparr>))"

definition client_command :: "(string \<Rightarrow> string) \<Rightarrow> 'c call \<Rightarrow> 'c session command_fn" where
  "client_command q run ctx cmd s =
     (case client_list q run ctx cmd s of
        (Inl e, s') \<Rightarrow> (Inl e, s')
      | (Inr replies, s') \<Rightarrow>
          if replies = []
          then (Inl (ros_new CodeCommandFailed ''no reply received from device''
                 [WithContext (via_context ''native-api'')]), s')
          else (Inr (last replies), s'))"

definition inspect_command :: "inspect_kind \<Rightarrow> string \<Rightarrow> command" where
  "inspect_command request path =
     (script_command [])\<lparr>cpath := ''/console'', cverb := ''inspect'',
        cattrs := [(''request'', inspect_kind_string request), (''path'', path)]\<rparr>"

definition node_of :: "treply \<Rightarrow> inspect_node" where
  "node_of rep =
     \<lparr>ntype = gomap_str (rattrs rep) ''type'', nnode_type = gomap_str (rattrs rep) ''node-type'',
      nname = gomap_str (rattrs rep) ''name'', ncompletion = gomap_str (rattrs rep) ''completion'',
      nvalue = gomap_str (rattrs rep) ''value'', ntext = gomap_str (rattrs rep) ''text''\<rparr>"

definition inspect_nodes :: "(string \<Rightarrow> string) \<Rightarrow> 'c call \<Rightarrow> 'c session inspect_fn" where
  "inspect_nodes q run ctx request path s =
     (case client_list q run ctx (inspect_command request path) (s\<lparr>strips := strips s + 1\<rparr>) of
        (Inl e, s') \<Rightarrow> (Inl e, s')
      | (Inr replies, s') \<Rightarrow>
          (Inr (map node_of (filter (\<lambda>rep. rtype rep = ReplyRe) replies)), s'))"

text \<open>The capability probes: each asks the device once and remembers the answer.\<close>

definition probe_inspect ::
  "(string \<Rightarrow> string) \<Rightarrow> 'c call \<Rightarrow> ctx \<Rightarrow> 'c session \<Rightarrow> goerr option \<times> 'c session" where
  "probe_inspect q run ctx s =
     (if sinspect_probed s then (None, s)
      else
        (case inspect_nodes q run ctx InspectChild ''system'' s of
           (Inl e, s') \<Rightarrow>
             if errors_as as_device e \<noteq> None then (None, s'\<lparr>sinspect_probed := True\<rparr>)
             else (Some e, s')
         | (Inr nodes, s') \<Rightarrow> (None, s'\<lparr>sinspect_probed := True, ssupports_inspect := True\<rparr>)))"

definition supports_inspect :: "'c session \<Rightarrow> bool" where
  "supports_inspect s \<longleftrightarrow> sinspect_probed s \<and> ssupports_inspect s"

definition probe_script :: string where
  "probe_script = '':put '' @ [CHR 0x22] @ ''probe'' @ [CHR 0x22]"

definition probe_parse ::
  "(string \<Rightarrow> string) \<Rightarrow> 'c call \<Rightarrow> ctx \<Rightarrow> 'c session \<Rightarrow> goerr option \<times> 'c session" where
  "probe_parse q run ctx s =
     (if sparse_probed s then (None, s)
      else
        (case client_command q run ctx (script_command probe_script) s of
           (Inl e, s') \<Rightarrow>
             if errors_as as_device e \<noteq> None then (None, s'\<lparr>sparse_probed := True\<rparr>)
             else (Some e, s')
         | (Inr rep, s') \<Rightarrow>
             (None, s'\<lparr>sparse_probed := True, ssupports_parse := (reply_ret rep \<noteq> [])\<rparr>)))"

definition supports_parse :: "'c session \<Rightarrow> bool" where
  "supports_parse s \<longleftrightarrow> sparse_probed s \<and> ssupports_parse s"

text \<open>\<open>clientTransport\<close>: the static seam matrix; its other methods delegate to the client.\<close>

definition native_capabilities :: capabilities where
  "native_capabilities = \<lparr>structured = True, console = False, inspect_cap = True\<rparr>"

subsection \<open>Laws of the seam\<close>

lemma translate_error_keeps_device: "errors_as as_device (translate_error q err) = errors_as as_device err"
  by (simp add: translate_error_def ros_new_def Let_def split: option.split)

lemma client_list_state:
  "client_list q run ctx cmd s = (r, s') \<Longrightarrow> s' = s\<lparr>sconn := snd (run ctx (words cmd) (sconn s))\<rparr>"
  by (auto simp: client_list_def split: prod.splits sum.splits)

lemma client_command_state:
  "snd (client_command q run ctx cmd s) = s\<lparr>sconn := snd (run ctx (words cmd) (sconn s))\<rparr>"
  by (auto simp: client_command_def dest: client_list_state split: prod.splits sum.splits)

lemma inspect_nodes_state:
  "snd (inspect_nodes q run ctx request path s) =
     s\<lparr>strips := strips s + 1, sconn := snd (run ctx (words (inspect_command request path)) (sconn s))\<rparr>"
  by (auto simp: inspect_nodes_def dest: client_list_state split: prod.splits sum.splits)

text \<open>A call whose sentences are recorded, in the order they are handed to the connection.\<close>

definition recorded :: "'d call \<Rightarrow> ('d \<times> string list list) call" where
  "recorded run ctx ws c =
     (let (r, d) = run ctx ws (fst c) in (r, (d, snd c @ [ws])))"

definition sent_words :: "('d \<times> string list list) session \<Rightarrow> string list list" where
  "sent_words s = snd (sconn s)"

lemma recorded_snd [simp]: "snd (snd (recorded run ctx ws c)) = snd c @ [ws]"
  by (simp add: recorded_def split: prod.split)

interpretation client_seam: commanding "client_command q (recorded run)" sent_words words
  by unfold_locales (simp add: client_command_state sent_words_def)

interpretation client_inspect: inspecting "inspect_nodes q run" strips
  by unfold_locales (simp add: inspect_nodes_state)

lemma inspect_sends:
  "sent_words (snd (inspect_nodes q (recorded run) ctx request path s)) =
     sent_words s @ [words (inspect_command request path)]"
  by (simp add: inspect_nodes_state sent_words_def)

subsection \<open>Sentences on the wire\<close>

text \<open>A sentence as the reader builds it: a word, pairs whose keys have no \<open>=\<close>, and the map of the pairs.\<close>

definition wf_sentence :: "sentence \<Rightarrow> bool" where
  "wf_sentence sen \<longleftrightarrow>
     sen_word sen \<noteq> [] \<and> (\<forall>p \<in> set (sen_list sen). CHR ''='' \<notin> set (fst p))
     \<and> sen_map sen = fold (\<lambda>p. AList.update (fst p) (snd p)) (sen_list sen) []"

lemma raw_sentence_words_eq:
  "raw_sentence_words sen = sen_word sen # map pair_word (sen_list sen)
     @ (if sen_tag sen \<noteq> [] then [''.tag='' @ sen_tag sen] else [])"
  by (simp add: raw_sentence_words_def pair_word_def split_beta)

lemma parse_raw_words:
  assumes "wf_sentence sen"
  shows "parse_words new_sentence (raw_sentence_words sen) = (Inr sen, [])"
proof -
  let ?s = "add_pairs (sen_list sen) (new_sentence\<lparr>sen_word := sen_word sen\<rparr>)"
  have w: "sen_word (new_sentence\<lparr>sen_word := sen_word sen\<rparr>) \<noteq> []"
    using assms by (simp add: wf_sentence_def)
  have "word_step new_sentence (sen_word sen) = Inr (new_sentence\<lparr>sen_word := sen_word sen\<rparr>)"
    by (simp add: word_step_def new_sentence_def)
  then have "parse_words new_sentence (raw_sentence_words sen) =
      parse_words ?s (if sen_tag sen \<noteq> [] then [''.tag='' @ sen_tag sen] else [])"
    using parse_pairs [OF w] assms by (simp add: raw_sentence_words_eq wf_sentence_def)
  moreover have "parse_words ?s (if sen_tag sen \<noteq> [] then [''.tag='' @ sen_tag sen] else []) = (Inr sen, [])"
    using assms by (auto simp: word_step_def add_pairs_def new_sentence_def wf_sentence_def)
  ultimately show ?thesis by simp
qed

subsection \<open>Properties\<close>

text \<open>C17: The raw words of a sentence are the sentence: written to the wire they are read back as the same
word, tag, pairs in order and map.\<close>

theorem sentence_wire_roundtrip:
  assumes "wf_sentence sen" "sendable (raw_sentence_words sen)"
  shows "read_sentence (s\<lparr>pending := sentence_bytes (raw_sentence_words sen) @ rest\<rparr>)
       = (Inr sen, s\<lparr>pending := rest\<rparr>)"
  using read_sentence_refines [OF assms(2)] parse_raw_words [OF assms(1)] by simp

lemma sentence_wire_roundtrip_witness:
  "read_sentence \<lparr>pending = sentence_bytes [''!re'', ''=a=1=2'', ''.tag=r7''] @ [3], fin = IoEOF\<rparr>
   = (Inr \<lparr>sen_word = ''!re'', sen_tag = ''r7'', sen_list = [(''a'', ''1=2'')], sen_map = [(''a'', ''1=2'')]\<rparr>,
      \<lparr>pending = [3], fin = IoEOF\<rparr>)"
proof -
  let ?sen = "\<lparr>sen_word = ''!re'', sen_tag = ''r7'', sen_list = [(''a'', ''1=2'')], sen_map = [(''a'', ''1=2'')]\<rparr>"
  have w: "raw_sentence_words ?sen = [''!re'', ''=a=1=2'', ''.tag=r7'']"
    by (simp add: raw_sentence_words_def)
  have "wf_sentence ?sen" "sendable (raw_sentence_words ?sen)"
    by (simp_all add: wf_sentence_def sendable_def w)
  from sentence_wire_roundtrip [OF this, where s = "\<lparr>pending = [], fin = IoEOF\<rparr>" and rest = "[3]"]
  show ?thesis by (simp add: w)
qed

text \<open>The words of a command that are neither its command word nor its attributes.\<close>

definition request_words :: "command \<Rightarrow> string list" where
  "request_words cmd =
     map (\<lambda>q. ''?'' @ q) (cqueries cmd)
     @ (if cproplist cmd \<noteq> [] then [''.proplist='' @ go_join (cproplist cmd) '',''] else [])"

lemma request_word_refused:
  "request_words cmd = w # ws \<Longrightarrow> sen_word sen \<noteq> [] \<Longrightarrow> word_step sen w = Inl (ErrInvalidWord w)"
  by (cases "cqueries cmd") (auto simp: request_words_def word_step_def has_prefix_def split: if_splits)

text \<open>C31: What a structured command (no script; attribute names without \<open>=\<close>) looks like to a reader of the package.  Without
queries and field projection its words, written to the wire and read back as a sentence, have the path and verb as their
word and exactly the command's attributes as their map, and what follows on the stream is untouched.  With queries or a
projection the reader refuses the sentence at the first such word: the package cannot read back its own requests.\<close>

theorem command_wire_roundtrip:
  assumes "cscript cmd = []" "gomap_ok (cattrs cmd)" "\<forall>k \<in> fst ` set (cattrs cmd). CHR ''='' \<notin> set k"
    and "sendable (words cmd)"
  shows "case request_words cmd of
       [] \<Rightarrow> \<exists>sen. read_sentence (s\<lparr>pending := sentence_bytes (words cmd) @ rest\<rparr>) = (Inr sen, s\<lparr>pending := rest\<rparr>)
            \<and> sen_word sen = (if cverb cmd \<noteq> [] then trim_right (cpath cmd) ''/'' @ ''/'' @ cverb cmd else cpath cmd)
            \<and> sen_tag sen = [] \<and> map_of (sen_map sen) = map_of (cattrs cmd)
     | w # ws \<Rightarrow> fst (read_sentence (s\<lparr>pending := sentence_bytes (words cmd) @ rest\<rparr>)) = Inl (ErrInvalidWord w)"
proof -
  let ?w = "if cverb cmd \<noteq> [] then trim_right (cpath cmd) ''/'' @ ''/'' @ cverb cmd else cpath cmd"
  let ?ps = "map (\<lambda>k. (k, gomap_str (cattrs cmd) k)) (sorted_keys (cattrs cmd))"
  let ?s0 = "new_sentence\<lparr>sen_word := ?w\<rparr>"
  have words: "words cmd = ?w # map pair_word ?ps @ request_words cmd"
    using assms(1) by (simp add: words_def request_words_def pair_word_def comp_def)
  have named: "?w \<noteq> []" using assms(4) unfolding sendable_def words by simp
  have step: "word_step new_sentence ?w = Inr ?s0" by (simp add: word_step_def new_sentence_def)
  have "\<forall>p \<in> set ?ps. CHR ''='' \<notin> set (fst p)" using assms(3) by auto
  then have parse: "parse_words new_sentence (words cmd) = parse_words (add_pairs ?ps ?s0) (request_words cmd)"
    using parse_pairs [of ?s0 ?ps "request_words cmd"] step named unfolding words by simp
  have keys: "distinct (map fst ?ps)" using assms(2) by (simp add: comp_def)
  have "map_of ?ps k = map_of (cattrs cmd) k" for k
  proof (cases "k \<in> fst ` set (cattrs cmd)")
    case True
    then obtain v where "map_of (cattrs cmd) k = Some v" by (metis map_of_eq_None_iff option.exhaust)
    with True show ?thesis by (simp add: map_of_map_restrict restrict_map_def gomap_str_def)
  next
    case False
    then have "map_of (cattrs cmd) k = None" by (simp add: map_of_eq_None_iff)
    with False show ?thesis by (simp add: map_of_map_restrict restrict_map_def)
  qed
  then have attrs: "map_of (sen_map (add_pairs ?ps ?s0)) = map_of (cattrs cmd)"
    using map_of_update_fold [OF keys, of "[]"] by (simp add: add_pairs_def new_sentence_def fun_eq_iff)
  have word: "sen_word (add_pairs ?ps ?s0) = ?w" "sen_tag (add_pairs ?ps ?s0) = []"
    by (simp_all add: add_pairs_def new_sentence_def)
  note read = read_sentence_refines [OF assms(4), of rest s, unfolded parse]
  show ?thesis
  proof (cases "request_words cmd")
    case Nil
    with read attrs word show ?thesis by simp
  next
    case (Cons w ws)
    with request_word_refused [OF Cons, of "add_pairs ?ps ?s0"] named word(1) read show ?thesis by simp
  qed
qed

lemma command_wire_roundtrip_witness:
  "(\<exists>sen s'. read_sentence \<lparr>pending = sentence_bytes (words ((script_command [])
        \<lparr>cpath := ''/ip/'', cverb := ''add'', cattrs := [(''b'', ''x=y''), (''a'', [])]\<rparr>)), fin = IoEOF\<rparr> = (Inr sen, s')
     \<and> sen_word sen = ''/ip/add'' \<and> map_of (sen_map sen) ''b'' = Some ''x=y'')
   \<and> fst (read_sentence \<lparr>pending = sentence_bytes (words ((script_command [])
        \<lparr>cpath := ''/ip'', cverb := ''print'', cproplist := [''name'']\<rparr>)), fin = IoEOF\<rparr>) = Inl (ErrInvalidWord ''.proplist=name'')"
proof
  let ?cmd = "(script_command [])\<lparr>cpath := ''/ip/'', cverb := ''add'', cattrs := [(''b'', ''x=y''), (''a'', [])]\<rparr>"
  have "words ?cmd = [''/ip/add'', ''=a='', ''=b=x=y'']" by code_simp
  then have sendable: "sendable (words ?cmd)" by (simp add: sendable_def)
  have "trim_right ''/ip/'' ''/'' = ''/ip''" by code_simp
  with command_wire_roundtrip [OF _ _ _ sendable, where s = "\<lparr>pending = [], fin = IoEOF\<rparr>" and rest = "[]"]
  show "\<exists>sen s'. read_sentence \<lparr>pending = sentence_bytes (words ?cmd), fin = IoEOF\<rparr> = (Inr sen, s')
     \<and> sen_word sen = ''/ip/add'' \<and> map_of (sen_map sen) ''b'' = Some ''x=y''"
    by (auto simp: script_command_def gomap_ok_def request_words_def)
next
  let ?cmd = "(script_command [])\<lparr>cpath := ''/ip'', cverb := ''print'', cproplist := [''name'']\<rparr>"
  have "words ?cmd = [''/ip/print'', ''.proplist=name'']" by code_simp
  then have sendable: "sendable (words ?cmd)" by (simp add: sendable_def)
  have "request_words ?cmd = [''.proplist=name'']" by code_simp
  with command_wire_roundtrip [OF _ _ _ sendable, where s = "\<lparr>pending = [], fin = IoEOF\<rparr>" and rest = "[]"]
  show "fst (read_sentence \<lparr>pending = sentence_bytes (words ?cmd), fin = IoEOF\<rparr>) = Inl (ErrInvalidWord ''.proplist=name'')"
    by (auto simp: script_command_def gomap_ok_def)
qed

text \<open>Translating an error into the taxonomy loses nothing: the device error stays reachable, other
errors are unchanged, and the code says whether the session survived.\<close>

lemma translated_error:
  "errors_as as_device (translate_error q err) = errors_as as_device err
   \<and> (case errors_as as_device err of
        None \<Rightarrow> translate_error q err = err
      | Some sen \<Rightarrow> is_RosErr (translate_error q err) \<and> ros_cause (translate_error q err) = Some err
          \<and> ros_code (translate_error q err) =
              (if sen_word sen = ''!fatal'' then CodeSessionClosed else CodeCommandFailed))"
  by (simp add: translate_error_def ros_new_def Let_def split: option.split)

text \<open>Discovery over the client costs at most four \<open>/console/inspect\<close> round trips, and none when the
schema is cached.\<close>

lemma discovery_round_trips:
  "strips (snd (snd (discover (inspect_nodes q run) ctx asked stored path verb s t)))
     \<le> strips t + (if visible asked (stcache s) (schema_key path verb) = None then 4 else 0)"
  by (rule client_inspect.discover_trips)

text \<open>The gate over the client hands the device at most one sentence: the script that parses the
literal of the rendered command -- never the command itself.\<close>

lemma gate1_sends_only_parse:
  assumes "g1command g = client_command q (recorded run)"
  shows "extends_by (sent_words (snd (gate1_run g ctx cmd t))) (sent_words t)
           (words (script_command (parse_script (gate1_rendering g cmd))))"
  by (rule client_seam.gate1_sends [OF assms])

end
