(* ===== verification/Reply_Types.thy ===== *)
theory Reply_Types
  imports Client_Transport
begin

text \<open>
  The types of what a client gives its caller, whatever the device sends: the sentences of
  \<open>proto/reader.go\<close>, the replies of \<open>run.go\<close> and the canonical replies of \<open>client_transport.go\<close>.
  \<^term>\<open>wf_sentence\<close> and \<^term>\<open>typed_reply\<close> are the types; every operation of the chain
  preserves them.
\<close>

subsection \<open>Sentences\<close>

lemma to_bytes_to_string [simp]: "to_bytes (to_string b) = b"
proof -
  have "(of_char (byte_char x) :: byte) = x" for x
    by (rule word_unat_eq_iff [THEN iffD2]) (simp add: byte_char_def unsigned_less [of x, where 'a = nat, simplified])
  then show ?thesis by (simp add: to_bytes_def to_string_def comp_def)
qed

lemma sentence_word_step: "sentence_word sen b = word_step sen (to_string b)"
  using sentence_word_to_bytes [of sen "to_string b"] by simp

text \<open>A sentence as it stands between two words: nothing yet, or well formed.\<close>

definition partial_sentence :: "sentence \<Rightarrow> bool" where
  "partial_sentence sen \<longleftrightarrow> sen = new_sentence \<or> wf_sentence sen"

lemma partial_new [intro]: "partial_sentence new_sentence"
  by (simp add: partial_sentence_def)

lemma cut_key: "CHR ''='' \<notin> set (fst (cut_pair x))"
  by (auto simp: cut_pair_def dest: set_takeWhileD)

lemma wf_tag: "wf_sentence sen \<Longrightarrow> wf_sentence (sen\<lparr>sen_tag := t\<rparr>)"
  by (simp add: wf_sentence_def)

lemma wf_pair:
  "wf_sentence sen \<Longrightarrow> CHR ''='' \<notin> set (fst p) \<Longrightarrow>
     wf_sentence (sen\<lparr>sen_list := sen_list sen @ [p], sen_map := AList.update (fst p) (snd p) (sen_map sen)\<rparr>)"
  by (auto simp: wf_sentence_def)

lemma wf_word:
  assumes "wf_sentence sen" "word_step sen w = Inr sen'"
  shows "wf_sentence sen'"
proof -
  have w: "sen_word sen \<noteq> []" using assms(1) by (simp add: wf_sentence_def)
  show ?thesis
  proof (cases "has_prefix w ''.tag=''")
    case True
    with w assms(2) wf_tag [OF assms(1)] show ?thesis by (auto simp: word_step_def)
  next
    case False
    with w assms(2) wf_pair [OF assms(1) cut_key] show ?thesis
      by (cases "has_prefix w ''=''") (auto simp: word_step_def Let_def)
  qed
qed

lemma partial_word:
  assumes "partial_sentence sen" "word_step sen w = Inr sen'" "w \<noteq> []"
  shows "wf_sentence sen'"
proof (cases "wf_sentence sen")
  case True
  then show ?thesis using assms(2) by (rule wf_word)
next
  case False
  with assms(1) have "sen = new_sentence" by (simp add: partial_sentence_def)
  then have "word_step sen w = Inr (new_sentence\<lparr>sen_word := w\<rparr>)"
    by (simp add: word_step_def new_sentence_def)
  with assms(2,3) show ?thesis by (auto simp: wf_sentence_def new_sentence_def)
qed

lemma partial_read_loop:
  "read_loop sen s = (Inr sen', s') \<Longrightarrow> partial_sentence sen \<Longrightarrow> partial_sentence sen'"
proof (induction sen s rule: read_loop.induct)
  case (1 sen s)
  obtain b s1 where w: "read_word s = (Inr b, s1)"
    using "1.prems" by (subst (asm) read_loop.simps) (auto split: prod.splits sum.splits)
  show ?case
  proof (cases "b = []")
    case True
    with "1.prems" w show ?thesis by (subst (asm) read_loop.simps) simp
  next
    case False
    with "1.prems" w obtain sen1 where s1: "sentence_word sen b = Inr sen1"
      and rest: "read_loop sen1 s1 = (Inr sen', s')"
      by (subst (asm) read_loop.simps) (auto split: sum.splits)
    moreover have "to_string b \<noteq> []" using False by (simp add: to_string_def)
    ultimately have "wf_sentence sen1"
      using partial_word [OF "1.prems"(2)] by (simp add: sentence_word_step)
    with "1.IH" [OF w [symmetric] refl False s1 rest] show ?thesis
      by (simp add: partial_sentence_def)
  qed
qed

lemma partial_read_sentence: "read_sentence s = (Inr sen, s') \<Longrightarrow> partial_sentence sen"
  by (auto simp: read_sentence_def dest: partial_read_loop)

lemma gomap_ok_fold_update:
  "gomap_ok m \<Longrightarrow> gomap_ok (fold (\<lambda>p. AList.update (fst p) (snd p)) ps m)"
  by (induction ps arbitrary: m) simp_all

lemma map_of_fold_update:
  "map_of (fold (\<lambda>p. AList.update (fst p) (snd p)) ps m) k =
     (case map_of (rev ps) k of None \<Rightarrow> map_of m k | Some v \<Rightarrow> Some v)"
  by (induction ps arbitrary: m) (auto simp: map_add_def update_conv' split: option.splits)

lemma partial_gomap: "partial_sentence sen \<Longrightarrow> gomap_ok (sen_map sen)"
  by (auto simp: partial_sentence_def new_sentence_def wf_sentence_def gomap_ok_fold_update)

lemma partial_lookup: "partial_sentence sen \<Longrightarrow> map_of (sen_map sen) k = map_of (rev (sen_list sen)) k"
  by (auto simp: partial_sentence_def new_sentence_def wf_sentence_def map_of_fold_update split: option.splits)

lemma partial_parse:
  "partial_sentence sen \<Longrightarrow> sen_word sen \<noteq> [] \<Longrightarrow> parse_words new_sentence (raw_sentence_words sen) = (Inr sen, [])"
  by (auto simp: partial_sentence_def parse_raw_words) (simp add: new_sentence_def)

subsection \<open>Replies\<close>

definition typed_reply :: "reply \<Rightarrow> bool" where
  "typed_reply r \<longleftrightarrow>
     (\<forall>sen \<in> set (re_sens r). sen_word sen = ''!re'' \<and> wf_sentence sen)
     \<and> (\<forall>sen \<in> set_option (done_sen r). sen_word sen = ''!done'' \<and> wf_sentence sen)"

lemma typed_empty [intro]: "typed_reply empty_reply"
  by (simp add: typed_reply_def empty_reply_def)

lemma partial_named: "partial_sentence sen \<Longrightarrow> sen_word sen \<noteq> [] \<Longrightarrow> wf_sentence sen"
  by (auto simp: partial_sentence_def new_sentence_def)

lemma typed_process_reply:
  assumes "process_reply sen r = (v, r')" "partial_sentence sen" "typed_reply r"
  shows "typed_reply r'"
proof -
  have n: "sen_word sen \<noteq> [] \<Longrightarrow> wf_sentence sen"
    by (rule partial_named [OF assms(2)])
  consider (re) "sen_word sen = ''!re''" | (fin) "sen_word sen = ''!done''"
    | (other) "sen_word sen \<noteq> ''!re''" "sen_word sen \<noteq> ''!done''"
    by blast
  then show ?thesis
  proof cases
    case re
    with assms(1) have "r' = r\<lparr>re_sens := re_sens r @ [sen]\<rparr>" by (simp add: process_reply_def)
    with assms(3) re n show ?thesis by (auto simp: typed_reply_def)
  next
    case fin
    with assms(1) have "r' = r\<lparr>done_sen := Some sen\<rparr>" by (simp add: process_reply_def)
    with assms(3) fin n show ?thesis by (auto simp: typed_reply_def)
  next
    case other
    then have "snd (process_reply sen r) = r" by (simp add: process_reply_def)
    with assms(1,3) show ?thesis by simp
  qed
qed

lemma typed_sync_loop:
  "sync_loop out e0 s = ((Some r, e), s') \<Longrightarrow> typed_reply out \<Longrightarrow> typed_reply r"
proof (induction out e0 s rule: sync_loop.induct)
  case (1 out e0 s)
  obtain sen s1 where rd: "read_sentence s = (Inr sen, s1)"
    using "1.prems" by (subst (asm) sync_loop.simps) (auto split: prod.splits sum.splits)
  obtain d x out' where pr: "process_reply sen out = ((d, x), out')" by (metis surj_pair)
  have t: "typed_reply out'"
    by (rule typed_process_reply [OF pr partial_read_sentence [OF rd] "1.prems"(2)])
  show ?case
  proof (cases d)
    case True
    with "1.prems"(1) rd pr have "r = out'"
      by (subst (asm) sync_loop.simps) (cases x, simp_all)
    with t show ?thesis by simp
  next
    case False
    note IH = "1.IH" [OF rd [symmetric] refl pr [symmetric] refl]
    show ?thesis
    proof (cases x)
      case None
      with "1.prems"(1) rd pr False have "sync_loop out' e0 s1 = ((Some r, e), s')"
        by (subst (asm) sync_loop.simps) simp
      with IH(1) False None t show ?thesis by blast
    next
      case (Some y)
      with "1.prems"(1) rd pr False have "sync_loop out' (Some y) s1 = ((Some r, e), s')"
        by (subst (asm) sync_loop.simps) simp
      with IH(2) False Some t show ?thesis by blast
    qed
  qed
qed

lemma typed_sync_exchange:
  "sync_exchange ws c = ((Some r, e), c') \<Longrightarrow> typed_reply r"
  by (auto simp: sync_exchange_def dest: typed_sync_loop [OF _ typed_empty]
      split: prod.splits option.splits)

lemma sync_call_typed:
  assumes "sync_call ctx ws c = (Inr r, c')"
  shows "typed_reply r \<and> done_sen r \<noteq> None"
proof -
  let ?c = "c\<lparr>cw := (cw c)\<lparr>wlocked := True\<rparr>\<rparr>"
  obtain o' where ex: "sync_exchange ws ?c = ((o', None), c')" "r = the o'"
    using assms by (auto simp: sync_call_def split: prod.splits option.splits)
  then obtain s' where "sync_loop empty_reply None (cr c) = ((o', None), s')"
    by (auto simp: sync_exchange_def split: option.splits prod.splits)
  with sync_loop_result [OF this] ex sync_loop_has_done typed_sync_exchange show ?thesis
    by fastforce
qed

text \<open>
  A canonical reply of the client: its attributes are a map, and its raw words are a sentence with the
  same type, tag and attributes.
\<close>

definition typed_treply :: "treply \<Rightarrow> bool" where
  "typed_treply rep \<longleftrightarrow> gomap_ok (rattrs rep)
     \<and> (case parse_words new_sentence (rwords rep) of
          (Inr sen, rest) \<Rightarrow> rest = [] \<and> sen_word sen = reply_type_string (rtype rep)
            \<and> sen_tag sen = rtag rep \<and> sen_map sen = rattrs rep
        | _ \<Rightarrow> False)"

lemma typed_translate: "wf_sentence sen \<Longrightarrow> typed_treply (translate_sentence sen)"
  by (simp add: typed_treply_def translate_sentence_def parse_raw_words partial_gomap partial_sentence_def)

locale answering_calls =
  fixes run :: "'c call"
  assumes answers: "run ctx ws c = (Inr r, c') \<Longrightarrow> typed_reply r \<and> done_sen r \<noteq> None"
begin

lemma list_typed:
  assumes "client_list q run ctx cmd s = (Inr reps, s')"
  shows "\<exists>rows fin. reps = rows @ [fin] \<and> (\<forall>rep \<in> set rows. rtype rep = ReplyRe) \<and> rtype fin = ReplyDone
    \<and> (\<forall>rep \<in> set reps. typed_treply rep)"
proof -
  obtain r c' where "run ctx (words cmd) (sconn s) = (Inr r, c')" and reps: "reps = translate_reply r"
    using assms by (auto simp: client_list_def split: prod.splits sum.splits)
  with answers obtain sen where t: "typed_reply r" and d: "done_sen r = Some sen" by blast
  have "reps = map translate_sentence (re_sens r) @ [translate_sentence sen]"
    by (simp add: reps translate_reply_def d)
  with t d show ?thesis
    by (auto simp: typed_reply_def typed_translate)
      (auto simp: translate_sentence_def reply_type_of_def)
qed

lemma command_typed:
  assumes "client_command q run ctx cmd s = (Inr rep, s')"
  shows "rtype rep = ReplyDone \<and> typed_treply rep"
  using assms list_typed by (fastforce simp: client_command_def split: prod.splits sum.splits if_splits)

end

interpretation sync_answers: answering_calls sync_call
  by unfold_locales (rule sync_call_typed)

subsection \<open>Properties\<close>

text \<open>C23: Every sentence the reader yields, whatever bytes arrive, is well typed: it is the empty sentence or
has a word, no key contains \<open>=\<close>, its map has one entry per key and holds the last value the ordered pairs
give a key, and its raw words parse back to it.\<close>

theorem sentences_well_typed:
  assumes "read_sentence s = (Inr sen, s')"
  shows "gomap_ok (sen_map sen) \<and> map_of (sen_map sen) = map_of (rev (sen_list sen))
    \<and> (if sen_word sen = [] then sen = new_sentence
       else wf_sentence sen \<and> parse_words new_sentence (raw_sentence_words sen) = (Inr sen, []))"
proof -
  have p: "partial_sentence sen" by (rule partial_read_sentence [OF assms])
  then have "sen_word sen = [] \<Longrightarrow> sen = new_sentence"
    by (auto simp: partial_sentence_def wf_sentence_def)
  with partial_lookup [OF p] partial_gomap [OF p] partial_parse [OF p] partial_named [OF p] show ?thesis
    by (auto simp: fun_eq_iff)
qed

lemma sentences_well_typed_witness:
  "\<exists>sen s'. read_sentence \<lparr>pending = sentence_bytes [''!re'', ''=a=1'', ''=a=2=3''], fin = IoEOF\<rparr> = (Inr sen, s')
     \<and> sen_list sen = [(''a'', ''1''), (''a'', ''2=3'')] \<and> map_of (sen_map sen) ''a'' = Some ''2=3''"
proof -
  let ?sen = "\<lparr>sen_word = ''!re'', sen_tag = [], sen_list = [(''a'', ''1''), (''a'', ''2=3'')], sen_map = [(''a'', ''2=3'')]\<rparr>"
  have r: "read_sentence \<lparr>pending = sentence_bytes [''!re'', ''=a=1'', ''=a=2=3''], fin = IoEOF\<rparr>
      = (Inr ?sen, \<lparr>pending = [], fin = IoEOF\<rparr>)"
    by code_simp
  from sentences_well_typed [OF r] have "map_of (sen_map ?sen) = map_of (rev (sen_list ?sen))" by blast
  with r show ?thesis by simp
qed

text \<open>C24: Over the synchronous client the seam gives typed replies only, whatever the device sends: a list is
data records followed by exactly one final \<open>!done\<close>, so \<open>Command\<close> returns the terminal \<open>!done\<close>, and the
attributes, tag and type of each are those of its raw words.\<close>

theorem seam_replies_typed:
  assumes "client_list q sync_call ctx cmd s = (Inr reps, s')"
  shows "\<exists>rows fin. reps = rows @ [fin] \<and> (\<forall>rep \<in> set rows. rtype rep = ReplyRe) \<and> rtype fin = ReplyDone
    \<and> (\<forall>rep \<in> set reps. typed_treply rep) \<and> client_command q sync_call ctx cmd s = (Inr fin, s')"
  using sync_answers.list_typed [OF assms] assms by (auto simp: client_command_def)

lemma seam_replies_typed_witness:
  "\<exists>reps fin s'. client_list id sync_call None (script_command ''/x'') (new_session (new_client
       \<lparr>sent = [], room = None, cerr = IoEOF\<rparr>
       \<lparr>pending = sentence_bytes [''!re'', ''=a=1''] @ sentence_bytes [''!done''], fin = IoEOF\<rparr>)) = (Inr (reps @ [fin]), s')
     \<and> rtype fin = ReplyDone"
proof -
  let ?s = "new_session (new_client \<lparr>sent = [], room = None, cerr = IoEOF\<rparr>
       \<lparr>pending = sentence_bytes [''!re'', ''=a=1''] @ sentence_bytes [''!done''], fin = IoEOF\<rparr>)"
  have "\<not> sum.isl (fst (client_list id sync_call None (script_command ''/x'') ?s))"
    by code_simp
  then obtain reps s' where "client_list id sync_call None (script_command ''/x'') ?s = (Inr reps, s')"
    by (metis prod.collapse sum.collapse(2))
  with seam_replies_typed [OF this] show ?thesis by blast
qed

end
