(* ===== verification/Async_Wire.thy ===== *)
theory Async_Wire
  imports Async_Channel Cut_Calls Reply_Types "HOL-Library.Sublist"
begin

text \<open>
  The asynchronous client on its connection: the transition system of \<open>async.go\<close>, \<open>run.go\<close>, \<open>listen.go\<close> and
  \<open>cancel.go\<close> composed with the writer of \<open>proto/writer.go\<close> and the reader of \<open>proto/reader.go\<close>.  What was a
  parameter of the steps (what the connection gives, what \<open>EndSentence\<close> reports) is now computed from
  the bytes; the composed system refines the abstract one.
\<close>

subsection \<open>The state\<close>

text \<open>
  \<open>aw_open\<close> are the words of the sentence that holds the writer, \<open>aw_cancels\<close> the cancellations that wait for
  it with the tags they end.  The other fields record history: the sentences sent with their tags, the
  sentences the loop has looked up, and how many there were when a tag was registered.
\<close>

record awire =
  aw_client :: astate
  aw_out :: writer
  aw_in :: stream
  aw_open :: "string list"
  aw_cancels :: "(string \<times> string) list"
  aw_sent :: "(string \<times> string list) list"
  aw_seen :: "sentence list"
  aw_since :: "string \<rightharpoonup> nat"

definition wire_init :: "writer \<Rightarrow> stream \<Rightarrow> awire" where
  "wire_init w src =
     \<lparr>aw_client = async_init, aw_out = w, aw_in = src, aw_open = [], aw_cancels = [], aw_sent = [],
      aw_seen = [], aw_since = Map.empty\<rparr>"

text \<open>Only \<open>Close\<close> interrupts writes.\<close>

definition may_cut :: "astate \<Rightarrow> nat \<Rightarrow> nat \<Rightarrow> bool" where
  "may_cut a k n \<longleftrightarrow> n \<le> k \<or> aclosing a"

subsection \<open>Requests\<close>

definition wire_begin :: "astate option \<Rightarrow> string list \<Rightarrow> nat \<Rightarrow> awire \<Rightarrow> awire option" where
  "wire_begin begun ws k s =
     (case (begin_sentence (aw_out s), begun) of
        (Some w, Some a) \<Rightarrow>
          (case holder_tag (awriter a) of
             None \<Rightarrow> None
           | Some t \<Rightarrow>
               (let cs = sentence_writes (tagged ws t) in
                if may_cut a k (length cs)
                then Some (s\<lparr>aw_client := a, aw_out := write_until k cs w, aw_open := tagged ws t\<rparr>)
                else None))
      | _ \<Rightarrow> None)"

definition wire_ended :: "string \<Rightarrow> goerr option \<times> writer \<Rightarrow> astate \<Rightarrow> awire \<Rightarrow> awire" where
  "wire_ended t ew a s =
     s\<lparr>aw_client := a, aw_out := snd ew, aw_open := [],
       aw_sent := (if fst ew = None then aw_sent s @ [(t, aw_open s)] else aw_sent s),
       aw_since := (if registered a t then (aw_since s)(t \<mapsto> length (aw_seen s)) else aw_since s)\<rparr>"

definition wire_run_commit :: "nat \<Rightarrow> awire \<Rightarrow> awire option" where
  "wire_run_commit k s =
     (case awriter (aw_client s) of
        Some (HRun t) \<Rightarrow>
          (if atags (aw_client s) = None
           then map_option (\<lambda>a. s\<lparr>aw_client := a\<rparr>) (run_commit None (aw_client s))
           else if may_cut (aw_client s) k 2
           then (let ew = end_until k (aw_out s) in
                 map_option (\<lambda>a. wire_ended t ew a s) (run_commit (fst ew) (aw_client s)))
           else None)
      | _ \<Rightarrow> None)"

definition wire_listen_commit :: "nat \<Rightarrow> awire \<Rightarrow> awire option" where
  "wire_listen_commit k s =
     (case awriter (aw_client s) of
        Some (HListen t n st) \<Rightarrow>
          (if may_cut (aw_client s) k 2
           then (let ew = end_until k (aw_out s) in
                 map_option (\<lambda>a. wire_ended t ew a s) (listen_commit (fst ew) (aw_client s)))
           else None)
      | _ \<Rightarrow> None)"

definition wire_cancel_tag :: "string \<Rightarrow> awire \<Rightarrow> awire" where
  "wire_cancel_tag target s =
     (let t = tag_of CHR ''c'' (anext (aw_client s) + 1); s' = s\<lparr>aw_client := cancel_tag (aw_client s)\<rparr> in
      if atags (aw_client s) = None then s'
      else s'\<lparr>aw_cancels := aw_cancels s @ [(t, target)], aw_since := (aw_since s)(t \<mapsto> length (aw_seen s))\<rparr>)"

definition wire_cancel_write :: "string \<Rightarrow> nat \<Rightarrow> awire \<Rightarrow> awire option" where
  "wire_cancel_write t k s =
     (case (map_of (aw_cancels s) t, begin_sentence (aw_out s)) of
        (Some target, Some w) \<Rightarrow>
          (let ws = cancel_sentence target t; n = length (sentence_writes ws);
               ew = end_until (k - n) (write_until k (sentence_writes ws) w) in
           if may_cut (aw_client s) k (n + 2)
           then map_option (\<lambda>a. s\<lparr>aw_client := a, aw_out := snd ew,
                  aw_cancels := filter (\<lambda>p. fst p \<noteq> t) (aw_cancels s),
                  aw_sent := (if fst ew = None then aw_sent s @ [(t, ws)] else aw_sent s)\<rparr>)
                (cancel_write t (aw_client s))
           else None)
      | _ \<Rightarrow> None)"

subsection \<open>Replies\<close>

text \<open>A read of the loop; or one that is interrupted after some bytes by a context or by \<open>Close\<close>.\<close>

definition wire_read :: "awire \<Rightarrow> awire option" where
  "wire_read s =
     (case read_sentence (aw_in s) of
        (r, st) \<Rightarrow> map_option (\<lambda>a. s\<lparr>aw_client := a, aw_in := st\<rparr>) (loop_read r (aw_client s)))"

definition wire_read_cut :: "nat \<Rightarrow> awire \<Rightarrow> awire option" where
  "wire_read_cut n s =
     (case read_sentence (cut_stream (Some n) (aw_in s)) of
        (Inl e, _) \<Rightarrow> map_option (\<lambda>a. s\<lparr>aw_client := a\<rparr>) (loop_read (Inl e) (aw_client s))
      | (Inr _, _) \<Rightarrow> None)"

definition wire_lookup :: "awire \<Rightarrow> awire option" where
  "wire_lookup s =
     (case apc (aw_client s) of
        LGot sen \<Rightarrow>
          map_option (\<lambda>a. s\<lparr>aw_client := a, aw_seen := aw_seen s @ [sen]\<rparr>) (loop_lookup (aw_client s))
      | _ \<Rightarrow> None)"

fun local_event :: "aevent \<Rightarrow> bool" where
  "local_event EvAsync = True"
| "local_event EvClose = True"
| "local_event (EvReceive t) = True"
| "local_event (EvProcess h) = True"
| "local_event EvDelete = True"
| "local_event EvCloseReply = True"
| "local_event EvCloseTags = True"
| "local_event _ = False"

datatype wevent =
    WRunBegin "string list" nat | WRunCommit nat
  | WListenBegin "string list" nat nat bool | WListenCommit nat
  | WCancelTag string | WCancelWrite string nat
  | WRead | WReadCut nat | WLookup | WLocal aevent

fun wstep :: "wevent \<Rightarrow> awire \<Rightarrow> awire option" where
  "wstep (WRunBegin ws k) s = wire_begin (run_begin (aw_client s)) ws k s"
| "wstep (WRunCommit k) s = wire_run_commit k s"
| "wstep (WListenBegin ws k n c) s = wire_begin (listen_begin n c (aw_client s)) ws k s"
| "wstep (WListenCommit k) s = wire_listen_commit k s"
| "wstep (WCancelTag target) s = Some (wire_cancel_tag target s)"
| "wstep (WCancelWrite t k) s = wire_cancel_write t k s"
| "wstep WRead s = wire_read s"
| "wstep (WReadCut n) s = wire_read_cut n s"
| "wstep WLookup s = wire_lookup s"
| "wstep (WLocal e) s =
     (if local_event e then map_option (\<lambda>a. s\<lparr>aw_client := a\<rparr>) (astep e (aw_client s)) else None)"

inductive wreaches :: "writer \<Rightarrow> stream \<Rightarrow> awire \<Rightarrow> bool" for w0 src where
  wreaches_init: "\<not> wlocked w0 \<Longrightarrow> wreaches w0 src (wire_init w0 src)"
| wreaches_next: "wreaches w0 src s \<Longrightarrow> wstep e s = Some s' \<Longrightarrow> wreaches w0 src s'"

fun wrun :: "wevent list \<Rightarrow> awire \<Rightarrow> awire option" where
  "wrun [] s = Some s"
| "wrun (e # es) s = (case wstep e s of None \<Rightarrow> None | Some s' \<Rightarrow> wrun es s')"

lemma wreaches_wrun: "wreaches w0 src s \<Longrightarrow> wrun es s = Some s' \<Longrightarrow> wreaches w0 src s'"
  by (induction es arbitrary: s) (auto split: option.splits intro: wreaches.wreaches_next)

subsection \<open>Refinement of the abstract client\<close>

lemma wire_begin_client: "wire_begin begun ws k s = Some s' \<Longrightarrow> begun = Some (aw_client s')"
  by (auto simp: wire_begin_def Let_def split: option.splits if_splits)

text \<open>Every step of the composed system is a step of the client, with what the bytes say filled in.\<close>

lemma wstep_client:
  assumes "wstep e s = Some s'"
  shows "\<exists>ev. astep ev (aw_client s) = Some (aw_client s')"
proof (cases e)
  case (WRunBegin ws k)
  with assms show ?thesis by (auto intro!: exI [of _ EvRunBegin] dest: wire_begin_client)
next
  case (WRunCommit k)
  with assms have "\<exists>err. run_commit err (aw_client s) = Some (aw_client s')"
    by (auto simp: wire_run_commit_def wire_ended_def Let_def split: option.splits holder.splits if_splits)
  then obtain err where "astep (EvRunCommit err) (aw_client s) = Some (aw_client s')" by auto
  then show ?thesis by blast
next
  case (WListenBegin ws k n c)
  with assms show ?thesis by (auto intro!: exI [of _ "EvListenBegin n c"] dest: wire_begin_client)
next
  case (WListenCommit k)
  with assms have "\<exists>err. listen_commit err (aw_client s) = Some (aw_client s')"
    by (auto simp: wire_listen_commit_def wire_ended_def Let_def split: option.splits holder.splits if_splits)
  then obtain err where "astep (EvListenCommit err) (aw_client s) = Some (aw_client s')" by auto
  then show ?thesis by blast
next
  case (WCancelTag target)
  with assms show ?thesis by (auto intro!: exI [of _ EvCancelTag] simp: wire_cancel_tag_def Let_def)
next
  case (WCancelWrite t k)
  with assms show ?thesis
    by (auto intro!: exI [of _ "EvCancelWrite t"] simp: wire_cancel_write_def Let_def
        split: option.splits if_splits)
next
  case WRead
  with assms have "\<exists>r. loop_read r (aw_client s) = Some (aw_client s')"
    by (auto simp: wire_read_def split: prod.splits)
  then obtain r where "astep (EvRead r) (aw_client s) = Some (aw_client s')" by auto
  then show ?thesis by blast
next
  case (WReadCut n)
  with assms have "\<exists>r. loop_read r (aw_client s) = Some (aw_client s')"
    by (auto simp: wire_read_cut_def split: prod.splits sum.splits)
  then obtain r where "astep (EvRead r) (aw_client s) = Some (aw_client s')" by auto
  then show ?thesis by blast
next
  case WLookup
  with assms show ?thesis
    by (auto intro!: exI [of _ EvLookup] simp: wire_lookup_def split: loop_pc.splits)
next
  case (WLocal ev)
  with assms show ?thesis by (auto split: if_splits)
qed

lemma wreaches_client: "wreaches w0 src s \<Longrightarrow> areach (aw_client s)"
proof (induction rule: wreaches.induct)
  case wreaches_init
  then show ?case by (simp add: wire_init_def areach.reach_init)
next
  case (wreaches_next s e s')
  from wstep_client [OF wreaches_next.hyps(2)] obtain ev where "astep ev (aw_client s) = Some (aw_client s')" ..
  moreover have "\<not> apanic (aw_client s)"
    using areach_ainv [OF wreaches_next.IH] by (simp add: ainv_def)
  ultimately show ?case using wreaches_next.IH by (blast intro: areach.reach_next atrans.step)
qed

subsection \<open>What comes in\<close>

definition in_hand :: "loop_pc \<Rightarrow> string \<Rightarrow> sentence list" where
  "in_hand pc t = (case pc of LProc sen \<Rightarrow> if sen_tag sen = t then [sen] else [] | _ \<Rightarrow> [])"

text \<open>
  The sentences with tag \<open>t\<close> among those looked up since the tag was registered, against those the
  processor has handled: the same while it is registered, a prefix afterwards.
\<close>

definition since_tag :: "awire \<Rightarrow> string \<Rightarrow> nat \<Rightarrow> sentence list" where
  "since_tag s t n = filter (\<lambda>sen. sen_tag sen = t) (drop n (aw_seen s))"

definition tag_ok :: "awire \<Rightarrow> string \<Rightarrow> bool" where
  "tag_ok s t \<longleftrightarrow>
     (\<exists>n. aw_since s t = Some n \<and> n \<le> length (aw_seen s)
        \<and> (if registered (aw_client s) t
           then since_tag s t n = conversation t (aw_client s) @ in_hand (apc (aw_client s)) t
           else prefix (conversation t (aw_client s)) (since_tag s t n)))"

definition tags_ok :: "awire \<Rightarrow> bool" where
  "tags_ok s \<longleftrightarrow> (\<forall>t. aprocs (aw_client s) t \<noteq> None \<longrightarrow> tag_ok s t)"

text \<open>A step that neither looks up nor handles a sentence and registers nobody; it may unregister.\<close>

definition calm :: "astate \<Rightarrow> astate \<Rightarrow> bool" where
  "calm a a' \<longleftrightarrow>
     ahandled a' = ahandled a \<and> (\<forall>t. aprocs a' t \<noteq> None \<longrightarrow> aprocs a t \<noteq> None)
     \<and> (\<forall>t. registered a' t \<longrightarrow> registered a t)
     \<and> (\<forall>t. aprocs a' t \<noteq> None \<longrightarrow> in_hand (apc a') t = in_hand (apc a) t)
     \<and> (\<forall>t. registered a t \<and> \<not> registered a' t \<longrightarrow> in_hand (apc a) t = [])"

lemma tags_ok_calm:
  assumes "tags_ok s" "calm (aw_client s) (aw_client s')" "aw_seen s' = aw_seen s" "aw_since s' = aw_since s"
  shows "tags_ok s'"
  unfolding tags_ok_def
proof (intro allI impI)
  fix t
  assume t: "aprocs (aw_client s') t \<noteq> None"
  with assms(1,2) have ok: "tag_ok s t" by (simp add: tags_ok_def calm_def)
  have "conversation t (aw_client s') = conversation t (aw_client s)"
    "since_tag s' t = since_tag s t"
    using assms(2,3) by (simp_all add: calm_def conversation_def since_tag_def fun_eq_iff)
  with ok t assms(2-4) show "tag_ok s' t"
    by (cases "registered (aw_client s) t") (auto simp: tag_ok_def calm_def)
qed

lemma tags_ok_register:
  assumes "tags_ok s" "ainv (aw_client s)" "aprocs (aw_client s) t = None"
    and "aw_client s' = register t (new_proc k st) a" "aprocs a = aprocs (aw_client s)"
    and "ahandled a = ahandled (aw_client s)" "apc a = apc (aw_client s)" "atags a = atags (aw_client s)"
    and "atags (aw_client s) \<noteq> None"
    and "aw_seen s' = aw_seen s" "aw_since s' = (aw_since s)(t \<mapsto> length (aw_seen s))"
  shows "tags_ok s'"
  unfolding tags_ok_def
proof (intro allI impI)
  fix u
  assume u: "aprocs (aw_client s') u \<noteq> None"
  have reg: "registered (aw_client s') v \<longleftrightarrow> v = t \<or> registered (aw_client s) v" for v
    using assms(4,8,9) by (auto simp: registered_def register_def)
  have pc: "apc (aw_client s') = apc (aw_client s)" "ahandled (aw_client s') = ahandled (aw_client s)"
    using assms(4,6,7) by (simp_all add: register_def)
  show "tag_ok s' u"
  proof (cases "u = t")
    case True
    have "conversation t (aw_client s) = []"
      using assms(2,3) by (auto simp: conversation_def filter_empty_conv ainv_def inv_tags_def)
    moreover have "in_hand (apc (aw_client s)) t = []"
      using assms(2,3) by (auto simp: in_hand_def ainv_def inv_pc_def inv_open_def split: loop_pc.splits)
    ultimately show ?thesis
      using True reg pc assms(10,11) by (simp add: tag_ok_def since_tag_def conversation_def)
  next
    case False
    with u assms(1,4,5) have "tag_ok s u" by (simp add: tags_ok_def register_def)
    moreover have "since_tag s' = since_tag s" "conversation u (aw_client s') = conversation u (aw_client s)"
      using assms(10) pc(2) by (simp_all add: since_tag_def conversation_def fun_eq_iff)
    ultimately show ?thesis using False reg pc(1) assms(10,11) by (auto simp: tag_ok_def)
  qed
qed

lemma tags_ok_lookup:
  assumes "tags_ok s" "wire_lookup s = Some s'"
  shows "tags_ok s'"
  unfolding tags_ok_def
proof (intro allI impI)
  fix t
  assume t: "aprocs (aw_client s') t \<noteq> None"
  obtain sen where pc: "apc (aw_client s) = LGot sen"
    and s': "s' = s\<lparr>aw_client := (aw_client s)\<lparr>apc := (if registered (aw_client s) (sen_tag sen) then LProc sen else LRead)\<rparr>,
      aw_seen := aw_seen s @ [sen]\<rparr>"
    using assms(2) by (auto simp: wire_lookup_def loop_lookup_def split: loop_pc.splits)
  from t s' assms(1) have "tag_ok s t" by (simp add: tags_ok_def)
  then obtain n where n: "aw_since s t = Some n" "n \<le> length (aw_seen s)"
    "if registered (aw_client s) t then since_tag s t n = conversation t (aw_client s) @ in_hand (apc (aw_client s)) t
     else prefix (conversation t (aw_client s)) (since_tag s t n)"
    by (auto simp: tag_ok_def)
  have "since_tag s' t n = since_tag s t n @ (if sen_tag sen = t then [sen] else [])"
    using n(2) by (simp add: since_tag_def s')
  with n pc show "tag_ok s' t"
    by (auto simp: tag_ok_def s' in_hand_def registered_def conversation_def)
qed

lemma in_hand_simps [simp]:
  "in_hand LRead t = []" "in_hand (LGot sen) t = []" "in_hand (LDel u e) t = []" "in_hand (LClose u e) t = []"
  "in_hand (LFail err) t = []" "in_hand (LEnded err) t = []" "in_hand LNone t = []"
  "in_hand (after_process u v) t = []"
  by (simp_all add: in_hand_def after_process_def)

lemma process_shape:
  assumes "loop_process h a = Some a'" "\<not> apanic a'"
  shows "\<exists>sen. apc a = LProc sen \<and> ahandled a' = ahandled a @ [sen] \<and> atags a' = atags a
    \<and> (\<forall>t. aprocs a' t = None \<longleftrightarrow> aprocs a t = None) \<and> (\<forall>t. in_hand (apc a') t = [])"
proof -
  obtain sen p where pc: "apc a = LProc sen" "aprocs a (sen_tag sen) = Some p"
    using assms(1) by (auto simp: loop_process_def Let_def split: loop_pc.splits option.splits)
  have shape: "\<exists>sen. apc a = LProc sen \<and> ahandled a' = ahandled a @ [sen] \<and> atags a' = atags a
      \<and> (\<forall>t. aprocs a' t = None \<longleftrightarrow> aprocs a t = None) \<and> (\<forall>t. in_hand (apc a') t = [])"
    if "a' = (set_proc (sen_tag sen) p' (a\<lparr>ahandled := ahandled a @ [sen]\<rparr>))\<lparr>apc := pc'\<rparr>"
      "\<forall>t. in_hand pc' t = []" for p' pc'
    using that pc by auto
  from assms pc show ?thesis
    by (auto simp: loop_process_def Let_def split: akind.splits if_splits option.splits prod.splits
        intro!: shape)
qed

lemma tags_ok_process:
  assumes "tags_ok s" "ainv (aw_client s)" "loop_process h (aw_client s) = Some a'" "\<not> apanic a'"
  shows "tags_ok (s\<lparr>aw_client := a'\<rparr>)"
  unfolding tags_ok_def
proof (intro allI impI)
  fix t
  assume t: "aprocs (aw_client (s\<lparr>aw_client := a'\<rparr>)) t \<noteq> None"
  obtain sen where p: "apc (aw_client s) = LProc sen" "ahandled a' = ahandled (aw_client s) @ [sen]"
    "atags a' = atags (aw_client s)" "\<forall>t. aprocs a' t = None \<longleftrightarrow> aprocs (aw_client s) t = None"
    "\<forall>t. in_hand (apc a') t = []"
    using process_shape [OF assms(3,4)] by blast
  from t p(4) assms(1) have "tag_ok s t" by (simp add: tags_ok_def)
  moreover have "registered (aw_client s) (sen_tag sen)" using assms(2) p(1) by (simp add: ainv_def inv_pc_def)
  ultimately show "tag_ok (s\<lparr>aw_client := a'\<rparr>) t"
    using p by (auto simp: tag_ok_def since_tag_def conversation_def registered_def in_hand_def split: if_splits)
qed

lemma calm_same:
  "aprocs a' = aprocs a \<Longrightarrow> atags a' = atags a \<Longrightarrow> ahandled a' = ahandled a \<Longrightarrow> apc a' = apc a \<Longrightarrow> calm a a'"
  by (simp add: calm_def registered_def)

lemma holder_new:
  assumes "ainv a" "holder_tag (awriter a) = Some t"
  shows "aprocs a t = None \<and> \<not> registered a t"
  using assms by (auto simp: ainv_def inv_tags_def inv_open_def)

lemma calm_local:
  assumes "ainv a" "local_event e" "\<forall>h. e \<noteq> EvProcess h" "astep e a = Some a'"
  shows "calm a a'"
proof (cases e)
  case EvAsync
  then show ?thesis
    using assms(1,4) by (auto simp: start_async_def calm_def registered_def ainv_def inv_loop_def split: if_splits)
next
  case (EvReceive t)
  then show ?thesis
    using assms(4) by (auto simp: receive_def calm_def registered_def split: option.splits list.splits if_splits)
next
  case EvDelete
  then show ?thesis
    using assms(4) by (auto simp: loop_delete_def calm_def registered_def split: loop_pc.splits option.splits)
next
  case EvCloseReply
  have "\<not> apanic a'" if "loop_close a = Some a'"
    using that assms(1) by (auto simp: loop_close_def close_proc_def ainv_def inv_pc_def split: loop_pc.splits option.splits if_splits)
  with EvCloseReply assms(1,4) show ?thesis
    by (auto simp: loop_close_def calm_def registered_def split: loop_pc.splits option.splits if_splits)
next
  case EvCloseTags
  then show ?thesis
    using assms(4) by (auto simp: loop_close_tags_def calm_def registered_def split: loop_pc.splits if_splits)
qed (use assms in \<open>auto intro: calm_same\<close>)

lemma tags_ok_ended:
  assumes "tags_ok s" "ainv (aw_client s)" "holder_tag (awriter (aw_client s)) = Some t"
    and "a = (aw_client s)\<lparr>awriter := None\<rparr>
      \<or> atags (aw_client s) \<noteq> None \<and> a = register t (new_proc k st) ((aw_client s)\<lparr>awriter := None\<rparr>)"
  shows "tags_ok (wire_ended t ew a s)"
proof -
  note new = holder_new [OF assms(2,3)]
  from assms(4) show ?thesis
  proof
    assume a: "a = (aw_client s)\<lparr>awriter := None\<rparr>"
    with new have "\<not> registered a t" by (simp add: registered_def)
    then have "aw_since (wire_ended t ew a s) = aw_since s" "aw_seen (wire_ended t ew a s) = aw_seen s"
      "aw_client (wire_ended t ew a s) = a" by (simp_all add: wire_ended_def)
    with tags_ok_calm [OF assms(1)] a calm_same [of a "aw_client s"] show ?thesis by simp
  next
    assume a: "atags (aw_client s) \<noteq> None \<and> a = register t (new_proc k st) ((aw_client s)\<lparr>awriter := None\<rparr>)"
    then have "registered a t" by (auto simp: registered_def register_def)
    with a new show ?thesis
      by (intro tags_ok_register [OF assms(1,2), where t = t and k = k and st = st
            and a = "(aw_client s)\<lparr>awriter := None\<rparr>"]) (simp_all add: wire_ended_def)
  qed
qed

lemma tags_ok_step:
  assumes "tags_ok s" "ainv (aw_client s)" "wstep e s = Some s'" "\<not> apanic (aw_client s')"
  shows "tags_ok s'"
proof (cases e)
  case (WRunBegin ws k)
  with assms(3) show ?thesis
    by (auto simp: wire_begin_def run_begin_def Let_def split: option.splits if_splits
        intro!: tags_ok_calm [OF assms(1)] calm_same)
next
  case (WListenBegin ws k n c)
  with assms(3) show ?thesis
    by (auto simp: wire_begin_def listen_begin_def Let_def split: option.splits if_splits
        intro!: tags_ok_calm [OF assms(1)] calm_same)
next
  case (WRunCommit k)
  then obtain t where h: "awriter (aw_client s) = Some (HRun t)"
    using assms(3) by (auto simp: wire_run_commit_def split: option.splits holder.splits)
  show ?thesis
  proof (cases "atags (aw_client s) = None")
    case True
    with WRunCommit h assms(3) show ?thesis
      by (auto simp: wire_run_commit_def run_commit_def intro!: tags_ok_calm [OF assms(1)] calm_same)
  next
    case False
    with WRunCommit h assms(3) obtain a where a: "run_commit (fst (end_until k (aw_out s))) (aw_client s) = Some a"
      "s' = wire_ended t (end_until k (aw_out s)) a s"
      by (auto simp: wire_run_commit_def Let_def split: if_splits)
    with h False have "a = (aw_client s)\<lparr>awriter := None\<rparr>
      \<or> atags (aw_client s) \<noteq> None \<and> a = register t (new_proc KRun None) ((aw_client s)\<lparr>awriter := None\<rparr>)"
      by (auto simp: run_commit_def split: if_splits)
    with tags_ok_ended [OF assms(1,2)] h a(2) show ?thesis by simp
  qed
next
  case (WListenCommit k)
  then obtain t n st where h: "awriter (aw_client s) = Some (HListen t n st)"
    using assms(3) by (auto simp: wire_listen_commit_def split: option.splits holder.splits)
  with WListenCommit assms(3) obtain a where a: "listen_commit (fst (end_until k (aw_out s))) (aw_client s) = Some a"
    "s' = wire_ended t (end_until k (aw_out s)) a s"
    by (auto simp: wire_listen_commit_def Let_def split: if_splits)
  with h have "a = (aw_client s)\<lparr>awriter := None\<rparr>
      \<or> atags (aw_client s) \<noteq> None \<and> a = register t (new_proc (KListen n) st) ((aw_client s)\<lparr>awriter := None\<rparr>)"
    by (auto simp: listen_commit_def split: if_splits)
  with tags_ok_ended [OF assms(1,2)] h a(2) show ?thesis by simp
next
  case (WCancelTag target)
  let ?t = "tag_of CHR ''c'' (anext (aw_client s) + 1)"
  have n: "aprocs (aw_client s) ?t = None" using assms(2) fresh_tag by (auto simp: ainv_def inv_tags_def)
  show ?thesis
  proof (cases "atags (aw_client s) = None")
    case True
    with WCancelTag assms(3) show ?thesis
      by (auto simp: wire_cancel_tag_def cancel_tag_def Let_def intro!: tags_ok_calm [OF assms(1)] calm_same)
  next
    case False
    with WCancelTag assms(3) n show ?thesis
      by (intro tags_ok_register [OF assms(1,2) n, where k = KRun and st = None
            and a = "(aw_client s)\<lparr>anext := Suc (anext (aw_client s)), acancels := acancels (aw_client s) @ [?t]\<rparr>"])
        (auto simp: wire_cancel_tag_def cancel_tag_def Let_def)
  qed
next
  case (WCancelWrite t k)
  with assms(3) show ?thesis
    by (auto simp: wire_cancel_write_def cancel_write_def Let_def split: option.splits if_splits
        intro!: tags_ok_calm [OF assms(1)] calm_same)
next
  case WRead
  with assms(3) show ?thesis
    by (auto simp: wire_read_def loop_read_def calm_def registered_def split: prod.splits if_splits sum.splits
        intro!: tags_ok_calm [OF assms(1)])
next
  case (WReadCut n)
  with assms(3) show ?thesis
    by (auto simp: wire_read_cut_def loop_read_def calm_def registered_def split: prod.splits if_splits sum.splits
        intro!: tags_ok_calm [OF assms(1)])
next
  case WLookup
  with assms(3) tags_ok_lookup [OF assms(1)] show ?thesis by simp
next
  case (WLocal ev)
  with assms(3) obtain a' where a': "local_event ev" "astep ev (aw_client s) = Some a'" "s' = s\<lparr>aw_client := a'\<rparr>"
    by (auto split: if_splits)
  show ?thesis
  proof (cases "\<exists>h. ev = EvProcess h")
    case True
    with a' tags_ok_process [OF assms(1,2), of _ a'] assms(4) show ?thesis by auto
  next
    case False
    with a' calm_local [OF assms(2), of ev a'] show ?thesis
      by (auto intro!: tags_ok_calm [OF assms(1)])
  qed
qed

lemma wreaches_ainv: "wreaches w0 src s \<Longrightarrow> ainv (aw_client s)"
  by (intro areach_ainv wreaches_client)

lemma wreaches_tags_ok: "wreaches w0 src s \<Longrightarrow> tags_ok s"
proof (induction rule: wreaches.induct)
  case wreaches_init
  show ?case by (simp add: tags_ok_def wire_init_def async_init_def)
next
  case (wreaches_next s e s')
  then have "wreaches w0 src s'" by (blast intro: wreaches.wreaches_next)
  then have "\<not> apanic (aw_client s')" using wreaches_ainv by (auto simp: ainv_def)
  with wreaches_next wreaches_ainv show ?case by (blast intro: tags_ok_step)
qed

text \<open>The sentences looked up, and the one just read, are those at the front of the connection's bytes.\<close>

definition decoded :: "awire \<Rightarrow> sentence list" where
  "decoded s = aw_seen s @ (case apc (aw_client s) of LGot sen \<Rightarrow> [sen] | _ \<Rightarrow> [])"

definition failed :: "loop_pc \<Rightarrow> bool" where
  "failed pc \<longleftrightarrow> (\<exists>e. pc = LFail e \<or> pc = LEnded e)"

definition stream_ok :: "stream \<Rightarrow> awire \<Rightarrow> bool" where
  "stream_ok src s \<longleftrightarrow>
     (\<exists>rest. yields src (decoded s) rest \<and> (\<not> failed (apc (aw_client s)) \<longrightarrow> rest = aw_in s))"

lemma stream_ok_same:
  assumes "stream_ok src s" "aw_seen s' = aw_seen s" "aw_in s' = aw_in s"
    and "\<forall>sen. apc (aw_client s) \<noteq> LGot sen" "\<forall>sen. apc (aw_client s') \<noteq> LGot sen"
    and "failed (apc (aw_client s)) \<longrightarrow> failed (apc (aw_client s'))"
  shows "stream_ok src s'"
proof -
  have "decoded s' = decoded s" using assms(2,4,5) by (auto simp: decoded_def split: loop_pc.split)
  with assms(1,3,6) show ?thesis by (auto simp: stream_ok_def)
qed

lemma stream_ok_pc:
  assumes "stream_ok src s" "aw_seen s' = aw_seen s" "aw_in s' = aw_in s" "apc (aw_client s') = apc (aw_client s)"
  shows "stream_ok src s'"
  using assms by (simp add: stream_ok_def decoded_def)

definition got :: "loop_pc \<Rightarrow> bool" where
  "got pc \<longleftrightarrow> (\<exists>sen. pc = LGot sen)"

lemma local_pc:
  assumes "ainv a" "local_event e" "astep e a = Some a'"
  shows "apc a' = apc a \<or> \<not> got (apc a) \<and> \<not> got (apc a') \<and> (failed (apc a) \<longrightarrow> failed (apc a'))"
proof (cases e)
  case EvAsync
  with assms show ?thesis by (auto simp: start_async_def got_def failed_def ainv_def inv_loop_def split: if_splits)
next
  case (EvReceive t)
  with assms show ?thesis by (auto simp: receive_def set_proc_def split: option.splits list.splits)
next
  case (EvProcess h)
  with assms show ?thesis
    by (auto simp: loop_process_def got_def failed_def after_process_def Let_def
        split: loop_pc.splits option.splits akind.splits if_splits prod.splits)
next
  case EvDelete
  with assms show ?thesis by (auto simp: loop_delete_def got_def failed_def split: loop_pc.splits)
next
  case EvCloseReply
  with assms show ?thesis by (auto simp: loop_close_def got_def failed_def split: loop_pc.splits option.splits)
next
  case EvCloseTags
  with assms show ?thesis by (auto simp: loop_close_tags_def got_def failed_def split: loop_pc.splits)
qed (use assms in auto)

lemma stream_ok_step:
  assumes "stream_ok src s" "ainv (aw_client s)" "wstep e s = Some s'"
  shows "stream_ok src s'"
proof (cases e)
  case (WRunBegin ws k)
  with assms(3) show ?thesis
    by (auto simp: wire_begin_def run_begin_def Let_def split: option.splits if_splits
        intro!: stream_ok_pc [OF assms(1)])
next
  case (WListenBegin ws k n c)
  with assms(3) show ?thesis
    by (auto simp: wire_begin_def listen_begin_def Let_def split: option.splits if_splits
        intro!: stream_ok_pc [OF assms(1)])
next
  case (WRunCommit k)
  with assms(3) show ?thesis
    by (auto simp: wire_run_commit_def wire_ended_def run_commit_def register_def Let_def
        split: option.splits holder.splits if_splits intro!: stream_ok_pc [OF assms(1)])
next
  case (WListenCommit k)
  with assms(3) show ?thesis
    by (auto simp: wire_listen_commit_def wire_ended_def listen_commit_def register_def Let_def
        split: option.splits holder.splits if_splits intro!: stream_ok_pc [OF assms(1)])
next
  case (WCancelTag target)
  with assms(3) show ?thesis
    by (auto simp: wire_cancel_tag_def cancel_tag_def register_def Let_def intro!: stream_ok_pc [OF assms(1)])
next
  case (WCancelWrite t k)
  with assms(3) show ?thesis
    by (auto simp: wire_cancel_write_def cancel_write_def Let_def split: option.splits if_splits
        intro!: stream_ok_pc [OF assms(1)])
next
  case WRead
  obtain r st where rd: "read_sentence (aw_in s) = (r, st)" by force
  with WRead assms(3) have pc: "apc (aw_client s) = LRead"
    and s': "s' = s\<lparr>aw_client := (aw_client s)\<lparr>apc := (case r of Inl e \<Rightarrow> LFail e | Inr sen \<Rightarrow> LGot sen)\<rparr>, aw_in := st\<rparr>"
    by (auto simp: wire_read_def loop_read_def split: if_splits)
  from assms(1) pc have y: "yields src (aw_seen s) (aw_in s)" by (simp add: stream_ok_def decoded_def failed_def)
  show ?thesis
  proof (cases r)
    case (Inl e)
    with y s' show ?thesis by (auto simp: stream_ok_def decoded_def failed_def)
  next
    case (Inr sen)
    with y rd have "yields src (aw_seen s @ [sen]) st" by (auto simp: yields_snoc)
    with Inr s' show ?thesis by (auto simp: stream_ok_def decoded_def)
  qed
next
  case (WReadCut n)
  with assms(3) show ?thesis
    by (auto simp: wire_read_cut_def loop_read_def failed_def split: prod.splits sum.splits if_splits
        intro!: stream_ok_same [OF assms(1)])
next
  case WLookup
  with assms(3) obtain sen a where l: "apc (aw_client s) = LGot sen" "loop_lookup (aw_client s) = Some a"
    "s' = s\<lparr>aw_client := a, aw_seen := aw_seen s @ [sen]\<rparr>"
    by (auto simp: wire_lookup_def split: loop_pc.splits)
  then have "\<not> got (apc a)" by (auto simp: loop_lookup_def got_def split: if_splits)
  with l have "decoded s' = decoded s" by (auto simp: decoded_def got_def split: loop_pc.split)
  with l assms(1) show ?thesis by (auto simp: stream_ok_def failed_def)
next
  case (WLocal ev)
  with assms(3) obtain a where a: "local_event ev" "astep ev (aw_client s) = Some a" "s' = s\<lparr>aw_client := a\<rparr>"
    by (auto split: if_splits)
  from local_pc [OF assms(2) a(1,2)] show ?thesis
    using a(3) stream_ok_pc [OF assms(1), of s'] stream_ok_same [OF assms(1), of s'] by (auto simp: got_def)
qed

lemma wreaches_stream_ok: "wreaches w0 src s \<Longrightarrow> stream_ok src s"
proof (induction rule: wreaches.induct)
  case wreaches_init
  show ?case by (simp add: stream_ok_def wire_init_def async_init_def decoded_def)
qed (blast intro: stream_ok_step wreaches_ainv)

text \<open>What the loop has looked up is what the bytes say, one sentence after the other.\<close>

lemma wreaches_seen: "wreaches w0 src s \<Longrightarrow> \<exists>rest. yields src (aw_seen s) rest"
proof -
  assume "wreaches w0 src s"
  then have "stream_ok src s" by (rule wreaches_stream_ok)
  then obtain rest where "yields src (decoded s) rest" unfolding stream_ok_def by blast
  then show ?thesis by (auto simp: decoded_def yields_snoc split: loop_pc.splits)
qed

end
