(* ===== verification/Async_Sent.thy ===== *)
theory Async_Sent
  imports Async_Wire
begin

text \<open>
  What the composed client of \<open>Async_Wire\<close> puts on the connection and what it gives its callers: the
  invariants of the writer and of the tags, and the properties of the composition.
\<close>

subsection \<open>What goes out\<close>

text \<open>
  The bytes on the connection after those of the sentences that were sent: the writes of the sentence that is
  open, or, once a write has failed, some first bytes of one sentence.
\<close>

definition on_wire :: "byte list \<Rightarrow> writer \<Rightarrow> string list \<Rightarrow> bool" where
  "on_wire d w ws \<longleftrightarrow>
     (if werr w = None then wire w = d @ concat (sentence_writes ws)
      else (\<exists>us j. wire w = d @ take j (sentence_bytes us)))"

lemma on_wire_locked [simp]: "on_wire d (w\<lparr>wlocked := b\<rparr>) ws = on_wire d w ws"
  by (simp add: on_wire_def wire_def)

lemma sentence_writes_nil [simp]: "sentence_writes [] = []"
  by (simp add: sentence_writes_def)

lemma on_wire_writes:
  assumes "on_wire d w []"
  shows "on_wire d (write_until k (sentence_writes ws) w) ws"
proof (cases "werr w")
  case None
  with assms have d: "wire w = d" by (simp add: on_wire_def)
  obtain j where j: "wire (write_until k (sentence_writes ws) w) = d @ take j (concat (sentence_writes ws))"
    using write_until_prefix [of k "sentence_writes ws" w] d by auto
  then have "wire (write_until k (sentence_writes ws) w)
      = d @ take (min j (length (concat (sentence_writes ws)))) (sentence_bytes ws)"
    by (simp only: sentence_bytes_writes take_min_append)
  with d write_until_ok [of k "sentence_writes ws" w] show ?thesis by (auto simp: on_wire_def)
next
  case (Some e)
  with assms show ?thesis by (simp add: on_wire_def write_until_def writes_keep_error)
qed

lemma on_wire_end:
  assumes "on_wire d w ws" "end_until k w = (e, w')"
  shows "on_wire (if e = None then d @ sentence_bytes ws else d) w' [] \<and> werr w' = e \<and> \<not> wlocked w'"
proof -
  let ?w = "write_until k (word_writes []) w"
  have w': "wire w' = wire ?w" "werr w' = e" "\<not> wlocked w'" "e = werr (flush_writer ?w)"
    using assms(2) flush_writer_wire [of ?w] by (auto simp: end_until_def Let_def wire_def)
  show ?thesis
  proof (cases "werr w")
    case None
    with assms(1) have d: "wire w = d @ concat (sentence_writes ws)" by (simp add: on_wire_def)
    show ?thesis
    proof (cases e)
      case None
      with w'(4) flush_writer_ok [of ?w] have "werr ?w = None" by simp
      with write_until_ok [of k "word_writes []" w] d w' None show ?thesis
        by (simp add: on_wire_def sentence_bytes_writes)
    next
      case (Some x)
      obtain j where "wire ?w = wire w @ take j (concat (word_writes []))" using write_until_prefix by blast
      with d w'(1) have "wire w' = d @ take (length (concat (sentence_writes ws)) + j) (sentence_bytes ws)"
        by (simp add: sentence_bytes_writes take_add)
      then have "\<exists>us j. wire w' = d @ take j (sentence_bytes us)" by blast
      moreover have "werr w' = Some x" using w'(2) Some by simp
      ultimately show ?thesis using w'(3) Some by (simp add: on_wire_def)
    qed
  next
    case (Some x)
    then have "?w = w" by (simp add: write_until_def writes_keep_error)
    with Some w' flush_writer_error [of w] assms(1) show ?thesis by (auto simp: on_wire_def)
  qed
qed

definition sent_bytes :: "awire \<Rightarrow> byte list" where
  "sent_bytes s = concat (map (sentence_bytes \<circ> snd) (aw_sent s))"

definition out_ok :: "writer \<Rightarrow> awire \<Rightarrow> bool" where
  "out_ok w0 s \<longleftrightarrow>
     (wlocked (aw_out s) \<longleftrightarrow> awriter (aw_client s) \<noteq> None)
     \<and> (awriter (aw_client s) = None \<longrightarrow> aw_open s = [])
     \<and> on_wire (wire w0 @ sent_bytes s) (aw_out s) (aw_open s)"

lemma out_ok_same:
  assumes "out_ok w0 s" "aw_out s' = aw_out s" "aw_open s' = aw_open s" "aw_sent s' = aw_sent s"
    and "awriter (aw_client s') = None \<longleftrightarrow> awriter (aw_client s) = None"
  shows "out_ok w0 s'"
  using assms by (simp add: out_ok_def sent_bytes_def)

lemma out_ok_begin:
  assumes "out_ok w0 s" "wire_begin begun ws k s = Some s'"
  shows "out_ok w0 s'"
proof -
  obtain w a t where w: "begin_sentence (aw_out s) = Some w" and t: "holder_tag (awriter a) = Some t"
    and s': "s' = s\<lparr>aw_client := a, aw_out := write_until k (sentence_writes (tagged ws t)) w, aw_open := tagged ws t\<rparr>"
    using assms(2) by (auto simp: wire_begin_def Let_def split: option.splits if_splits)
  from w have b: "\<not> wlocked (aw_out s)" "w = (aw_out s)\<lparr>wlocked := True\<rparr>"
    by (auto simp: begin_sentence_def split: if_splits)
  with assms(1) have "on_wire (wire w0 @ sent_bytes s) w []" by (auto simp: out_ok_def)
  moreover have "awriter a \<noteq> None" using t by (cases "awriter a") simp_all
  ultimately show ?thesis using on_wire_writes b s' by (auto simp: out_ok_def sent_bytes_def)
qed

lemma out_ok_end:
  assumes "out_ok w0 s" "end_until k (aw_out s) = ew" "awriter a = None"
  shows "out_ok w0 (wire_ended t ew a s)"
proof -
  obtain e w' where ew: "ew = (e, w')" by force
  from assms(1) have "on_wire (wire w0 @ sent_bytes s) (aw_out s) (aw_open s)" by (simp add: out_ok_def)
  from on_wire_end [OF this assms(2) [unfolded ew]] assms(3) ew show ?thesis
    by (cases e) (auto simp: out_ok_def wire_ended_def sent_bytes_def)
qed

lemma wire_cancel_shape:
  assumes "wire_cancel_write t k s = Some s'"
  obtains target w a e w' where "map_of (aw_cancels s) t = Some target" "begin_sentence (aw_out s) = Some w"
    "cancel_write t (aw_client s) = Some a"
    "end_until (k - length (sentence_writes (cancel_sentence target t)))
       (write_until k (sentence_writes (cancel_sentence target t)) w) = (e, w')"
    "s' = s\<lparr>aw_client := a, aw_out := w', aw_cancels := filter (\<lambda>p. fst p \<noteq> t) (aw_cancels s),
       aw_sent := (if e = None then aw_sent s @ [(t, cancel_sentence target t)] else aw_sent s)\<rparr>"
proof -
  obtain target w where m: "map_of (aw_cancels s) t = Some target" "begin_sentence (aw_out s) = Some w"
    using assms by (auto simp: wire_cancel_write_def split: option.splits)
  obtain e w' where ew: "end_until (k - length (sentence_writes (cancel_sentence target t)))
       (write_until k (sentence_writes (cancel_sentence target t)) w) = (e, w')" by force
  have "may_cut (aw_client s) k (length (sentence_writes (cancel_sentence target t)) + 2)"
    using assms m by (simp add: wire_cancel_write_def Let_def split: if_splits)
  with assms m ew obtain a where "cancel_write t (aw_client s) = Some a"
    "s' = s\<lparr>aw_client := a, aw_out := w', aw_cancels := filter (\<lambda>p. fst p \<noteq> t) (aw_cancels s),
       aw_sent := (if e = None then aw_sent s @ [(t, cancel_sentence target t)] else aw_sent s)\<rparr>"
    by (cases "cancel_write t (aw_client s)") (simp_all add: wire_cancel_write_def Let_def)
  with that m ew show thesis by blast
qed

lemma out_ok_cancel:
  assumes "out_ok w0 s" "wire_cancel_write t k s = Some s'"
  shows "out_ok w0 s'"
  using assms(2)
proof (rule wire_cancel_shape)
  fix target w a e w'
  assume w: "begin_sentence (aw_out s) = Some w" and a: "cancel_write t (aw_client s) = Some a"
    and ew: "end_until (k - length (sentence_writes (cancel_sentence target t)))
       (write_until k (sentence_writes (cancel_sentence target t)) w) = (e, w')"
    and s': "s' = s\<lparr>aw_client := a, aw_out := w', aw_cancels := filter (\<lambda>p. fst p \<noteq> t) (aw_cancels s),
       aw_sent := (if e = None then aw_sent s @ [(t, cancel_sentence target t)] else aw_sent s)\<rparr>"
  from w have b: "\<not> wlocked (aw_out s)" "w = (aw_out s)\<lparr>wlocked := True\<rparr>"
    by (auto simp: begin_sentence_def split: if_splits)
  with assms(1) have "on_wire (wire w0 @ sent_bytes s) w []" "aw_open s = []" by (auto simp: out_ok_def)
  moreover have "awriter a = None" using a by (auto simp: cancel_write_def split: if_splits)
  ultimately show ?thesis
    using s' on_wire_end [OF on_wire_writes ew, of "wire w0 @ sent_bytes s"]
    by (cases e) (simp_all add: out_ok_def sent_bytes_def)
qed

lemma local_writer:
  "local_event e \<Longrightarrow> astep e a = Some a' \<Longrightarrow> awriter a' = awriter a \<and> anext a' = anext a \<and> acancels a' = acancels a
     \<and> (\<forall>t. aprocs a' t \<noteq> None \<longrightarrow> aprocs a t \<noteq> None)"
  by (cases e) (auto simp: start_async_def receive_def loop_process_def loop_delete_def loop_close_def
      loop_close_tags_def set_proc_def Let_def
      split: if_splits option.splits list.splits loop_pc.splits akind.splits prod.splits)

lemma out_ok_step:
  assumes "out_ok w0 s" "wstep e s = Some s'"
  shows "out_ok w0 s'"
proof (cases e)
  case (WRunBegin ws k)
  with assms show ?thesis by (auto intro: out_ok_begin)
next
  case (WListenBegin ws k n c)
  with assms show ?thesis by (auto intro: out_ok_begin)
next
  case (WRunCommit k)
  then obtain t where h: "awriter (aw_client s) = Some (HRun t)"
    using assms(2) by (auto simp: wire_run_commit_def split: option.splits holder.splits)
  show ?thesis
  proof (cases "atags (aw_client s) = None")
    case True
    with WRunCommit h assms(2) show ?thesis
      by (auto simp: wire_run_commit_def run_commit_def intro!: out_ok_same [OF assms(1)])
  next
    case False
    with WRunCommit h assms(2) obtain a where a: "run_commit (fst (end_until k (aw_out s))) (aw_client s) = Some a"
      "s' = wire_ended t (end_until k (aw_out s)) a s"
      by (auto simp: wire_run_commit_def Let_def split: if_splits)
    with h False have "awriter a = None" by (auto simp: run_commit_def register_def split: if_splits)
    with out_ok_end [OF assms(1) refl] a(2) show ?thesis by simp
  qed
next
  case (WListenCommit k)
  then obtain t n st where h: "awriter (aw_client s) = Some (HListen t n st)"
    using assms(2) by (auto simp: wire_listen_commit_def split: option.splits holder.splits)
  with WListenCommit assms(2) obtain a where a: "listen_commit (fst (end_until k (aw_out s))) (aw_client s) = Some a"
    "s' = wire_ended t (end_until k (aw_out s)) a s"
    by (auto simp: wire_listen_commit_def Let_def split: if_splits)
  with h have "awriter a = None" by (auto simp: listen_commit_def register_def split: if_splits)
  with out_ok_end [OF assms(1) refl] a(2) show ?thesis by simp
next
  case (WCancelTag target)
  with assms(2) show ?thesis
    by (auto simp: wire_cancel_tag_def cancel_tag_def register_def Let_def split: if_splits
        intro!: out_ok_same [OF assms(1)])
next
  case (WCancelWrite t k)
  with assms show ?thesis by (auto intro: out_ok_cancel)
next
  case WRead
  with assms(2) show ?thesis
    by (auto simp: wire_read_def loop_read_def split: prod.splits if_splits intro!: out_ok_same [OF assms(1)])
next
  case (WReadCut n)
  with assms(2) show ?thesis
    by (auto simp: wire_read_cut_def loop_read_def split: prod.splits sum.splits if_splits
        intro!: out_ok_same [OF assms(1)])
next
  case WLookup
  with assms(2) show ?thesis
    by (auto simp: wire_lookup_def loop_lookup_def split: loop_pc.splits intro!: out_ok_same [OF assms(1)])
next
  case (WLocal ev)
  with assms(2) obtain a where a: "local_event ev" "astep ev (aw_client s) = Some a" "s' = s\<lparr>aw_client := a\<rparr>"
    by (auto split: if_splits)
  with local_writer [OF a(1,2)] show ?thesis by (auto intro!: out_ok_same [OF assms(1)])
qed

lemma wreaches_out_ok: "wreaches w0 src s \<Longrightarrow> out_ok w0 s"
proof (induction rule: wreaches.induct)
  case wreaches_init
  then show ?case
    by (auto simp: out_ok_def wire_init_def async_init_def sent_bytes_def on_wire_def intro: exI [of _ 0])
qed (blast intro: out_ok_step)

text \<open>
  What the connection itself has taken, without the bytes that wait in the buffer: it only grows, and a
  \<open>EndSentence\<close> without an error leaves nothing in the buffer.
\<close>

definition transmitted :: "writer \<Rightarrow> byte list" where
  "transmitted w = sent (bconn (wbuf w))"

lemma transmitted_locked [simp]: "transmitted (w\<lparr>wlocked := b\<rparr>) = transmitted w"
  by (simp add: transmitted_def)

lemma conn_write_grows: "conn_write b c = (r, c') \<Longrightarrow> prefix (sent c) (sent c')"
  by (auto simp: conn_write_def split: option.splits if_splits)

lemma buf_flush_grows: "buf_flush w = (r, w') \<Longrightarrow> prefix (sent (bconn w)) (sent (bconn w'))"
  by (auto simp: buf_flush_def split: option.splits prod.splits if_splits dest: conn_write_grows)

lemma buf_step_grows:
  assumes "buf_step p w = (n, w')"
  shows "prefix (sent (bconn w)) (sent (bconn w'))"
proof (cases "buf w = []")
  case True
  with assms show ?thesis by (auto simp: buf_step_def split: prod.splits dest: conn_write_grows)
next
  case False
  let ?w = "w\<lparr>buf := buf w @ take (min (length p) (buf_size - length (buf w))) p\<rparr>"
  obtain r w1 where "buf_flush ?w = (r, w1)" by force
  with buf_flush_grows [OF this] assms False show ?thesis by (simp add: buf_step_def Let_def)
qed

lemma buf_write_grows: "prefix (sent (bconn w)) (sent (bconn (snd (buf_write p w))))"
proof (induction p w rule: buf_write.induct)
  case (1 p w)
  show ?case
  proof (cases "buf_size - length (buf w) < length p \<and> berr w = None")
    case True
    obtain n w1 where st: "buf_step p w = (n, w1)" by force
    from buf_step_grows [OF st] "1.IH" [OF True st [symmetric]] True st show ?thesis
      by (subst buf_write.simps) (auto intro: prefix_order.trans)
  next
    case False
    then show ?thesis by (subst buf_write.simps) (auto split: option.split)
  qed
qed

lemma write_bytes_grows: "prefix (transmitted w) (transmitted (write_bytes intr b w))"
  using buf_write_grows [of "wbuf w" b]
  by (auto simp: transmitted_def write_bytes_def ctx_write_def split: option.split prod.split)

lemma writes_grow: "prefix (transmitted w) (transmitted (fold (write_bytes intr) cs w))"
  by (induction cs arbitrary: w) (auto intro: prefix_order.trans write_bytes_grows)

lemma write_until_grows: "prefix (transmitted w) (transmitted (write_until k cs w))"
  unfolding write_until_def by (meson prefix_order.trans writes_grow)

lemma flush_writer_grows: "prefix (transmitted w) (transmitted (flush_writer w))"
proof -
  obtain r bw where "buf_flush (wbuf w) = (r, bw)" by force
  with buf_flush_grows [OF this] show ?thesis
    by (auto simp: transmitted_def flush_writer_def split: option.split)
qed

lemma end_until_grows:
  assumes "end_until k w = (e, w')"
  shows "prefix (transmitted w) (transmitted w')" and "e = None \<Longrightarrow> transmitted w' = wire w'"
proof -
  let ?w = "write_until k (word_writes []) w"
  have w': "w' = (flush_writer ?w)\<lparr>wlocked := False\<rparr>" "e = werr (flush_writer ?w)"
    using assms by (auto simp: end_until_def Let_def)
  have "prefix (transmitted w) (transmitted (flush_writer ?w))"
    by (meson prefix_order.trans write_until_grows flush_writer_grows)
  with w'(1) show "prefix (transmitted w) (transmitted w')" by (simp add: transmitted_def)
  show "e = None \<Longrightarrow> transmitted w' = wire w'"
    using w' flush_writer_ok [of ?w] by (simp add: transmitted_def wire_def accepted_def)
qed

text \<open>Every step lets the connection take more, and one that sends a sentence has flushed it.\<close>

lemma wstep_transmits:
  assumes "wstep e s = Some s'"
  shows "prefix (transmitted (aw_out s)) (transmitted (aw_out s'))
    \<and> (aw_sent s' = aw_sent s \<or> transmitted (aw_out s') = wire (aw_out s'))"
proof (cases e)
  case (WRunBegin ws k)
  with assms write_until_grows [of "(aw_out s)\<lparr>wlocked := True\<rparr>"] show ?thesis
    by (auto simp: wire_begin_def begin_sentence_def Let_def split: option.splits if_splits)
next
  case (WListenBegin ws k n c)
  with assms write_until_grows [of "(aw_out s)\<lparr>wlocked := True\<rparr>"] show ?thesis
    by (auto simp: wire_begin_def begin_sentence_def Let_def split: option.splits if_splits)
next
  case (WRunCommit k)
  obtain x w' where ew: "end_until k (aw_out s) = (x, w')" by force
  with WRunCommit assms end_until_grows [OF ew] show ?thesis
    by (auto simp: wire_run_commit_def wire_ended_def Let_def split: option.splits holder.splits if_splits)
next
  case (WListenCommit k)
  obtain x w' where ew: "end_until k (aw_out s) = (x, w')" by force
  with WListenCommit assms end_until_grows [OF ew] show ?thesis
    by (auto simp: wire_listen_commit_def wire_ended_def Let_def split: option.splits holder.splits if_splits)
next
  case (WCancelTag target)
  with assms show ?thesis by (auto simp: wire_cancel_tag_def Let_def)
next
  case (WCancelWrite t k)
  with assms have "wire_cancel_write t k s = Some s'" by simp
  then show ?thesis
  proof (rule wire_cancel_shape)
    fix target w a x w'
    assume w: "begin_sentence (aw_out s) = Some w"
      and ew: "end_until (k - length (sentence_writes (cancel_sentence target t)))
         (write_until k (sentence_writes (cancel_sentence target t)) w) = (x, w')"
      and s': "s' = s\<lparr>aw_client := a, aw_out := w', aw_cancels := filter (\<lambda>p. fst p \<noteq> t) (aw_cancels s),
         aw_sent := (if x = None then aw_sent s @ [(t, cancel_sentence target t)] else aw_sent s)\<rparr>"
    have "transmitted w = transmitted (aw_out s)"
      using w by (auto simp: begin_sentence_def transmitted_def split: if_splits)
    with end_until_grows [OF ew] s' show ?thesis
      using prefix_order.trans [OF write_until_grows [of w k "sentence_writes (cancel_sentence target t)"]] by auto
  qed
next
  case WRead
  with assms show ?thesis by (auto simp: wire_read_def split: prod.splits)
next
  case (WReadCut n)
  with assms show ?thesis by (auto simp: wire_read_cut_def split: prod.splits sum.splits)
next
  case WLookup
  with assms show ?thesis by (auto simp: wire_lookup_def split: loop_pc.splits)
next
  case (WLocal ev)
  with assms show ?thesis by (auto split: if_splits)
qed

text \<open>So a sentence that counts as sent is on the connection, whatever is written or fails later.\<close>

lemma wreaches_transmitted:
  "wreaches w0 src s \<Longrightarrow> aw_sent s \<noteq> [] \<Longrightarrow> prefix (wire w0 @ sent_bytes s) (transmitted (aw_out s))"
proof (induction rule: wreaches.induct)
  case (wreaches_next s e s')
  have ok: "out_ok w0 s'" using wreaches_out_ok [OF wreaches.wreaches_next [OF wreaches_next.hyps]] .
  from wstep_transmits [OF wreaches_next.hyps(2)]
  have g: "prefix (transmitted (aw_out s)) (transmitted (aw_out s'))"
    "aw_sent s' = aw_sent s \<or> transmitted (aw_out s') = wire (aw_out s')" by simp_all
  show ?case
  proof (cases "aw_sent s' = aw_sent s")
    case True
    with g(1) wreaches_next.IH wreaches_next.prems show ?thesis
      by (auto simp: sent_bytes_def intro: prefix_order.trans)
  next
    case False
    with g(2) ok show ?thesis by (auto simp: out_ok_def on_wire_def split: if_splits)
  qed
qed (simp add: wire_init_def)

text \<open>The tags in use: of the sentences sent, of the cancellations that wait, of the call that holds the writer.\<close>

definition tags_used :: "awire \<Rightarrow> string list" where
  "tags_used s =
     map fst (aw_sent s) @ acancels (aw_client s)
     @ (case holder_tag (awriter (aw_client s)) of None \<Rightarrow> [] | Some t \<Rightarrow> [t])"

definition sent_ok :: "awire \<Rightarrow> bool" where
  "sent_ok s \<longleftrightarrow>
     map fst (aw_cancels s) = acancels (aw_client s)
     \<and> distinct (tags_used s) \<and> (\<forall>t \<in> set (tags_used s). old_tag (anext (aw_client s)) t)
     \<and> (\<forall>p \<in> set (aw_sent s). \<exists>us. snd p = tagged us (fst p))
     \<and> (\<forall>t. holder_tag (awriter (aw_client s)) = Some t \<longrightarrow> (\<exists>us. aw_open s = tagged us t))
     \<and> (werr (aw_out s) = None \<longrightarrow>
          (\<forall>t. aprocs (aw_client s) t \<noteq> None \<longrightarrow> t \<in> fst ` set (aw_sent s) \<union> set (acancels (aw_client s))))"

lemma sent_ok_same:
  assumes "sent_ok s" "aw_out s' = aw_out s" "aw_open s' = aw_open s" "aw_sent s' = aw_sent s" "aw_cancels s' = aw_cancels s"
    and "(awriter (aw_client s') = awriter (aw_client s) \<or> holder_tag (awriter (aw_client s')) = None)
      \<and> anext (aw_client s') = anext (aw_client s) \<and> acancels (aw_client s') = acancels (aw_client s)
      \<and> (\<forall>t. aprocs (aw_client s') t \<noteq> None \<longrightarrow> aprocs (aw_client s) t \<noteq> None)"
  shows "sent_ok s'"
proof -
  have "distinct (tags_used s) \<Longrightarrow> distinct (tags_used s')" "set (tags_used s') \<subseteq> set (tags_used s)"
    using assms(4,6) by (auto simp: tags_used_def)
  moreover have "holder_tag (awriter (aw_client s')) = Some t \<Longrightarrow> holder_tag (awriter (aw_client s)) = Some t" for t
    using assms(6) by auto
  ultimately show ?thesis using assms by (auto simp: sent_ok_def)
qed

lemma end_until_ok: "end_until k w = (None, w') \<Longrightarrow> werr w = None"
  using flush_writer_ok [of "write_until k (word_writes []) w"] write_until_ok [of k "word_writes []" w]
  by (auto simp: end_until_def Let_def)

lemma sent_ok_begin:
  assumes "sent_ok s" "awriter (aw_client s) = None" "holder_tag (awriter a) = Some (tag_of c (Suc (anext (aw_client s))))"
    and "anext a = Suc (anext (aw_client s))" "acancels a = acancels (aw_client s)" "aprocs a = aprocs (aw_client s)"
    and "wire_begin (Some a) ws k s = Some s'"
  shows "sent_ok s'"
proof -
  let ?t = "tag_of c (Suc (anext (aw_client s)))"
  obtain w where w: "begin_sentence (aw_out s) = Some w"
    and s': "s' = s\<lparr>aw_client := a, aw_out := write_until k (sentence_writes (tagged ws ?t)) w, aw_open := tagged ws ?t\<rparr>"
    using assms(3,7) by (auto simp: wire_begin_def Let_def split: option.splits if_splits)
  have u: "tags_used s' = tags_used s @ [?t]" using assms(2,3,5) s' by (simp add: tags_used_def)
  have "?t \<notin> set (tags_used s)" using assms(1) fresh_tag by (auto simp: sent_ok_def)
  moreover have "werr (aw_out s') = None \<Longrightarrow> werr (aw_out s) = None"
    using w s' write_until_ok [of k "sentence_writes (tagged ws ?t)" w]
    by (auto simp: begin_sentence_def split: if_splits)
  ultimately show ?thesis
    using assms(1,3-6) u s' old_tag_mono old_tag_new by (auto simp: sent_ok_def)
qed

lemma sent_ok_end:
  assumes "sent_ok s" "holder_tag (awriter (aw_client s)) = Some t" "end_until k (aw_out s) = (e, w')"
    and "awriter a = None" "anext a = anext (aw_client s)" "acancels a = acancels (aw_client s)"
    and "\<forall>u. aprocs a u \<noteq> None \<longrightarrow> u = t \<or> aprocs (aw_client s) u \<noteq> None"
  shows "sent_ok (wire_ended t (e, w') a s)"
proof -
  have "werr w' = e" using end_until_result [of k 0 "[]" "aw_out s"] assms(3) by (simp add: write_until_def)
  moreover have "e = None \<Longrightarrow> werr (aw_out s) = None" using assms(3) end_until_ok by blast
  moreover obtain us where "aw_open s = tagged us t" using assms(1,2) by (auto simp: sent_ok_def)
  moreover have "u \<in> insert t (fst ` set (aw_sent s) \<union> set (acancels (aw_client s)))"
    if "e = None" "aprocs a u \<noteq> None" for u
    using assms(7) [rule_format, OF that(2)] that(1) assms(1) \<open>e = None \<Longrightarrow> werr (aw_out s) = None\<close>
    by (auto simp: sent_ok_def)
  ultimately show ?thesis
    using assms(1-6) by (cases e) (auto simp: sent_ok_def wire_ended_def tags_used_def)
qed

lemma sent_ok_cancel_tag:
  assumes "sent_ok s"
  shows "sent_ok (wire_cancel_tag target s)"
proof -
  let ?t = "tag_of CHR ''c'' (Suc (anext (aw_client s)))"
  have n: "?t \<notin> set (tags_used s)" using assms fresh_tag by (auto simp: sent_ok_def)
  show ?thesis
  proof (cases "atags (aw_client s) = None")
    case True
    with assms show ?thesis
      by (auto simp: wire_cancel_tag_def cancel_tag_def Let_def sent_ok_def tags_used_def old_tag_mono)
  next
    case False
    with assms n old_tag_new show ?thesis
      by (auto simp: wire_cancel_tag_def cancel_tag_def register_def Let_def sent_ok_def tags_used_def old_tag_mono)
  qed
qed

lemma sent_ok_cancel_write:
  assumes "sent_ok s" "wire_cancel_write t k s = Some s'"
  shows "sent_ok s'"
  using assms(2)
proof (rule wire_cancel_shape)
  fix target w a e w'
  assume m: "map_of (aw_cancels s) t = Some target" and w: "begin_sentence (aw_out s) = Some w"
    and a: "cancel_write t (aw_client s) = Some a"
    and ew: "end_until (k - length (sentence_writes (cancel_sentence target t)))
       (write_until k (sentence_writes (cancel_sentence target t)) w) = (e, w')"
    and s': "s' = s\<lparr>aw_client := a, aw_out := w', aw_cancels := filter (\<lambda>p. fst p \<noteq> t) (aw_cancels s),
       aw_sent := (if e = None then aw_sent s @ [(t, cancel_sentence target t)] else aw_sent s)\<rparr>"
  have a': "t \<in> set (acancels (aw_client s))" "awriter (aw_client s) = None"
    "a = (aw_client s)\<lparr>acancels := remove1 t (acancels (aw_client s))\<rparr>"
    using a by (auto simp: cancel_write_def split: if_splits)
  note ok = assms(1) [unfolded sent_ok_def]
  have u: "tags_used s = map fst (aw_sent s) @ acancels (aw_client s)" using a'(2) by (simp add: tags_used_def)
  have d: "distinct (map fst (aw_sent s) @ acancels (aw_client s))" using ok u by simp
  then have r: "remove1 t (acancels (aw_client s)) = filter (\<lambda>u. u \<noteq> t) (acancels (aw_client s))"
    by (simp add: distinct_remove1_removeAll removeAll_filter_not_eq) (rule filter_cong, auto)
  then have u': "tags_used s' = map fst (aw_sent s) @ (if e = None then [t] else [])
      @ filter (\<lambda>u. u \<noteq> t) (acancels (aw_client s))"
    using a'(2,3) s' by (simp add: tags_used_def)
  have "distinct (tags_used s')" "set (tags_used s') \<subseteq> set (tags_used s)"
    using d a'(1) by (auto simp: u u')
  moreover have "map fst (filter (\<lambda>p. fst p \<noteq> t) ps) = filter (\<lambda>u. u \<noteq> t) (map fst ps)"
    for ps :: "(string \<times> string) list" by (induction ps) auto
  then have "map fst (aw_cancels s') = acancels (aw_client s')"
    using conjunct1 [OF ok] s' a'(3) r by simp
  moreover have "\<exists>us. cancel_sentence target t = tagged us t" using cancels_agree by metis
  then have "\<forall>p \<in> set (aw_sent s'). \<exists>us. snd p = tagged us (fst p)" using ok s' by auto
  moreover have "holder_tag (awriter (aw_client s')) = None" using a'(2,3) s' by simp
  moreover have "v \<in> fst ` set (aw_sent s') \<union> set (acancels (aw_client s'))"
    if "werr (aw_out s') = None" "aprocs (aw_client s') v \<noteq> None" for v
  proof -
    from that(1) s' end_until_result [OF ew] have e: "e = None" by simp
    with ew end_until_ok have "werr (write_until k (sentence_writes (cancel_sentence target t)) w) = None" by blast
    from write_until_ok [OF this] w have "werr (aw_out s) = None"
      by (auto simp: begin_sentence_def split: if_splits)
    with ok that(2) s' a'(3) have "v \<in> fst ` set (aw_sent s) \<union> set (acancels (aw_client s))" by auto
    with e r s' a'(3) show ?thesis by auto
  qed
  ultimately show ?thesis
    using ok s' a'(3) unfolding sent_ok_def by auto
qed

lemma sent_ok_step:
  assumes "sent_ok s" "wstep e s = Some s'"
  shows "sent_ok s'"
proof (cases e)
  case (WRunBegin ws k)
  with assms(2) have b: "wire_begin (run_begin (aw_client s)) ws k s = Some s'" by simp
  then have n: "awriter (aw_client s) = None"
    by (auto simp: wire_begin_def run_begin_def split: option.splits if_splits)
  have a: "aw_client s' = (aw_client s)\<lparr>anext := Suc (anext (aw_client s)), awriter := Some (HRun (tag_of CHR ''r'' (Suc (anext (aw_client s)))))\<rparr>"
    using wire_begin_client [OF b, symmetric] by (auto simp: run_begin_def split: if_splits)
  from b have "wire_begin (Some (aw_client s')) ws k s = Some s'" using wire_begin_client [OF b] by simp
  with a show ?thesis
    by (intro sent_ok_begin [OF assms(1) n, where c = "CHR ''r''" and a = "aw_client s'"]) simp_all
next
  case (WListenBegin ws k n c)
  with assms(2) have b: "wire_begin (listen_begin n c (aw_client s)) ws k s = Some s'" by simp
  then have m: "awriter (aw_client s) = None"
    by (auto simp: wire_begin_def listen_begin_def split: option.splits if_splits)
  have a: "aw_client s' = (aw_client s)\<lparr>anext := Suc (anext (aw_client s)), awriter := Some (HListen (tag_of CHR ''l'' (Suc (anext (aw_client s)))) n (if c then Some False else None))\<rparr>"
    using wire_begin_client [OF b, symmetric] by (auto simp: listen_begin_def split: if_splits)
  from b have "wire_begin (Some (aw_client s')) ws k s = Some s'" using wire_begin_client [OF b] by simp
  with a show ?thesis
    by (intro sent_ok_begin [OF assms(1) m, where c = "CHR ''l''" and a = "aw_client s'"]) simp_all
next
  case (WRunCommit k)
  then obtain t where h: "awriter (aw_client s) = Some (HRun t)"
    using assms(2) by (auto simp: wire_run_commit_def split: option.splits holder.splits)
  show ?thesis
  proof (cases "atags (aw_client s) = None")
    case True
    with WRunCommit h assms(2) show ?thesis
      by (auto simp: wire_run_commit_def run_commit_def intro!: sent_ok_same [OF assms(1)])
  next
    case False
    obtain e w' where ew: "end_until k (aw_out s) = (e, w')" by force
    with WRunCommit h assms(2) False obtain a where a: "run_commit e (aw_client s) = Some a"
      "s' = wire_ended t (e, w') a s"
      by (auto simp: wire_run_commit_def Let_def split: if_splits)
    with h False have "awriter a = None \<and> anext a = anext (aw_client s) \<and> acancels a = acancels (aw_client s)
        \<and> (\<forall>u. aprocs a u \<noteq> None \<longrightarrow> u = t \<or> aprocs (aw_client s) u \<noteq> None)"
      by (auto simp: run_commit_def register_def split: if_splits)
    with sent_ok_end [OF assms(1) _ ew, of t a] h a(2) show ?thesis by simp
  qed
next
  case (WListenCommit k)
  then obtain t n st where h: "awriter (aw_client s) = Some (HListen t n st)"
    using assms(2) by (auto simp: wire_listen_commit_def split: option.splits holder.splits)
  obtain e w' where ew: "end_until k (aw_out s) = (e, w')" by force
  with WListenCommit assms(2) h obtain a where a: "listen_commit e (aw_client s) = Some a"
    "s' = wire_ended t (e, w') a s"
    by (auto simp: wire_listen_commit_def Let_def split: if_splits)
  with h have "awriter a = None \<and> anext a = anext (aw_client s) \<and> acancels a = acancels (aw_client s)
      \<and> (\<forall>u. aprocs a u \<noteq> None \<longrightarrow> u = t \<or> aprocs (aw_client s) u \<noteq> None)"
    by (auto simp: listen_commit_def register_def split: if_splits)
  with sent_ok_end [OF assms(1) _ ew, of t a] h a(2) show ?thesis by simp
next
  case (WCancelTag target)
  with assms show ?thesis by (auto intro: sent_ok_cancel_tag)
next
  case (WCancelWrite t k)
  with assms show ?thesis by (auto intro: sent_ok_cancel_write)
next
  case WRead
  with assms(2) show ?thesis
    by (auto simp: wire_read_def loop_read_def split: prod.splits if_splits intro!: sent_ok_same [OF assms(1)])
next
  case (WReadCut n)
  with assms(2) show ?thesis
    by (auto simp: wire_read_cut_def loop_read_def split: prod.splits sum.splits if_splits
        intro!: sent_ok_same [OF assms(1)])
next
  case WLookup
  with assms(2) show ?thesis
    by (auto simp: wire_lookup_def loop_lookup_def split: loop_pc.splits intro!: sent_ok_same [OF assms(1)])
next
  case (WLocal ev)
  with assms(2) obtain a where a: "local_event ev" "astep ev (aw_client s) = Some a" "s' = s\<lparr>aw_client := a\<rparr>"
    by (auto split: if_splits)
  from local_writer [OF a(1,2)] a(3) show ?thesis by (intro sent_ok_same [OF assms(1)]) simp_all
qed

lemma wreaches_sent_ok: "wreaches w0 src s \<Longrightarrow> sent_ok s"
proof (induction rule: wreaches.induct)
  case wreaches_init
  show ?case by (simp add: sent_ok_def tags_used_def wire_init_def async_init_def)
qed (blast intro: sent_ok_step)

subsection \<open>What is delivered\<close>

lemma yields_partial: "yields s sens s' \<Longrightarrow> \<forall>sen \<in> set sens. partial_sentence sen"
  by (induction sens arbitrary: s) (auto split: prod.splits sum.splits dest: partial_read_sentence)

lemma typed_replay: "\<forall>sen \<in> set sens. partial_sentence sen \<Longrightarrow> typed_reply (replay sens)"
proof (induction sens rule: rev_induct)
  case Nil
  then show ?case using typed_empty by (simp add: replay_def)
next
  case (snoc sen sens)
  then have "typed_reply (replay sens)" "partial_sentence sen" by simp_all
  then show ?case
    using typed_process_reply [of sen "replay sens"] by (simp add: replay_snoc prod_eq_iff)
qed

definition mine :: "awire \<Rightarrow> string \<Rightarrow> sentence list" where
  "mine s t = since_tag s t (the (aw_since s t))"

lemma conversation_mine:
  assumes "wreaches w0 src s" "aprocs (aw_client s) t \<noteq> None"
  shows "prefix (conversation t (aw_client s)) (mine s t)"
    and "registered (aw_client s) t \<Longrightarrow> \<forall>sen. apc (aw_client s) \<noteq> LProc sen \<Longrightarrow> conversation t (aw_client s) = mine s t"
proof -
  have "tag_ok s t" using wreaches_tags_ok [OF assms(1)] assms(2) by (simp add: tags_ok_def)
  then obtain n where n: "aw_since s t = Some n"
    "if registered (aw_client s) t then since_tag s t n = conversation t (aw_client s) @ in_hand (apc (aw_client s)) t
     else prefix (conversation t (aw_client s)) (since_tag s t n)" by (auto simp: tag_ok_def)
  then show "prefix (conversation t (aw_client s)) (mine s t)"
    by (cases "registered (aw_client s) t") (simp_all add: mine_def)
  show "conversation t (aw_client s) = mine s t"
    if "registered (aw_client s) t" "\<forall>sen. apc (aw_client s) \<noteq> LProc sen"
    using n that by (cases "apc (aw_client s)") (simp_all add: mine_def)
qed

lemma delivered_rows:
  assumes "wreaches w0 src s" "aprocs (aw_client s) t = Some p"
  shows "delivered p = rows_of (conversation t (aw_client s))"
proof -
  have "rows_for_tag t (ahandled (aw_client s)) = delivered p"
    using wreaches_ainv [OF assms(1)] assms(2) unfolding ainv_def inv_closed_def by blast
  then show ?thesis by (simp add: rows_for_tag_def rows_of_def conversation_def conj_commute flip: filter_filter)
qed

lemma conversation_partial:
  assumes "wreaches w0 src s" "aprocs (aw_client s) t \<noteq> None"
  shows "\<forall>sen \<in> set (conversation t (aw_client s)). partial_sentence sen \<and> sen_tag sen = t"
proof -
  obtain rest where y: "yields src (aw_seen s) rest" using wreaches_seen [OF assms(1)] by blast
  have "set (conversation t (aw_client s)) \<subseteq> set (aw_seen s)"
    using set_mono_prefix [OF conversation_mine(1) [OF assms]]
    by (auto simp: mine_def since_tag_def dest: in_set_dropD)
  with yields_partial [OF y] show ?thesis by (auto simp: conversation_def)
qed

lemma call_typed:
  assumes "wreaches w0 src s" "aprocs (aw_client s) t = Some p"
  shows "(\<forall>sen \<in> set (delivered p). sen_word sen = ''!re'' \<and> sen_tag sen = t \<and> wf_sentence sen)
    \<and> (pkind p = KRun \<longrightarrow> typed_reply (preply p))
    \<and> (pclosed p \<and> perr p = None \<and> \<not> aclosing (aw_client s) \<longrightarrow> done_sen (preply p) \<noteq> None)"
proof -
  have "aprocs (aw_client s) t \<noteq> None" using assms(2) by simp
  note conv = conversation_partial [OF assms(1) this]
  have "sen_word sen = ''!re'' \<and> sen_tag sen = t \<and> wf_sentence sen" if "sen \<in> set (delivered p)" for sen
    using that conv partial_named [of sen] by (auto simp: delivered_rows [OF assms] rows_of_def)
  moreover have "preply p = replay (conversation t (aw_client s))" if "pkind p = KRun"
    using areach_talk [OF wreaches_client [OF assms(1)] assms(2) that] by (simp add: talk_def)
  then have "pkind p = KRun \<longrightarrow> typed_reply (preply p)" using conv typed_replay by simp
  moreover have "pclosed p \<longrightarrow> finished p \<or> aclosing (aw_client s)"
    using wreaches_ainv [OF assms(1)] assms(2) by (simp add: ainv_def inv_closed_def)
  ultimately show ?thesis by (auto simp: finished_def)
qed

subsection \<open>Properties\<close>

definition sample_wire :: awire where
  "sample_wire = wire_init (new_writer \<lparr>sent = [], room = None, cerr = IoEOF\<rparr>)
     \<lparr>pending = sentence_bytes [''!re'', ''.tag=r1'', ''=a=1''] @ sentence_bytes [''!done'', ''.tag=r1''], fin = IoEOF\<rparr>"

definition sample_events :: "wevent list" where
  "sample_events = [WLocal EvAsync, WRunBegin [''/x''] 9, WRunCommit 9, WRead, WLookup, WLocal (EvProcess False),
     WRead, WLookup, WLocal (EvProcess False), WLocal EvDelete, WLocal EvCloseReply]"

lemma sample_wire_reaches:
  "wreaches (new_writer \<lparr>sent = [], room = None, cerr = IoEOF\<rparr>) (aw_in sample_wire) sample_wire"
  using wreaches.wreaches_init [of "new_writer \<lparr>sent = [], room = None, cerr = IoEOF\<rparr>" "aw_in sample_wire"]
  by (simp add: sample_wire_def wire_init_def new_writer_def)

lemma sample_wire_reach:
  assumes "case wrun sample_events sample_wire of None \<Rightarrow> False | Some s \<Rightarrow> P s"
  obtains s where "wreaches (new_writer \<lparr>sent = [], room = None, cerr = IoEOF\<rparr>) (aw_in sample_wire) s"
    "wrun sample_events sample_wire = Some s" "P s"
proof -
  obtain s where s: "wrun sample_events sample_wire = Some s" "P s" using assms by (auto split: option.splits)
  from wreaches_wrun [OF sample_wire_reaches s(1)] s that show thesis by blast
qed



text \<open>C7: What a caller or a listener is given is on the connection: the bytes read decode to the sentences the
loop has looked up, those with the caller's tag since it registered are its conversation, all of them and in order
while it is registered, and its rows are the data sentences of the conversation.\<close>

theorem async_replies_from_wire:
  assumes "wreaches w0 src s" "aprocs (aw_client s) t = Some p"
  shows "\<exists>rest n. yields src (aw_seen s) rest \<and> n \<le> length (aw_seen s)
    \<and> mine s t = filter (\<lambda>sen. sen_tag sen = t) (drop n (aw_seen s))
    \<and> prefix (conversation t (aw_client s)) (mine s t)
    \<and> (registered (aw_client s) t \<and> (\<forall>sen. apc (aw_client s) \<noteq> LProc sen) \<longrightarrow> conversation t (aw_client s) = mine s t)
    \<and> delivered p = rows_of (conversation t (aw_client s))"
proof -
  obtain n where "aw_since s t = Some n" "n \<le> length (aw_seen s)"
    using wreaches_tags_ok [OF assms(1)] assms(2) by (auto simp: tags_ok_def tag_ok_def)
  then have "mine s t = filter (\<lambda>sen. sen_tag sen = t) (drop n (aw_seen s)) \<and> n \<le> length (aw_seen s)"
    by (simp add: mine_def since_tag_def)
  moreover obtain rest where "yields src (aw_seen s) rest" using wreaches_seen [OF assms(1)] by blast
  moreover have "aprocs (aw_client s) t \<noteq> None" using assms(2) by simp
  ultimately show ?thesis
    using conversation_mine [OF assms(1), of t] delivered_rows [OF assms] by blast
qed

lemma async_replies_from_wire_witness:
  "\<exists>s p rest. wrun sample_events sample_wire = Some s \<and> aprocs (aw_client s) ''r1'' = Some p
     \<and> yields (aw_in sample_wire) (aw_seen s) rest \<and> length (delivered p) = 1"
proof -
  have "case wrun sample_events sample_wire of None \<Rightarrow> False
      | Some s \<Rightarrow> (case aprocs (aw_client s) ''r1'' of None \<Rightarrow> False | Some p \<Rightarrow> length (delivered p) = 1)"
    by code_simp
  then obtain s where s: "wreaches (new_writer \<lparr>sent = [], room = None, cerr = IoEOF\<rparr>) (aw_in sample_wire) s"
    "wrun sample_events sample_wire = Some s"
    "case aprocs (aw_client s) ''r1'' of None \<Rightarrow> False | Some p \<Rightarrow> length (delivered p) = 1"
    by (rule sample_wire_reach)
  then obtain p where p: "aprocs (aw_client s) ''r1'' = Some p" "length (delivered p) = 1"
    by (auto split: option.splits)
  from async_replies_from_wire [OF s(1) p(1)] s(2) p show ?thesis by blast
qed

text \<open>C25: Asynchronous replies are typed whatever the device sends: rows are well formed \<open>!re\<close> sentences with the
caller's tag, the reply of a call is typed, and a call or a listener that is closed without an error while the
client is open has its \<open>Done\<close> sentence.\<close>

theorem async_replies_typed:
  assumes "wreaches w0 src s" "aprocs (aw_client s) t = Some p"
  shows "(\<forall>sen \<in> set (delivered p). sen_word sen = ''!re'' \<and> sen_tag sen = t \<and> wf_sentence sen)
    \<and> (pkind p = KRun \<longrightarrow> typed_reply (preply p))
    \<and> (pclosed p \<and> perr p = None \<and> \<not> aclosing (aw_client s) \<longrightarrow> done_sen (preply p) \<noteq> None)"
  using call_typed [OF assms] .

lemma async_replies_typed_witness:
  "\<exists>s p. wrun sample_events sample_wire = Some s \<and> aprocs (aw_client s) ''r1'' = Some p
     \<and> typed_reply (preply p) \<and> done_sen (preply p) \<noteq> None \<and> length (re_sens (preply p)) = 1"
proof -
  have "case wrun sample_events sample_wire of None \<Rightarrow> False
      | Some s \<Rightarrow> (case aprocs (aw_client s) ''r1'' of None \<Rightarrow> False
         | Some p \<Rightarrow> pkind p = KRun \<and> pclosed p \<and> perr p = None \<and> \<not> aclosing (aw_client s) \<and> length (re_sens (preply p)) = 1)"
    by code_simp
  then obtain s where s: "wreaches (new_writer \<lparr>sent = [], room = None, cerr = IoEOF\<rparr>) (aw_in sample_wire) s"
    "wrun sample_events sample_wire = Some s"
    "case aprocs (aw_client s) ''r1'' of None \<Rightarrow> False
       | Some p \<Rightarrow> pkind p = KRun \<and> pclosed p \<and> perr p = None \<and> \<not> aclosing (aw_client s) \<and> length (re_sens (preply p)) = 1"
    by (rule sample_wire_reach)
  then obtain p where "aprocs (aw_client s) ''r1'' = Some p"
    "pkind p = KRun \<and> pclosed p \<and> perr p = None \<and> \<not> aclosing (aw_client s) \<and> length (re_sens (preply p)) = 1"
    by (auto split: option.splits)
  with async_replies_typed [OF s(1) this(1)] s(2) show ?thesis by blast
qed

end
