(* ===== verification/Async_Drive.thy ===== *)
theory Async_Drive
  imports Async_Sent
begin

text \<open>
  The loop of \<open>async.go\<close> run to its end: a goroutine that takes its next step whenever it can, and readers
  that take a sentence when their listener's buffer is full.  It ends on every connection; a call on a
  client that nobody else uses is a program of its own.
\<close>

subsection \<open>Turns of the loop\<close>

definition serve :: "astate \<Rightarrow> sentence \<Rightarrow> aevent option" where
  "serve a sen =
     (case aprocs a (sen_tag sen) of
        None \<Rightarrow> None
      | Some p \<Rightarrow>
          Some (case pkind p of
             KRun \<Rightarrow> EvProcess False
           | KListen cap \<Rightarrow>
               if sen_word sen = ''!re'' \<and> \<not> length (pqueue p) < cap
               then (if pqueue p = [] then EvProcess True else EvReceive (sen_tag sen))
               else EvProcess False))"

definition next_event :: "astate \<Rightarrow> wevent option" where
  "next_event a =
     (case apc a of
        LRead \<Rightarrow> Some WRead
      | LGot sen \<Rightarrow> Some WLookup
      | LProc sen \<Rightarrow> map_option WLocal (serve a sen)
      | LDel t e \<Rightarrow> Some (WLocal EvDelete)
      | LClose t e \<Rightarrow> Some (WLocal EvCloseReply)
      | LFail e \<Rightarrow> Some (WLocal EvCloseTags)
      | _ \<Rightarrow> None)"

definition turn :: "awire \<Rightarrow> awire option" where
  "turn s =
     (if apanic (aw_client s) then None
      else case next_event (aw_client s) of None \<Rightarrow> None | Some e \<Rightarrow> wstep e s)"

text \<open>
  Bytes are consumed, a read that fails is the last one, and between two reads the loop goes through its
  states in order; a full buffer gets shorter.
\<close>

definition bytes_left :: "awire \<Rightarrow> nat" where
  "bytes_left s =
     (if apanic (aw_client s) then 0
      else case apc (aw_client s) of LNone \<Rightarrow> 0 | LEnded e \<Rightarrow> 0 | LFail e \<Rightarrow> 1 | _ \<Rightarrow> 2 + length (pending (aw_in s)))"

definition pc_rank :: "loop_pc \<Rightarrow> nat" where
  "pc_rank pc =
     (case pc of LGot sen \<Rightarrow> 4 | LProc sen \<Rightarrow> 3 | LDel t e \<Rightarrow> 2 | LClose t e \<Rightarrow> 1 | _ \<Rightarrow> 0)"

definition buffered :: "awire \<Rightarrow> nat" where
  "buffered s =
     (case apc (aw_client s) of
        LProc sen \<Rightarrow> (case aprocs (aw_client s) (sen_tag sen) of None \<Rightarrow> 0 | Some p \<Rightarrow> length (pqueue p))
      | _ \<Rightarrow> 0)"

definition turn_order :: "(awire \<times> awire) set" where
  "turn_order = measures [bytes_left, \<lambda>s. pc_rank (apc (aw_client s)), buffered]"

lemma wf_turn_order: "wf turn_order"
  by (simp add: turn_order_def)

lemma turn_decreases:
  assumes "turn s = Some s'"
  shows "(s', s) \<in> turn_order"
proof -
  have live: "\<not> apanic (aw_client s)" using assms by (auto simp: turn_def split: if_splits)
  obtain ev where ev: "next_event (aw_client s) = Some ev" "wstep ev s = Some s'"
    using assms by (auto simp: turn_def split: if_splits option.splits)
  show ?thesis
  proof (cases "apc (aw_client s)")
    case LRead
    obtain r st where rd: "read_sentence (aw_in s) = (r, st)" by force
    with LRead ev have s': "s' = s\<lparr>aw_client := (aw_client s)\<lparr>apc := (case r of Inl e \<Rightarrow> LFail e | Inr sen \<Rightarrow> LGot sen)\<rparr>, aw_in := st\<rparr>"
      by (auto simp: next_event_def wire_read_def loop_read_def)
    show ?thesis
    proof (cases r)
      case (Inl e)
      with s' live LRead show ?thesis by (simp add: turn_order_def bytes_left_def)
    next
      case (Inr sen)
      with rd read_sentence_consumes have "length (pending st) < length (pending (aw_in s))" by blast
      with Inr s' live LRead show ?thesis by (simp add: turn_order_def bytes_left_def)
    qed
  next
    case (LGot sen)
    with ev live show ?thesis
      by (cases "registered (aw_client s) (sen_tag sen)")
        (auto simp: next_event_def wire_lookup_def loop_lookup_def turn_order_def bytes_left_def pc_rank_def)
  next
    case (LProc sen)
    with ev obtain e where e: "serve (aw_client s) sen = Some e" "ev = WLocal e"
      by (auto simp: next_event_def)
    with ev(2) obtain a where a: "astep e (aw_client s) = Some a" "s' = s\<lparr>aw_client := a\<rparr>"
      by (auto split: if_splits)
    show ?thesis
    proof (cases "e = EvReceive (sen_tag sen)")
      case True
      with a LProc live show ?thesis
        by (auto simp: receive_def set_proc_def turn_order_def bytes_left_def pc_rank_def buffered_def
            split: option.splits list.splits)
    next
      case False
      with e(1) obtain h where "loop_process h (aw_client s) = Some a"
        using a(1) by (auto simp: serve_def split: option.splits akind.splits if_splits)
      then have "apanic a \<and> \<not> apanic (aw_client s) \<or> apanic a = apanic (aw_client s)
          \<and> (apc a = LRead \<or> (\<exists>t e. apc a = LDel t e))"
        using live LProc
        by (auto simp: loop_process_def after_process_def Let_def
            split: option.splits akind.splits if_splits prod.splits)
      with a(2) LProc live show ?thesis by (auto simp: turn_order_def bytes_left_def pc_rank_def)
    qed
  next
    case (LDel t e)
    with ev live show ?thesis
      by (auto simp: next_event_def loop_delete_def turn_order_def bytes_left_def pc_rank_def)
  next
    case (LClose t e)
    with ev live show ?thesis
      by (auto simp: next_event_def loop_close_def turn_order_def bytes_left_def pc_rank_def split: option.splits)
  next
    case (LFail e)
    with ev live show ?thesis
      by (auto simp: next_event_def loop_close_tags_def turn_order_def bytes_left_def pc_rank_def)
  qed (use ev in \<open>simp_all add: next_event_def\<close>)
qed

text \<open>The loop runs until somebody who waits for it has what he waits for, or until it has no more to do.\<close>

function drive :: "(awire \<Rightarrow> bool) \<Rightarrow> awire \<Rightarrow> awire" where
  "drive stop s = (if stop s then s else case turn s of None \<Rightarrow> s | Some s' \<Rightarrow> drive stop s')"
  by pat_completeness auto
termination
  by (relation "inv_image turn_order snd") (auto simp: wf_turn_order intro: turn_decreases)

declare drive.simps [simp del]

fun turns :: "nat \<Rightarrow> awire \<Rightarrow> awire" where
  "turns 0 s = s"
| "turns (Suc n) s = (case turn s of None \<Rightarrow> s | Some s' \<Rightarrow> turns n s')"

lemma wreaches_turn: "wreaches w0 src s \<Longrightarrow> turn s = Some s' \<Longrightarrow> wreaches w0 src s'"
  by (auto simp: turn_def split: if_splits option.splits intro: wreaches.wreaches_next)

lemma wreaches_drive: "wreaches w0 src s \<Longrightarrow> wreaches w0 src (drive stop s)"
proof (induction stop s rule: drive.induct)
  case (1 stop s)
  show ?case
    by (subst drive.simps) (auto split: option.splits intro: "1.IH" wreaches_turn [OF "1.prems"] "1.prems")
qed

lemma wreaches_turns: "wreaches w0 src s \<Longrightarrow> wreaches w0 src (turns n s)"
  by (induction n arbitrary: s) (auto split: option.splits intro: wreaches_turn)

lemma drive_stops: "stop (drive stop s) \<or> turn (drive stop s) = None"
proof (induction stop s rule: drive.induct)
  case (1 stop s)
  show ?case
  proof (cases "stop s \<or> turn s = None")
    case True
    then have "drive stop s = s" by (subst drive.simps) auto
    with True show ?thesis by simp
  next
    case False
    then obtain s' where s': "\<not> stop s" "turn s = Some s'" by auto
    then have "drive stop s = drive stop s'" by (subst drive.simps) simp
    with "1.IH" [OF s'] show ?thesis by simp
  qed
qed

text \<open>A loop that has started has a turn until it ends.\<close>

lemma turn_enabled:
  assumes "wreaches w0 src s" "aasync (aw_client s)" "turn s = None"
  shows "\<exists>e. apc (aw_client s) = LEnded e"
proof -
  have inv: "ainv (aw_client s)" using assms(1) by (rule wreaches_ainv)
  then have live: "\<not> apanic (aw_client s)" by (simp add: ainv_def)
  show ?thesis
  proof (cases "apc (aw_client s)")
    case LNone
    with assms(2) inv show ?thesis by (simp add: ainv_def inv_loop_def)
  next
    case LRead
    with assms(3) live show ?thesis
      by (auto simp: turn_def next_event_def wire_read_def loop_read_def split: prod.splits)
  next
    case (LGot sen)
    with assms(3) live show ?thesis by (simp add: turn_def next_event_def wire_lookup_def loop_lookup_def)
  next
    case (LProc sen)
    with inv obtain p where p: "aprocs (aw_client s) (sen_tag sen) = Some p"
      by (auto simp: ainv_def inv_pc_def inv_open_def)
    show ?thesis
    proof (cases "\<exists>cap. pkind p = KListen cap \<and> sen_word sen = ''!re'' \<and> \<not> length (pqueue p) < cap")
      case True
      with assms(3) live LProc p show ?thesis
        by (cases "pqueue p")
          (auto simp: turn_def next_event_def serve_def receive_def loop_process_def deliver_def Let_def split: if_splits)
    next
      case False
      then have "serve (aw_client s) sen = Some (EvProcess False)"
        using p by (auto simp: serve_def split: akind.split)
      moreover have "loop_process False (aw_client s) \<noteq> None"
        using process_enabled [OF inv LProc] False p LProc by auto
      ultimately show ?thesis using assms(3) live LProc by (auto simp: turn_def next_event_def)
    qed
  next
    case (LDel t e)
    with assms(3) live show ?thesis by (simp add: turn_def next_event_def loop_delete_def)
  next
    case (LClose t e)
    with assms(3) live close_enabled [OF inv LClose] show ?thesis by (auto simp: turn_def next_event_def)
  next
    case (LFail e)
    with assms(3) live show ?thesis by (simp add: turn_def next_event_def loop_close_tags_def)
  next
    case (LEnded e)
    then show ?thesis by simp
  qed
qed

text \<open>A turn leaves the callers' side alone.\<close>

definition loop_event :: "aevent \<Rightarrow> bool" where
  "loop_event e \<longleftrightarrow> e \<in> {EvDelete, EvCloseReply, EvCloseTags} \<or> (\<exists>h. e = EvProcess h) \<or> (\<exists>t. e = EvReceive t)"

lemma turn_cases:
  assumes "turn s = Some s'"
  obtains "wire_read s = Some s'" | "wire_lookup s = Some s'"
  | e a where "loop_event e" "astep e (aw_client s) = Some a" "s' = s\<lparr>aw_client := a\<rparr>"
proof -
  obtain ev where ev: "next_event (aw_client s) = Some ev" "wstep ev s = Some s'"
    using assms by (auto simp: turn_def split: if_splits option.splits)
  from ev(1) consider "ev = WRead" | "ev = WLookup" | e where "ev = WLocal e" "loop_event e"
    by (auto simp: next_event_def serve_def loop_event_def split: loop_pc.splits option.splits akind.splits if_splits)
  then show thesis
  proof cases
    case 3
    with ev(2) that(3) show thesis by (auto split: if_splits)
  qed (use ev(2) that(1,2) in auto)
qed

lemma loop_event_keeps:
  assumes "loop_event e" "astep e a = Some a'"
  shows "awriter a' = awriter a \<and> aasync a' = aasync a \<and> aclosing a' = aclosing a
    \<and> map_option pkind (aprocs a' t) = map_option pkind (aprocs a t)"
proof -
  have "pkind p' = pkind p" if "close_proc x p = Some p'" for x p p'
    using that by (auto simp: close_proc_def split: if_splits)
  then have close: "pkind (case close_proc x p of None \<Rightarrow> p | Some p' \<Rightarrow> p') = pkind p" for x p
    by (simp split: option.split)
  from assms(1) consider (del) "e = EvDelete" | (cl) "e = EvCloseReply" | (tags) "e = EvCloseTags"
    | (pr) h where "e = EvProcess h" | (rec) u where "e = EvReceive u"
    by (auto simp: loop_event_def)
  then show ?thesis
  proof cases
    case del
    with assms(2) show ?thesis by (auto simp: loop_delete_def split: loop_pc.splits)
  next
    case cl
    with assms(2) show ?thesis
      by (auto simp: loop_close_def close_proc_def set_proc_def split: loop_pc.splits option.splits if_splits)
  next
    case tags
    with assms(2) close show ?thesis
      by (auto simp: loop_close_tags_def option.map_comp comp_def split: loop_pc.splits)
  next
    case pr
    with assms(2) show ?thesis
      by (auto simp: loop_process_def set_proc_def run_process_eq deliver_kind listen_process_kind Let_def
          split: option.splits loop_pc.splits akind.splits prod.splits if_splits)
  next
    case rec
    with assms(2) show ?thesis by (auto simp: receive_def set_proc_def split: option.splits list.splits)
  qed
qed

lemma turn_keeps:
  assumes "turn s = Some s'"
  shows "awriter (aw_client s') = awriter (aw_client s) \<and> aasync (aw_client s') = aasync (aw_client s)
    \<and> aclosing (aw_client s') = aclosing (aw_client s) \<and> aw_out s' = aw_out s
    \<and> aw_sent s' = aw_sent s \<and> aw_open s' = aw_open s \<and> aw_cancels s' = aw_cancels s
    \<and> map_option pkind (aprocs (aw_client s') t) = map_option pkind (aprocs (aw_client s) t)"
  using assms
proof (rule turn_cases)
  assume "wire_read s = Some s'"
  then show ?thesis by (auto simp: wire_read_def loop_read_def split: prod.splits if_splits)
next
  assume "wire_lookup s = Some s'"
  then show ?thesis by (auto simp: wire_lookup_def loop_lookup_def split: loop_pc.splits)
next
  fix e a
  assume "loop_event e" "astep e (aw_client s) = Some a" "s' = s\<lparr>aw_client := a\<rparr>"
  with loop_event_keeps [of e "aw_client s" a t] show ?thesis by simp
qed

lemma turns_keeps:
  "awriter (aw_client (turns n s)) = awriter (aw_client s) \<and> aasync (aw_client (turns n s)) = aasync (aw_client s)
    \<and> aclosing (aw_client (turns n s)) = aclosing (aw_client s) \<and> aw_out (turns n s) = aw_out s
    \<and> aw_sent (turns n s) = aw_sent s \<and> aw_open (turns n s) = aw_open s \<and> aw_cancels (turns n s) = aw_cancels s
    \<and> map_option pkind (aprocs (aw_client (turns n s)) t) = map_option pkind (aprocs (aw_client s) t)"
  by (induction n arbitrary: s) (auto split: option.split dest: turn_keeps)

lemma drive_keeps:
  "aasync (aw_client (drive stop s)) = aasync (aw_client s) \<and> aclosing (aw_client (drive stop s)) = aclosing (aw_client s)
    \<and> awriter (aw_client (drive stop s)) = awriter (aw_client s) \<and> aw_out (drive stop s) = aw_out s
    \<and> aw_sent (drive stop s) = aw_sent s
    \<and> map_option pkind (aprocs (aw_client (drive stop s)) t) = map_option pkind (aprocs (aw_client s) t)"
proof (induction stop s rule: drive.induct)
  case (1 stop s)
  show ?case
  proof (cases "stop s \<or> turn s = None")
    case True
    then have "drive stop s = s" by (subst drive.simps) auto
    then show ?thesis by simp
  next
    case False
    then obtain s' where s': "\<not> stop s" "turn s = Some s'" by auto
    then have "drive stop s = drive stop s'" by (subst drive.simps) simp
    with "1.IH" [OF s'] turn_keeps [OF s'(2), of t] show ?thesis by simp
  qed
qed

lemma drive_ends:
  assumes "wreaches w0 src s" "aasync (aw_client s)"
  shows "stop (drive stop s) \<or> (\<exists>e. apc (aw_client (drive stop s)) = LEnded e)"
  using drive_stops [of stop s] turn_enabled [OF wreaches_drive [OF assms(1)]] drive_keeps assms(2) by blast

subsection \<open>A call on its own\<close>

text \<open>
  \<open>RunArgs\<close> in asynchronous mode on a client that nobody else uses: the loop takes \<open>i\<close> turns before the
  call has the writer, \<open>j\<close> turns before it ends its sentence, and runs while the call waits for its
  channel; \<open>ctx\<close> is the error of its context, when that has been done.
\<close>

definition closed_reply :: "string \<Rightarrow> awire \<Rightarrow> bool" where
  "closed_reply t s = (case aprocs (aw_client s) t of None \<Rightarrow> False | Some p \<Rightarrow> pclosed p)"

definition whole :: "string list \<Rightarrow> nat" where
  "whole ws = length (sentence_writes (tagged ws [])) + 2"

definition await_reply :: "ctx_error \<Rightarrow> string \<Rightarrow> awire \<Rightarrow> run_outcome \<times> awire" where
  "await_reply ctx t s =
     (let s' = drive (closed_reply t) s in
      case aprocs (aw_client s') t of
        Some p \<Rightarrow> if pclosed p then (Returns (run_result ctx p), s') else (Blocks, s')
      | None \<Rightarrow> (Blocks, s'))"

text \<open>Up to the wait for the channel: the call has ended (\<open>Inl\<close>) or waits for the answer to its tag.\<close>

definition async_request ::
  "nat \<Rightarrow> nat \<Rightarrow> string list \<Rightarrow> awire \<Rightarrow> (run_outcome + string) \<times> awire" where
  "async_request i j ws s =
     (let s0 = turns i s in
      case wstep (WRunBegin ws (whole ws)) s0 of
        None \<Rightarrow> (Inl Blocks, s0)
      | Some s1 \<Rightarrow>
          (let s2 = turns j s1; t = the (holder_tag (awriter (aw_client s1))) in
           case wstep (WRunCommit 2) s2 of
             None \<Rightarrow> (Inl Blocks, s2)
           | Some s3 \<Rightarrow>
               if atags (aw_client s2) = None then (Inl (Returns (None, Some ErrAsyncLoopEnded)), s3)
               else (case werr (aw_out s3) of
                       Some e \<Rightarrow> (Inl (Returns (None, Some e)), s3)
                     | None \<Rightarrow> (Inr t, s3))))"

definition async_call :: "nat \<Rightarrow> nat \<Rightarrow> string list \<Rightarrow> awire \<Rightarrow> run_outcome \<times> awire" where
  "async_call i j ws s =
     (case async_request i j ws s of
        (Inl out, s') \<Rightarrow> (out, s')
      | (Inr t, s') \<Rightarrow> await_reply None t s')"

lemma whole_tagged: "length (sentence_writes (tagged ws t)) = length (sentence_writes (tagged ws []))"
  by (simp add: tagged_def sentence_writes_def word_writes_def)

lemma await_returns:
  assumes "wreaches w0 src s" "aasync (aw_client s)" "aprocs (aw_client s) t = Some p" "pkind p = KRun"
  shows "\<exists>q s'. await_reply ctx t s = (Returns (run_result ctx q), s') \<and> wreaches w0 src s'
    \<and> aw_out s' = aw_out s \<and> aw_sent s' = aw_sent s
    \<and> aclosing (aw_client s') = aclosing (aw_client s)
    \<and> aprocs (aw_client s') t = Some q \<and> pkind q = KRun \<and> pclosed q"
proof -
  let ?s = "drive (closed_reply t) s"
  note keeps = drive_keeps [of "closed_reply t" s t]
  from keeps assms(3,4) obtain q where q: "aprocs (aw_client ?s) t = Some q" "pkind q = KRun" by auto
  have r: "wreaches w0 src ?s" using assms(1) by (rule wreaches_drive)
  have "pclosed q"
    using drive_ends [OF assms(1,2), of "closed_reply t"]
  proof
    assume "closed_reply t ?s"
    with q show ?thesis by (simp add: closed_reply_def)
  next
    assume "\<exists>e. apc (aw_client ?s) = LEnded e"
    with wreaches_ainv [OF r] q show ?thesis
      by (auto simp: ainv_def inv_closed_def inv_loop_def registered_def split: option.splits)
  qed
  with q r keeps show ?thesis by (auto simp: await_reply_def Let_def)
qed

lemma turns_begin:
  assumes "wreaches w0 src s" "aasync (aw_client s)" "awriter (aw_client s) = None"
  obtains s1 t where "wstep (WRunBegin ws (whole ws)) s = Some s1" "awriter (aw_client s1) = Some (HRun t)"
    "aasync (aw_client s1)" "aclosing (aw_client s1) = aclosing (aw_client s)"
    "aw_sent s1 = aw_sent s" "aw_open s1 = tagged ws t"
proof -
  let ?t = "tag_of CHR ''r'' (Suc (anext (aw_client s)))"
  have "\<not> wlocked (aw_out s)" using wreaches_out_ok [OF assms(1)] assms(3) by (simp add: out_ok_def)
  then have b: "begin_sentence (aw_out s) = Some ((aw_out s)\<lparr>wlocked := True\<rparr>)" by (simp add: begin_sentence_def)
  have m: "may_cut a (whole ws) (length (sentence_writes (tagged ws ?t)))" for a
    by (simp add: may_cut_def whole_def whole_tagged [of ws ?t])
  let ?a = "(aw_client s)\<lparr>anext := Suc (anext (aw_client s)), awriter := Some (HRun ?t)\<rparr>"
  let ?s1 = "s\<lparr>aw_client := ?a, aw_out := write_until (whole ws) (sentence_writes (tagged ws ?t)) ((aw_out s)\<lparr>wlocked := True\<rparr>),
      aw_open := tagged ws ?t\<rparr>"
  have "wstep (WRunBegin ws (whole ws)) s = Some ?s1"
    using assms(2,3) b m by (simp add: wire_begin_def run_begin_def Let_def)
  then show thesis using assms(2) by (intro that [of ?s1 ?t]) simp_all
qed

text \<open>
  Nothing was sent: the loop had ended, and the writer stays locked; or the sentence was not written, and the
  writer is free again.
\<close>

definition refused_request :: "goerr \<Rightarrow> awire \<Rightarrow> bool" where
  "refused_request e s \<longleftrightarrow>
     (if atags (aw_client s) = None then e = ErrAsyncLoopEnded \<and> awriter (aw_client s) \<noteq> None
      else werr (aw_out s) = Some e \<and> awriter (aw_client s) = None)"

lemma async_request_shape:
  assumes "wreaches w0 src s" "aasync (aw_client s)" "awriter (aw_client s) = None"
  shows "\<exists>r s'. async_request i j ws s = (r, s') \<and> wreaches w0 src s' \<and> aasync (aw_client s')
    \<and> aclosing (aw_client s') = aclosing (aw_client s)
    \<and> (case r of
         Inl out \<Rightarrow> (\<exists>e. out = Returns (None, Some e) \<and> refused_request e s') \<and> aw_sent s' = aw_sent s
       | Inr t \<Rightarrow> awriter (aw_client s') = None \<and> aprocs (aw_client s') t = Some (new_proc KRun None)
           \<and> registered (aw_client s') t \<and> aw_sent s' = aw_sent s @ [(t, tagged ws t)])"
proof -
  let ?s0 = "turns i s"
  have s0: "wreaches w0 src ?s0" "aasync (aw_client ?s0)" "awriter (aw_client ?s0) = None"
    using wreaches_turns [OF assms(1)] turns_keeps assms(2,3) by auto
  from turns_begin [OF s0, of ws] obtain s1 t where s1: "wstep (WRunBegin ws (whole ws)) ?s0 = Some s1"
    "awriter (aw_client s1) = Some (HRun t)" "aasync (aw_client s1)" "aclosing (aw_client s1) = aclosing (aw_client ?s0)"
    "aw_sent s1 = aw_sent ?s0" "aw_open s1 = tagged ws t"
    by blast
  let ?s2 = "turns j s1"
  have s2: "wreaches w0 src ?s2" "aasync (aw_client ?s2)" "awriter (aw_client ?s2) = Some (HRun t)"
    "aclosing (aw_client ?s2) = aclosing (aw_client s)" "aw_sent ?s2 = aw_sent s" "aw_open ?s2 = tagged ws t"
    using wreaches_turns [OF wreaches.wreaches_next [OF s0(1) s1(1)]] turns_keeps [of j s1] turns_keeps [of i s] s1 by auto
  show ?thesis
  proof (cases "atags (aw_client ?s2) = None")
    case True
    with s2(3) obtain s3 where s3: "wstep (WRunCommit 2) ?s2 = Some s3" "aclosing (aw_client s3) = aclosing (aw_client ?s2)"
      "aw_sent s3 = aw_sent ?s2" "aasync (aw_client s3) = aasync (aw_client ?s2)" "atags (aw_client s3) = None" "awriter (aw_client s3) \<noteq> None"
      by (auto simp: wire_run_commit_def run_commit_def)
    then have "async_request i j ws s = (Inl (Returns (None, Some ErrAsyncLoopEnded)), s3)"
      using True s1 by (simp add: async_request_def Let_def del: wstep.simps)
    with s2 s3 wreaches.wreaches_next [OF s2(1) s3(1)] show ?thesis by (auto simp: refused_request_def)
  next
    case False
    then obtain ts where ts: "atags (aw_client ?s2) = Some ts" by blast
    obtain e w' where ew: "end_until 2 (aw_out ?s2) = (e, w')" by force
    then have w': "werr w' = e" using end_until_result [of 2 0 "[]" "aw_out ?s2"] by (simp add: write_until_def)
    let ?b = "(aw_client ?s2)\<lparr>awriter := None\<rparr>"
    let ?a = "if e = None then register t (new_proc KRun None) ?b else ?b"
    let ?s3 = "wire_ended t (e, w') ?a ?s2"
    have s3: "wstep (WRunCommit 2) ?s2 = Some ?s3"
      using s2(3) ts ew by (simp add: wire_run_commit_def run_commit_def may_cut_def Let_def)
    have out: "aw_out ?s3 = w'" by (simp add: wire_ended_def)
    note r3 = wreaches.wreaches_next [OF s2(1) s3]
    show ?thesis
    proof (cases e)
      case (Some x)
      with ts s1 s3 w' out have "async_request i j ws s = (Inl (Returns (None, Some x)), ?s3)"
        by (simp add: async_request_def Let_def del: wstep.simps)
      with Some ts s2 r3 w' show ?thesis by (auto simp: wire_ended_def refused_request_def)
    next
      case None
      with ts s1 s3 w' out have "async_request i j ws s = (Inr t, ?s3)"
        by (simp add: async_request_def Let_def del: wstep.simps)
      with None ts s2 r3 show ?thesis by (auto simp: wire_ended_def register_def registered_def)
    qed
  qed
qed

lemma async_call_shape:
  assumes "wreaches w0 src s" "aasync (aw_client s)" "awriter (aw_client s) = None"
  shows "\<exists>r e s'. async_call i j ws s = (Returns (r, e), s') \<and> wreaches w0 src s'
    \<and> aclosing (aw_client s') = aclosing (aw_client s)
    \<and> (r = None \<and> (\<exists>x. e = Some x \<and> refused_request x s') \<and> aw_sent s' = aw_sent s
       \<or> (\<exists>t p. aprocs (aw_client s') t = Some p \<and> pkind p = KRun \<and> pclosed p
         \<and> r = Some (preply p) \<and> e = perr p \<and> aw_sent s' = aw_sent s @ [(t, tagged ws t)]))"
proof -
  obtain r s1 where r: "async_request i j ws s = (r, s1)" "wreaches w0 src s1" "aasync (aw_client s1)"
    "aclosing (aw_client s1) = aclosing (aw_client s)"
    "case r of Inl out \<Rightarrow> (\<exists>e. out = Returns (None, Some e) \<and> refused_request e s1) \<and> aw_sent s1 = aw_sent s
     | Inr t \<Rightarrow> awriter (aw_client s1) = None \<and> aprocs (aw_client s1) t = Some (new_proc KRun None)
         \<and> registered (aw_client s1) t \<and> aw_sent s1 = aw_sent s @ [(t, tagged ws t)]"
    using async_request_shape [OF assms, of i j ws] by blast
  show ?thesis
  proof (cases r)
    case (Inl out)
    with r show ?thesis by (auto simp: async_call_def)
  next
    case (Inr t)
    with r(5) have p: "aprocs (aw_client s1) t = Some (new_proc KRun None)" by simp
    from await_returns [OF r(2,3) this, of None] obtain q s' where
      q: "await_reply None t s1 = (Returns (run_result None q), s')" "wreaches w0 src s'"
      "aclosing (aw_client s') = aclosing (aw_client s1)" "aw_sent s' = aw_sent s1"
      "aprocs (aw_client s') t = Some q" "pkind q = KRun" "pclosed q" by (auto simp: new_proc_def)
    with r Inr have "async_call i j ws s = (Returns (Some (preply q), perr q), s')"
      by (simp add: async_call_def run_result_def)
    with q r(4,5) Inr show ?thesis by auto
  qed
qed

text \<open>What a call returns: the rows of its conversation, settled by its final sentence or by the end of the loop.\<close>

definition call_answer :: "string list \<Rightarrow> awire \<Rightarrow> awire \<Rightarrow> reply \<Rightarrow> ctx_error \<Rightarrow> bool" where
  "call_answer ws s s' rep e \<longleftrightarrow>
     (\<exists>t. aw_sent s' = aw_sent s @ [(t, tagged ws t)] \<and> rep = replay (conversation t (aw_client s'))
        \<and> (settled (conversation t (aw_client s')) e \<or> (\<exists>x. apc (aw_client s') = LEnded x)))"

lemma call_sound:
  assumes "wreaches w0 src s" "aasync (aw_client s)" "awriter (aw_client s) = None" "\<not> aclosing (aw_client s)"
  shows "\<exists>r e s'. async_call i j ws s = (Returns (r, e), s') \<and> wreaches w0 src s'
    \<and> (case r of
         None \<Rightarrow> (\<exists>x. e = Some x \<and> refused_request x s') \<and> aw_sent s' = aw_sent s
       | Some rep \<Rightarrow> call_answer ws s s' rep e \<and> typed_reply rep \<and> (e = None \<longrightarrow> done_sen rep \<noteq> None))"
proof -
  obtain r e s' where c: "async_call i j ws s = (Returns (r, e), s')" "wreaches w0 src s'"
    "aclosing (aw_client s') = aclosing (aw_client s)"
    "r = None \<and> (\<exists>x. e = Some x \<and> refused_request x s') \<and> aw_sent s' = aw_sent s
      \<or> (\<exists>t p. aprocs (aw_client s') t = Some p \<and> pkind p = KRun \<and> pclosed p
         \<and> r = Some (preply p) \<and> e = perr p \<and> aw_sent s' = aw_sent s @ [(t, tagged ws t)])"
    using async_call_shape [OF assms(1-3), of i j ws] by blast
  from c(4) show ?thesis
  proof
    assume "r = None \<and> (\<exists>x. e = Some x \<and> refused_request x s') \<and> aw_sent s' = aw_sent s"
    with c(1,2) show ?thesis by simp
  next
    assume "\<exists>t p. aprocs (aw_client s') t = Some p \<and> pkind p = KRun \<and> pclosed p
         \<and> r = Some (preply p) \<and> e = perr p \<and> aw_sent s' = aw_sent s @ [(t, tagged ws t)]"
    then obtain t p where p: "aprocs (aw_client s') t = Some p" "pkind p = KRun" "pclosed p"
      "r = Some (preply p)" "e = perr p" "aw_sent s' = aw_sent s @ [(t, tagged ws t)]" by blast
    note areach = wreaches_client [OF c(2)]
    have "preply p = replay (conversation t (aw_client s'))"
      using areach_talk [OF areach p(1,2)] by (simp add: talk_def)
    with p(5,6) closed_call_settled [OF areach p(1-3)] have "call_answer ws s s' (preply p) e"
      by (auto simp: call_answer_def)
    moreover have "typed_reply (preply p) \<and> (perr p = None \<longrightarrow> done_sen (preply p) \<noteq> None)"
      using call_typed [OF c(2) p(1)] p(2,3) c(3) assms(4) by simp
    ultimately show ?thesis using c(1,2) p(4,5) by simp
  qed
qed

subsection \<open>Properties\<close>

text \<open>C11: No call waits for ever: from every state the loop, with readers that keep reading, comes to its end on any
finite stream of bytes, and then every call and every listener has been closed, with a final sentence or an error
unless the client is being closed.\<close>

theorem loop_always_ends:
  assumes "wreaches w0 src s" "aasync (aw_client s)"
  shows "let s' = drive (\<lambda>s. False) s in
    wreaches w0 src s' \<and> (\<exists>e. apc (aw_client s') = LEnded e)
    \<and> (\<forall>t. aprocs (aw_client s) t \<noteq> None \<longrightarrow> (\<exists>p. aprocs (aw_client s') t = Some p \<and> pclosed p
         \<and> (finished p \<or> aclosing (aw_client s))))"
proof -
  let ?s = "drive (\<lambda>s. False) s"
  have r: "wreaches w0 src ?s" using assms(1) by (rule wreaches_drive)
  obtain e where e: "apc (aw_client ?s) = LEnded e" using drive_ends [OF assms, of "\<lambda>s. False"] by blast
  have "\<exists>p. aprocs (aw_client ?s) t = Some p \<and> pclosed p \<and> (finished p \<or> aclosing (aw_client s))"
    if "aprocs (aw_client s) t \<noteq> None" for t
  proof -
    note keeps = drive_keeps [of "\<lambda>s. False" s t]
    with that obtain p where p: "aprocs (aw_client ?s) t = Some p" by auto
    with wreaches_ainv [OF r] e keeps show ?thesis
      by (auto simp: ainv_def inv_closed_def inv_loop_def registered_def split: option.splits)
  qed
  with r e show ?thesis by (simp add: Let_def)
qed

lemma loop_always_ends_witness:
  "\<exists>s p. wrun (take 3 sample_events) sample_wire = Some s
     \<and> aprocs (aw_client (drive (\<lambda>s. False) s)) ''r1'' = Some p \<and> pclosed p \<and> finished p"
proof -
  have "case wrun (take 3 sample_events) sample_wire of None \<Rightarrow> False
      | Some s \<Rightarrow> aasync (aw_client s) \<and> \<not> aclosing (aw_client s)
          \<and> (case aprocs (aw_client s) ''r1'' of None \<Rightarrow> False | Some p \<Rightarrow> \<not> pclosed p)"
    by code_simp
  then obtain s where s: "wrun (take 3 sample_events) sample_wire = Some s" "aasync (aw_client s)" "\<not> aclosing (aw_client s)"
    "aprocs (aw_client s) ''r1'' \<noteq> None" by (auto split: option.splits)
  have "wreaches (new_writer \<lparr>sent = [], room = None, cerr = IoEOF\<rparr>) (aw_in sample_wire) s"
    using sample_wire_reaches s(1) by (rule wreaches_wrun)
  from loop_always_ends [OF this s(2)] s show ?thesis by (auto simp: Let_def)
qed

text \<open>C8: A lone asynchronous call returns, however far the loop has come when it begins and ends its sentence and
whatever bytes the device sends, on every connection whose stream of bytes is finite: sooner or later it gives an error, as
every stream of the model does.  (On a connection that stays open and silent \<open>run.go\<close> waits for ever.)  The readers of
open listeners keep reading and the client is not being closed.  The call returns for one of three reasons: nothing was sent,
because the loop had ended or the writer failed; its own final sentence has come; or the loop has ended meanwhile.  When its
sentence was sent it returns the typed replay of its own conversation, and it returns no error only with a \<open>!done\<close> sentence.\<close>

theorem async_call_returns:
  assumes "wreaches w0 src s" "aasync (aw_client s)" "awriter (aw_client s) = None" "\<not> aclosing (aw_client s)"
  shows "\<exists>r e s'. async_call i j ws s = (Returns (r, e), s') \<and> wreaches w0 src s'
    \<and> (case r of
         None \<Rightarrow> (\<exists>x. e = Some x \<and> refused_request x s') \<and> aw_sent s' = aw_sent s
       | Some rep \<Rightarrow> call_answer ws s s' rep e \<and> typed_reply rep \<and> (e = None \<longrightarrow> done_sen rep \<noteq> None))"
  using call_sound [OF assms] .

lemma async_call_returns_witness:
  "\<exists>s rep. wrun [WLocal EvAsync] sample_wire = Some s
     \<and> fst (async_call 0 0 [''/x''] s) = Returns (Some rep, None) \<and> typed_reply rep \<and> length (re_sens rep) = 1"
proof -
  let ?check = "\<lambda>s. aasync (aw_client s) \<and> awriter (aw_client s) = None \<and> \<not> aclosing (aw_client s)
    \<and> (case fst (async_call 0 0 [''/x''] s) of Returns (Some rep, None) \<Rightarrow> length (re_sens rep) = 1 | _ \<Rightarrow> False)"
  have "case wrun [WLocal EvAsync] sample_wire of None \<Rightarrow> False | Some s \<Rightarrow> ?check s" by code_simp
  then obtain s where s: "wrun [WLocal EvAsync] sample_wire = Some s" "?check s"
    by (cases "wrun [WLocal EvAsync] sample_wire") simp_all
  have "wreaches (new_writer \<lparr>sent = [], room = None, cerr = IoEOF\<rparr>) (aw_in sample_wire) s"
    using sample_wire_reaches s(1) by (rule wreaches_wrun)
  note returns = async_call_returns [OF this, of 0 0 "[''/x'']"]
  from s(2) obtain rep where "fst (async_call 0 0 [''/x''] s) = Returns (Some rep, None)" "length (re_sens rep) = 1"
    by (auto split: outcome.splits prod.splits option.splits)
  with returns s show ?thesis by auto
qed

end
