(* ===== verification/Client_Conn.thy ===== *)
theory Client_Conn
  imports Client_Sync
begin

text \<open>
  The life of a connection in \<open>client.go\<close>: \<open>NewClient\<close>, the \<open>Dial\<close> functions, the login they end with, and
  \<open>Close\<close>.  The network is an argument: the two dialers give a connection (what can be written to it, what
  will be read from it) with a handle, or an error; closing the handle is a function of its own.
\<close>

subsection \<open>Clients with their connection\<close>

text \<open>
  \<open>lrclosed\<close> and \<open>lwclosed\<close> are the flags of \<open>ctxReader\<close> and \<open>ctxWriter\<close>, \<open>lrwc\<close> is the handle of the
  connection.  \<open>Close\<close> runs under the client's mutex, so it is one step.
\<close>

record 'n link =
  lclient :: client
  lrclosed :: bool
  lwclosed :: bool
  lrwc :: 'n

type_synonym 'n closer = "'n \<Rightarrow> goerr option \<times> 'n"

definition new_link :: "conn \<Rightarrow> stream \<Rightarrow> 'n \<Rightarrow> 'n link" where
  "new_link c s n = \<lparr>lclient = new_client c s, lrclosed = False, lwclosed = False, lrwc = n\<rparr>"

definition client_close :: "'n closer \<Rightarrow> 'n link \<Rightarrow> goerr option \<times> 'n link" where
  "client_close close l =
     (let l1 = l\<lparr>lrclosed := True, lwclosed := True\<rparr> in
      if closing (lclient l1) then (None, l1)
      else
        (let l2 = l1\<lparr>lclient := (lclient l1)\<lparr>closing := True\<rparr>\<rparr>; (e, n) = close (lrwc l2) in
         (e, l2\<lparr>lrwc := n\<rparr>)))"

text \<open>A sentence is run on the client inside; the handle is untouched.\<close>

definition link_run :: "'n link runner" where
  "link_run ws l = (let (r, c) = run_sync ws (lclient l) in (r, l\<lparr>lclient := c\<rparr>))"

subsection \<open>Dialling\<close>

text \<open>
  The contexts the dialers see: the background context, one with a timeout, or the caller's.  The
  functions without a context use the background one.
\<close>

datatype 'x dctx = Background | WithTimeout "'x dctx" int | Caller 'x

record ('x, 't, 'n) network =
  tcp_dial :: "'x dctx \<Rightarrow> string \<Rightarrow> goerr + (conn \<times> stream \<times> 'n)"
  tls_dial :: "'t \<Rightarrow> 'x dctx \<Rightarrow> string \<Rightarrow> goerr + (conn \<times> stream \<times> 'n)"
  close_handle :: "'n closer"
  digest :: "byte list \<Rightarrow> byte list"
  quoted :: "string \<Rightarrow> string"

text \<open>\<open>%w\<close> of a nil error prints as a bad verb and wraps nothing.\<close>

definition wrap_text :: "(string \<Rightarrow> string) \<Rightarrow> goerr option \<Rightarrow> string" where
  "wrap_text q e = (case e of None \<Rightarrow> ''%!w(<nil>)'' | Some x \<Rightarrow> error_text q x)"

definition login_failed :: "(string \<Rightarrow> string) \<Rightarrow> goerr \<Rightarrow> goerr option \<Rightarrow> goerr" where
  "login_failed q err close_err =
     Wrapf (''could not login: '' @ error_text q err @ ''; close '' @ wrap_text q close_err)
       (err # (case close_err of None \<Rightarrow> [] | Some e \<Rightarrow> [e]))"

text \<open>
  \<open>newClientAndLogin\<close>.  \<open>NewClient\<close> never fails, so the branch for its error is not taken.  The result is
  the error, or no error and the client; the link is returned in both cases to say what has become of
  the connection, the caller gets it only with no error.
\<close>

definition new_client_and_login ::
  "('x, 't, 'n) network \<Rightarrow> conn \<times> stream \<times> 'n \<Rightarrow> string \<Rightarrow> string
     \<Rightarrow> goerr option outcome \<times> 'n link" where
  "new_client_and_login net rwc user password =
     (case rwc of (c, s, n) \<Rightarrow>
        (case login (digest net) link_run user password (new_link c s n) of
           (Returns None, l) \<Rightarrow> (Returns None, l)
         | (Returns (Some err), l) \<Rightarrow>
             (case client_close (close_handle net) l of
                (close_err, l') \<Rightarrow> (Returns (Some (login_failed (quoted net) err close_err)), l'))
         | (Panics m, l) \<Rightarrow> (Panics m, l)
         | (Blocks, l) \<Rightarrow> (Blocks, l)))"

definition connect_failed :: "(string \<Rightarrow> string) \<Rightarrow> goerr \<Rightarrow> goerr" where
  "connect_failed q err = Wrapf (''could not connect to router os: '' @ error_text q err) [err]"

definition dial_context ::
  "('x, 't, 'n) network \<Rightarrow> 'x dctx \<Rightarrow> string \<Rightarrow> string \<Rightarrow> string
     \<Rightarrow> goerr option outcome \<times> 'n link option" where
  "dial_context net ctx address user password =
     (case tcp_dial net ctx address of
        Inl err \<Rightarrow> (Returns (Some (connect_failed (quoted net) err)), None)
      | Inr rwc \<Rightarrow> map_prod id Some (new_client_and_login net rwc user password))"

definition dial_tls_context ::
  "('x, 't, 'n) network \<Rightarrow> 'x dctx \<Rightarrow> string \<Rightarrow> string \<Rightarrow> string \<Rightarrow> 't
     \<Rightarrow> goerr option outcome \<times> 'n link option" where
  "dial_tls_context net ctx address user password tls =
     (case tls_dial net tls ctx address of
        Inl err \<Rightarrow> (Returns (Some (connect_failed (quoted net) err)), None)
      | Inr rwc \<Rightarrow> map_prod id Some (new_client_and_login net rwc user password))"

definition client_dial where
  "client_dial net address user password = dial_context net Background address user password"

definition dial_timeout where
  "dial_timeout net address user password timeout =
     dial_context net (WithTimeout Background timeout) address user password"

definition dial_tls where
  "dial_tls net address user password tls = dial_tls_context net Background address user password tls"

definition dial_tls_timeout where
  "dial_tls_timeout net address user password tls timeout =
     dial_tls_context net (WithTimeout Background timeout) address user password tls"

subsection \<open>Lemmas\<close>

lemma client_close_first:
  assumes "\<not> closing (lclient l)"
  shows "client_close close l = (fst (close (lrwc l)),
    l\<lparr>lrclosed := True, lwclosed := True, lclient := (lclient l)\<lparr>closing := True\<rparr>, lrwc := snd (close (lrwc l))\<rparr>)"
  using assms by (simp add: client_close_def Let_def split: prod.split)

lemma client_close_again:
  "closing (lclient l) \<Longrightarrow> client_close close l = (None, l\<lparr>lrclosed := True, lwclosed := True\<rparr>)"
  by (simp add: client_close_def)

lemma run_sync_closing: "run_sync ws c = (r, c') \<Longrightarrow> closing c' = closing c"
  by (auto simp: run_sync_def sync_exchange_def split: option.splits prod.splits)

lemma link_run_keeps:
  "link_run ws l = (r, l') \<Longrightarrow> lrwc l' = lrwc l \<and> closing (lclient l') = closing (lclient l)"
  by (auto simp: link_run_def run_sync_closing split: prod.splits)

interpretation link_client:
  replying link_run "\<lambda>l. \<not> wlocked (cw (lclient l)) \<and> lrwc l = n \<and> \<not> closing (lclient l)"
proof
  fix l :: "'a link" and ws
  assume l: "\<not> wlocked (cw (lclient l)) \<and> lrwc l = n \<and> \<not> closing (lclient l)"
  with sync_client.replies [of "lclient l" ws] obtain r e c' where
    "run_sync ws (lclient l) = (Returns (r, e), c')" "\<not> wlocked (cw c')"
    "e = None \<longrightarrow> (\<exists>rep sen. r = Some rep \<and> done_sen rep = Some sen)" by blast
  with l show "\<exists>r e l'. link_run ws l = (Returns (r, e), l')
      \<and> (\<not> wlocked (cw (lclient l')) \<and> lrwc l' = n \<and> \<not> closing (lclient l'))
      \<and> (e = None \<longrightarrow> (\<exists>rep sen. r = Some rep \<and> done_sen rep = Some sen))"
    by (auto simp: link_run_def dest: run_sync_closing)
qed

lemma new_client_and_login_result:
  "\<exists>e l. new_client_and_login net (c, s, n) user password = (Returns e, l)
     \<and> (case e of
          None \<Rightarrow> lrwc l = n \<and> \<not> closing (lclient l) \<and> \<not> wlocked (cw (lclient l))
        | Some err \<Rightarrow> lrwc l = snd (close_handle net n) \<and> closing (lclient l)
            \<and> (\<exists>cause l0. login (digest net) link_run user password (new_link c s n) = (Returns (Some cause), l0)
                 \<and> err = login_failed (quoted net) cause (fst (close_handle net n))))"
proof -
  have "\<not> wlocked (cw (lclient (new_link c s n))) \<and> lrwc (new_link c s n) = n \<and> \<not> closing (lclient (new_link c s n))"
    by (simp add: new_link_def new_client_def new_writer_def)
  from link_client.login_returns [OF this, of "digest net" user password] obtain e l where
    l: "login (digest net) link_run user password (new_link c s n) = (Returns e, l)"
      "\<not> wlocked (cw (lclient l))" "lrwc l = n" "\<not> closing (lclient l)" by blast
  then show ?thesis
    by (cases e) (auto simp: new_client_and_login_def client_close_first)
qed

text \<open>\<open>n\<close> closes in a row.\<close>

fun closes :: "nat \<Rightarrow> 'n closer \<Rightarrow> 'n link \<Rightarrow> goerr option list \<times> 'n link" where
  "closes 0 close l = ([], l)"
| "closes (Suc k) close l =
     (let (e, l1) = client_close close l; (es, l2) = closes k close l1 in (e # es, l2))"

lemma closes_again:
  assumes "closing (lclient l)" "lrclosed l" "lwclosed l"
  shows "closes k close l = (replicate k None, l)"
proof (induction k)
  case (Suc k)
  have "l\<lparr>lrclosed := True, lwclosed := True\<rparr> = l" using assms(2,3) by (cases l) simp
  with Suc assms(1) show ?case by (simp add: client_close_again)
qed simp

text \<open>Hexadecimal digits, and what the two stages of login send.\<close>

lemma hex_digit_value: "n < 16 \<Longrightarrow> hex_value (hex_digit n) = Some n"
  by (simp add: hex_value_def hex_digit_def of_char_of take_bit_nat_def)

lemma hex_decode_fmt_x: "hex_decode (fmt_x bs) = Inr bs"
proof (induction bs)
  case (Cons b bs)
  have b: "unat b div 16 < 16" "unat b mod 16 < 16"
    using unsigned_less [of b, where ?'a = nat] by (simp_all add: less_mult_imp_div_less)
  have "unat b div 16 * 16 + unat b mod 16 = unat b" by simp
  then have "(word_of_nat (unat b div 16 * 16 + unat b mod 16) :: byte) = b" by (metis of_nat_unat ucast_id)
  with Cons b show ?case by (simp add: fmt_x_def hex_digit_value del: of_nat_add of_nat_mult)
qed (simp add: fmt_x_def)

definition login_sentence :: "string \<Rightarrow> string \<Rightarrow> string list" where
  "login_sentence user password = [''/login'', ''=name='' @ user, ''=password='' @ password]"

definition response_sentence :: "(byte list \<Rightarrow> byte list) \<Rightarrow> string \<Rightarrow> string \<Rightarrow> byte list \<Rightarrow> string list" where
  "response_sentence md5 user password cha =
     [''/login'', ''=name='' @ user, ''=response='' @ challenge_response md5 cha password]"

lemma run_sync_done:
  assumes "healthy (cw c)" "\<not> wlocked (cw c)" "read_sentence (cr c) = (Inr sen, s)" "sen_word sen = ''!done''"
  shows "\<exists>c'. run_sync ws c = (Returns (Some \<lparr>re_sens = [], done_sen = Some sen\<rparr>, None), c')
    \<and> cr c' = s \<and> healthy (cw c') \<and> \<not> wlocked (cw c') \<and> wire (cw c') = wire (cw c) @ sentence_bytes ws"
  using run_sync_sends [OF assms(1,2), of ws] sync_loop_done [OF assms(3,4), of empty_reply None]
  by (auto simp: empty_reply_def)

subsection \<open>Properties\<close>

text \<open>C16: Dialling never leaks a connection: once the network has given one, \<open>DialContext\<close> and
\<open>DialTLSContext\<close> either succeed and hand it over open, or fail and have closed it exactly once; the
error then wraps the error of the login and that of the close.\<close>

theorem dial_keeps_or_closes:
  assumes "tcp_dial net ctx address = Inr (c, s, n) \<and> r = dial_context net ctx address user password
    \<or> tls_dial net tls ctx address = Inr (c, s, n) \<and> r = dial_tls_context net ctx address user password tls"
  shows "\<exists>e l. r = (Returns e, Some l)
     \<and> (case e of
          None \<Rightarrow> lrwc l = n \<and> \<not> closing (lclient l) \<and> \<not> wlocked (cw (lclient l))
        | Some err \<Rightarrow> lrwc l = snd (close_handle net n) \<and> closing (lclient l)
            \<and> (\<exists>cause l0. login (digest net) link_run user password (new_link c s n) = (Returns (Some cause), l0)
                 \<and> err = login_failed (quoted net) cause (fst (close_handle net n))))"
  using new_client_and_login_result [of net c s n user password] assms
  by (auto simp: dial_context_def dial_tls_context_def)

definition sample_network :: "byte list \<Rightarrow> (unit, unit, nat) network" where
  "sample_network answer =
     \<lparr>tcp_dial = (\<lambda>ctx a. Inr (\<lparr>sent = [], room = None, cerr = IoEOF\<rparr>, \<lparr>pending = answer, fin = IoEOF\<rparr>, 0)),
      tls_dial = (\<lambda>tls ctx a. Inl IoEOF), close_handle = (\<lambda>n. (None, Suc n)), digest = id, quoted = id\<rparr>"

lemma dial_keeps_or_closes_witness:
  "\<exists>l. client_dial (sample_network []) ''router:8728'' ''admin'' ''x''
     = (Returns (Some (login_failed id IoEOF None)), Some l) \<and> lrwc l = Suc 0"
proof -
  let ?net = "sample_network []" and ?c = "\<lparr>sent = [], room = None, cerr = IoEOF\<rparr>"
  let ?s = "\<lparr>pending = [], fin = IoEOF\<rparr>"
  have "tcp_dial ?net Background ''router:8728'' = Inr (?c, ?s, 0)" by (simp add: sample_network_def)
  with dial_keeps_or_closes [of ?net Background "''router:8728''" ?c ?s 0
      "client_dial ?net ''router:8728'' ''admin'' ''x''" "''admin''" "''x''"]
  obtain e l where el: "client_dial ?net ''router:8728'' ''admin'' ''x'' = (Returns e, Some l)"
    "case e of None \<Rightarrow> lrwc l = 0 | Some err \<Rightarrow> lrwc l = snd (close_handle ?net 0)"
    by (auto simp: client_dial_def split: option.splits)
  have "fst (client_dial ?net ''router:8728'' ''admin'' ''x'') = Returns (Some (login_failed id IoEOF None))"
    by code_simp
  with el show ?thesis by (simp add: sample_network_def)
qed

text \<open>\<open>Close\<close> is idempotent: however often it is called the connection is closed once, by the first call,
which alone reports an error; reader and writer are marked closed.\<close>

lemma close_is_idempotent:
  assumes "\<not> closing (lclient l)"
  shows "\<exists>l'. closes (Suc k) close l = (fst (close (lrwc l)) # replicate k None, l')
     \<and> lrwc l' = snd (close (lrwc l)) \<and> closing (lclient l') \<and> lrclosed l' \<and> lwclosed l'"
  using assms by (simp add: client_close_first closes_again)

text \<open>C22: The login protocol: a first answer without challenge logs in with one sentence; with a challenge a
second sentence follows that carries the MD5 response to exactly the challenge's bytes, and its answer
decides; a challenge that is not hexadecimal is an error and nothing more is sent.\<close>

theorem login_protocol:
  assumes "healthy (cw c)" "\<not> wlocked (cw c)"
    and "read_sentence (cr c) = (Inr sen, s1)" "sen_word sen = ''!done''"
    and "login md5 run_sync user password c = (r, c')"
  shows "case map_of (sen_map sen) ''ret'' of
      None \<Rightarrow> r = Returns None \<and> wire (cw c') = wire (cw c) @ sentence_bytes (login_sentence user password)
    | Some ret \<Rightarrow>
        (case hex_decode ret of
           Inl e \<Rightarrow> (\<exists>m. r = Returns (Some (Wrapf m [ErrInvalidChallengeReceived, e])))
             \<and> wire (cw c') = wire (cw c) @ sentence_bytes (login_sentence user password)
         | Inr cha \<Rightarrow> r = Returns (snd (fst (sync_loop empty_reply None s1)))
             \<and> wire (cw c') = wire (cw c) @ sentence_bytes (login_sentence user password)
                 @ sentence_bytes (response_sentence md5 user password cha))"
proof -
  obtain c1 where c1: "run_sync (login_sentence user password) c
      = (Returns (Some \<lparr>re_sens = [], done_sen = Some sen\<rparr>, None), c1)"
    "cr c1 = s1" "healthy (cw c1)" "\<not> wlocked (cw c1)"
    "wire (cw c1) = wire (cw c) @ sentence_bytes (login_sentence user password)"
    using run_sync_done [OF assms(1-4)] by blast
  note run1 = c1(1) [unfolded login_sentence_def]
  show ?thesis
  proof (cases "map_of (sen_map sen) ''ret''")
    case None
    with run1 c1(5) assms(5) show ?thesis by (simp add: login_def)
  next
    case (Some ret)
    show ?thesis
    proof (cases "hex_decode ret")
      case (Inl e)
      with Some run1 c1(5) assms(5) show ?thesis by (auto simp: login_def)
    next
      case (Inr cha)
      from run_sync_sends [OF c1(3,4), of "response_sentence md5 user password cha"] c1(2) obtain c2 where
        "run_sync (response_sentence md5 user password cha) c1
          = (Returns (fst (sync_loop empty_reply None s1)), c2)"
        "wire (cw c2) = wire (cw c1) @ sentence_bytes (response_sentence md5 user password cha)" by auto
      with Some Inr run1 c1(5) assms(5) show ?thesis
        by (auto simp: login_def response_sentence_def split: prod.splits)
    qed
  qed
qed

lemma login_protocol_witness:
  "\<exists>c'. login id run_sync ''admin'' ''x'' (new_client \<lparr>sent = [], room = None, cerr = IoEOF\<rparr>
       \<lparr>pending = sentence_bytes [''!done''], fin = IoEOF\<rparr>) = (Returns None, c')
     \<and> wire (cw c') = sentence_bytes (login_sentence ''admin'' ''x'')"
proof -
  let ?c = "new_client \<lparr>sent = [], room = None, cerr = IoEOF\<rparr> \<lparr>pending = sentence_bytes [''!done''], fin = IoEOF\<rparr>"
  have rd: "read_sentence (cr ?c) = (Inr (new_sentence\<lparr>sen_word := ''!done''\<rparr>), \<lparr>pending = [], fin = IoEOF\<rparr>)"
    by code_simp
  obtain r c' where l: "login id run_sync ''admin'' ''x'' ?c = (r, c')" by fastforce
  from login_protocol [OF _ _ rd _ l] show ?thesis using l
    by (auto simp: new_client_def new_writer_def healthy_def new_sentence_def wire_def accepted_def)
qed

end
