(* ===== verification/Native_Adapter.thy ===== *)
theory Native_Adapter
  imports Client_Conn Reply_Types
begin

text \<open>
  \<open>transport/nativeapi/nativeapi.go\<close>: the adapter that offers the client as a structured transport.  Its
  state is the session over the client's connection; every method delegates to the client, \<open>Close\<close> to
  \<open>Client.Close\<close>.
\<close>

subsection \<open>The adapter\<close>

definition adapter_new :: "'c \<Rightarrow> 'c session" where
  "adapter_new c = new_session c"

definition adapter_capabilities :: "'c session \<Rightarrow> capabilities" where
  "adapter_capabilities a = \<lparr>structured = True, console = False, inspect_cap = True\<rparr>"

definition adapter_close :: "'n closer \<Rightarrow> 'n link session \<Rightarrow> goerr option \<times> 'n link session" where
  "adapter_close close a = (case client_close close (sconn a) of (e, l) \<Rightarrow> (e, a\<lparr>sconn := l\<rparr>))"

definition adapter_command :: "(string \<Rightarrow> string) \<Rightarrow> 'c call \<Rightarrow> 'c session command_fn" where
  "adapter_command q run ctx cmd a = client_command q run ctx cmd a"

definition adapter_list ::
  "(string \<Rightarrow> string) \<Rightarrow> 'c call \<Rightarrow> ctx \<Rightarrow> command \<Rightarrow> ('c session, treply list) seam" where
  "adapter_list q run ctx cmd a = client_list q run ctx cmd a"

definition adapter_inspect :: "(string \<Rightarrow> string) \<Rightarrow> 'c call \<Rightarrow> 'c session inspect_fn" where
  "adapter_inspect q run ctx request path a = inspect_nodes q run ctx request path a"

definition adapter_probe_inspect ::
  "(string \<Rightarrow> string) \<Rightarrow> 'c call \<Rightarrow> ctx \<Rightarrow> 'c session \<Rightarrow> goerr option \<times> 'c session" where
  "adapter_probe_inspect q run ctx a = probe_inspect q run ctx a"

definition adapter_supports_inspect :: "'c session \<Rightarrow> bool" where
  "adapter_supports_inspect a = supports_inspect a"

definition adapter_probe_parse ::
  "(string \<Rightarrow> string) \<Rightarrow> 'c call \<Rightarrow> ctx \<Rightarrow> 'c session \<Rightarrow> goerr option \<times> 'c session" where
  "adapter_probe_parse q run ctx a = probe_parse q run ctx a"

definition adapter_supports_parse :: "'c session \<Rightarrow> bool" where
  "adapter_supports_parse a = supports_parse a"

text \<open>A call on the client inside its connection, while the connection is not closed.\<close>

definition link_call :: "'n link call" where
  "link_call ctx ws l = (case sync_call ctx ws (lclient l) of (r, c) \<Rightarrow> (r, l\<lparr>lclient := c\<rparr>))"

interpretation link_answers: answering_calls link_call
  by unfold_locales (auto simp: link_call_def dest: sync_call_typed split: prod.splits)

subsection \<open>Sequences of operations\<close>

datatype adapter_op =
    ACommand ctx command | AList ctx command | AInspect ctx inspect_kind string
  | AProbeInspect ctx | AProbeParse ctx | AClose

fun adapter_do ::
  "(string \<Rightarrow> string) \<Rightarrow> 'n link call \<Rightarrow> 'n closer \<Rightarrow> adapter_op \<Rightarrow> 'n link session \<Rightarrow> 'n link session" where
  "adapter_do q run close (ACommand ctx cmd) a = snd (adapter_command q run ctx cmd a)"
| "adapter_do q run close (AList ctx cmd) a = snd (adapter_list q run ctx cmd a)"
| "adapter_do q run close (AInspect ctx request path) a = snd (adapter_inspect q run ctx request path a)"
| "adapter_do q run close (AProbeInspect ctx) a = snd (adapter_probe_inspect q run ctx a)"
| "adapter_do q run close (AProbeParse ctx) a = snd (adapter_probe_parse q run ctx a)"
| "adapter_do q run close AClose a = snd (adapter_close close a)"

lemma client_list_conn:
  "sconn (snd (client_list q run ctx cmd a)) = snd (run ctx (words cmd) (sconn a))"
  by (simp add: client_list_def split: prod.split sum.split)

lemma probe_inspect_conn:
  "sconn (snd (probe_inspect q run ctx a)) =
     (if sinspect_probed a then sconn a
      else snd (run ctx (words (inspect_command InspectChild ''system'')) (sconn a)))"
  using inspect_nodes_state [of q run ctx InspectChild "''system''" a]
  by (auto simp: probe_inspect_def split: prod.splits sum.splits)

lemma probe_parse_conn:
  "sconn (snd (probe_parse q run ctx a)) =
     (if sparse_probed a then sconn a
      else snd (run ctx (words (script_command probe_script)) (sconn a)))"
  using client_command_state [of q run ctx "script_command probe_script" a]
  by (auto simp: probe_parse_def split: prod.splits sum.splits)

text \<open>
  What \<open>Close\<close> relies on: a call, whatever else it does to the client, leaves the handle of the
  connection and the closing flag alone.
\<close>

locale handle_keeping =
  fixes run :: "'n link call"
  assumes keeps: "lrwc (snd (run ctx ws l)) = lrwc l \<and> closing (lclient (snd (run ctx ws l))) = closing (lclient l)"
begin

lemma step_keeps:
  assumes "op \<noteq> AClose"
  shows "lrwc (sconn (adapter_do q run close op a)) = lrwc (sconn a)
    \<and> closing (lclient (sconn (adapter_do q run close op a))) = closing (lclient (sconn a))"
  using assms keeps
  by (cases op) (auto simp: adapter_command_def adapter_list_def adapter_inspect_def adapter_probe_inspect_def
      adapter_probe_parse_def client_command_state inspect_nodes_state client_list_conn
      probe_inspect_conn probe_parse_conn)

lemma closes_once:
  "lrwc (sconn (fold (adapter_do q run close) ops a)) =
     (if AClose \<in> set ops \<and> \<not> closing (lclient (sconn a)) then snd (close (lrwc (sconn a))) else lrwc (sconn a))"
proof (induction ops arbitrary: a)
  case (Cons op ops)
  show ?case
  proof (cases "op = AClose")
    case True
    with Cons show ?thesis
      by (cases "closing (lclient (sconn a))")
        (simp_all add: adapter_close_def client_close_first client_close_again)
  next
    case False
    with Cons step_keeps [OF False, of q close a] show ?thesis by simp
  qed
qed simp

end

interpretation link_handles: handle_keeping link_call
proof
  fix ctx ws and l :: "'a link"
  have "closing (snd (sync_call ctx ws c)) = closing c" for c
    by (auto simp: sync_call_def sync_exchange_def split: prod.splits option.splits)
  then show "lrwc (snd (link_call ctx ws l)) = lrwc l
      \<and> closing (lclient (snd (link_call ctx ws l))) = closing (lclient l)"
    by (simp add: link_call_def split: prod.split) (metis snd_conv)
qed

subsection \<open>Properties\<close>

text \<open>C38: Whatever sequence of methods a caller of the adapter uses, and however its calls behave as long as
they leave the connection's handle alone, the connection is closed exactly once if \<open>Close\<close> is among
them and never otherwise.\<close>

theorem adapter_closes_once:
  assumes "\<And>ctx ws l. lrwc (snd (run ctx ws l)) = lrwc l
      \<and> closing (lclient (snd (run ctx ws l))) = closing (lclient l)"
    and "\<not> closing (lclient l)"
  shows "lrwc (sconn (fold (adapter_do q run close) ops (adapter_new l))) =
     (if AClose \<in> set ops then snd (close (lrwc l)) else lrwc l)"
  using handle_keeping.closes_once [OF handle_keeping.intro [OF assms(1)], where q = q and close = close and ops = ops and a = "adapter_new l"] assms(2)
  by (simp add: adapter_new_def new_session_def)

lemma adapter_closes_once_witness:
  "lrwc (sconn (fold (adapter_do id link_call (\<lambda>n. (None, Suc n)))
      [AProbeParse None, AClose, ACommand None (script_command ''/x''), AClose]
      (adapter_new (new_link \<lparr>sent = [], room = None, cerr = IoEOF\<rparr> \<lparr>pending = [], fin = IoEOF\<rparr> 0)))) = Suc 0"
proof -
  let ?l = "new_link \<lparr>sent = [], room = None, cerr = IoEOF\<rparr> \<lparr>pending = [], fin = IoEOF\<rparr> 0"
  let ?ops = "[AProbeParse None, AClose, ACommand None (script_command ''/x''), AClose]"
  have "\<not> closing (lclient ?l)" by (simp add: new_link_def new_client_def)
  from adapter_closes_once [OF link_handles.keeps this, where q = id and close = "\<lambda>n. (None, Suc n)" and ops = ?ops]
  show ?thesis by (simp add: new_link_def)
qed

end
