(* ===== verification/Orchestrate.thy ===== *)
theory Orchestrate
  imports Client_Transport
begin

text \<open>
  \<open>orchestrate.go\<close>: the facade of the client.  Its state is the session, the flag that the pipeline is
  built, the schema store and the latencies of the two gates.  The clock readings of a call are the
  arguments \<open>start\<close>, \<open>asked\<close>, \<open>stored\<close> and \<open>finish\<close>, in that order in time.
\<close>

record 'c facade =
  fsession :: "'c session"
  fready :: bool
  fstore :: store
  fg1_latency :: int
  fg2_latency :: int

definition new_facade :: "'c \<Rightarrow> 'c facade" where
  "new_facade c =
     \<lparr>fsession = new_session c, fready = False, fstore = new_store, fg1_latency = 0, fg2_latency = 0\<rparr>"

record clock =
  start :: int
  asked :: int
  stored :: int
  finish :: int

record metrics =
  inspect_round_trips :: nat
  gate1_latency :: int
  gate2_latency :: int

definition client_metrics :: "'c facade \<Rightarrow> metrics" where
  "client_metrics f =
     \<lparr>inspect_round_trips = strips (fsession f), gate1_latency = fg1_latency f,
      gate2_latency = fg2_latency f\<rparr>"

definition client_gate1 :: "(string \<Rightarrow> string) \<Rightarrow> 'c call \<Rightarrow> 'c session gate1" where
  "client_gate1 q run =
     \<lparr>g1command = client_command q run, g1render = None, g1supports = Some supports_parse\<rparr>"

definition client_gate2 :: "(string \<Rightarrow> string) \<Rightarrow> 'c call \<Rightarrow> 'c session gate2" where
  "client_gate2 q run = \<lparr>g2inspect = inspect_nodes q run, g2supports = Some supports_inspect\<rparr>"

definition ensure_run ::
  "(string \<Rightarrow> string) \<Rightarrow> 'c call \<Rightarrow> ctx \<Rightarrow> 'c facade \<Rightarrow> goerr option \<times> 'c facade" where
  "ensure_run q run ctx f =
     (if fready f then (None, f)
      else
        (case probe_inspect q run ctx (fsession f) of
           (Some e, s) \<Rightarrow> (Some e, f\<lparr>fsession := s\<rparr>)
         | (None, s) \<Rightarrow>
             (case probe_parse q run ctx s of
                (Some e, s') \<Rightarrow> (Some e, f\<lparr>fsession := s'\<rparr>)
              | (None, s') \<Rightarrow> (None, f\<lparr>fsession := s', fstore := new_store, fready := True\<rparr>))))"

definition run_gates ::
  "(string \<Rightarrow> string) \<Rightarrow> 'c call \<Rightarrow> ctx \<Rightarrow> clock \<Rightarrow> command \<Rightarrow> 'c facade \<Rightarrow> goerr option \<times> 'c facade" where
  "run_gates q run ctx now cmd f =
     (if cscript cmd \<noteq> []
      then
        (case gate1_run (client_gate1 q run) ctx cmd (fsession f) of
           (err, s) \<Rightarrow> (err, f\<lparr>fsession := s, fg1_latency := finish now - start now\<rparr>))
      else
        (case gate2_validate (client_gate2 q run) ctx (asked now) (stored now) cmd (fstore f) (fsession f) of
           (err, st, s) \<Rightarrow>
             (err, f\<lparr>fsession := s, fstore := st, fg2_latency := finish now - start now\<rparr>)))"

definition client_validate ::
  "(string \<Rightarrow> string) \<Rightarrow> 'c call \<Rightarrow> ctx \<Rightarrow> clock \<Rightarrow> command \<Rightarrow> 'c facade \<Rightarrow> goerr option \<times> 'c facade" where
  "client_validate q run ctx now cmd f =
     (case ensure_run q run ctx f of
        (Some e, f') \<Rightarrow> (Some e, f')
      | (None, f') \<Rightarrow> run_gates q run ctx now cmd f')"

definition client_inspect ::
  "(string \<Rightarrow> string) \<Rightarrow> 'c call \<Rightarrow> ctx \<Rightarrow> clock \<Rightarrow> string \<Rightarrow> string \<Rightarrow> 'c facade
     \<Rightarrow> (goerr + command_schema) \<times> 'c facade" where
  "client_inspect q run ctx now path verb f =
     (case ensure_run q run ctx f of
        (Some e, f') \<Rightarrow> (Inl e, f')
      | (None, f') \<Rightarrow>
          (case discover (inspect_nodes q run) ctx (asked now) (stored now) path verb
                  (fstore f') (fsession f') of
             (r, st, s) \<Rightarrow> (r, f'\<lparr>fsession := s, fstore := st\<rparr>)))"

definition run_structured ::
  "(string \<Rightarrow> string) \<Rightarrow> 'c call \<Rightarrow> ctx \<Rightarrow> clock \<Rightarrow> command \<Rightarrow> 'c facade
     \<Rightarrow> (goerr + treply) \<times> 'c facade" where
  "run_structured q run ctx now cmd f =
     (case ensure_run q run ctx f of
        (Some e, f') \<Rightarrow> (Inl e, f')
      | (None, f') \<Rightarrow>
          (case run_gates q run ctx now cmd f' of
             (Some e, f'') \<Rightarrow> (Inl e, f'')
           | (None, f'') \<Rightarrow>
               (case client_command q run ctx cmd (fsession f'') of
                  (r, s) \<Rightarrow> (r, f''\<lparr>fsession := s\<rparr>))))"

subsection \<open>What a dry run sends\<close>

text \<open>
  The sentences a validation may send: queries of \<open>/console/inspect\<close>, and scripts that only print -- the
  probe, and a \<open>:parse\<close> of a literal.
\<close>

definition dry_sentence :: "string list \<Rightarrow> bool" where
  "dry_sentence ws \<longleftrightarrow>
     (\<exists>request path. ws = words (inspect_command request path))
     \<or> ws = words (script_command probe_script)
     \<or> (\<exists>line. ws = words (script_command (parse_script line)))"

text \<open>
  A relation between connections that holds over every dry sentence holds over everything the pipeline
  does before it executes a command.
\<close>

locale conducting =
  fixes run :: "'c call" and leads :: "'c \<Rightarrow> 'c \<Rightarrow> bool"
  assumes leads_refl: "leads c c"
    and leads_trans: "leads c c' \<Longrightarrow> leads c' c'' \<Longrightarrow> leads c c''"
    and leads_dry: "dry_sentence ws \<Longrightarrow> leads c (snd (run ctx ws c))"
begin

lemma over_inspect: "inspect_nodes q run ctx request path s = (r, s') \<Longrightarrow> leads (sconn s) (sconn s')"
proof -
  have "dry_sentence (words (inspect_command request path))" by (auto simp: dry_sentence_def)
  then show "inspect_nodes q run ctx request path s = (r, s') \<Longrightarrow> leads (sconn s) (sconn s')"
    using inspect_nodes_state [of q run ctx request path s] leads_dry by auto
qed

lemma over_script:
  "client_command q run ctx (script_command line) s = (r, s') \<Longrightarrow> dry_sentence (words (script_command line))
     \<Longrightarrow> leads (sconn s) (sconn s')"
  using client_command_state [of q run ctx "script_command line" s] leads_dry by auto

lemma over_children:
  "inspect_children_or_empty (inspect_nodes q run) ctx toks s = (r, s') \<Longrightarrow> leads (sconn s) (sconn s')"
  by (auto simp: inspect_children_or_empty_def dest: over_inspect split: prod.splits sum.splits if_splits)

lemma over_completion:
  "completion_probe (inspect_nodes q run) ctx toks attrs s = (r, s') \<Longrightarrow> leads (sconn s) (sconn s')"
  by (auto simp: completion_probe_def dest: over_inspect split: prod.splits sum.splits if_splits)

lemma over_field:
  "field_probe (inspect_nodes q run) ctx toks verb nodes attrs s = (r, s') \<Longrightarrow> leads (sconn s) (sconn s')"
  by (auto simp: field_probe_def Let_def leads_refl dest: over_completion split: if_splits)

lemma over_discover_miss:
  "discover_miss (inspect_nodes q run) ctx now path verb st s = (r, st', s') \<Longrightarrow> leads (sconn s) (sconn s')"
  by (auto simp: discover_miss_def Let_def split: prod.splits sum.splits if_splits
      dest!: over_inspect over_children over_completion over_field)
    (blast intro: leads_trans)+

lemma over_discover:
  "discover (inspect_nodes q run) ctx a b path verb st s = (r, st', s') \<Longrightarrow> leads (sconn s) (sconn s')"
  by (auto simp: discover_def leads_refl dest: over_discover_miss split: prod.splits option.splits)

lemma over_gate1: "gate1_run (client_gate1 q run) ctx cmd s = (err, s') \<Longrightarrow> leads (sconn s) (sconn s')"
  by (auto simp: gate1_run_def client_gate1_def Let_def leads_refl dry_sentence_def dest!: over_script
      split: prod.splits sum.splits if_splits)

lemma over_gate2:
  "gate2_validate (client_gate2 q run) ctx a b cmd st s = (err, st', s') \<Longrightarrow> leads (sconn s) (sconn s')"
  by (auto simp: gate2_validate_def client_gate2_def Let_def leads_refl dest: over_discover
      split: prod.splits sum.splits if_splits)

lemma over_probe_inspect: "probe_inspect q run ctx s = (err, s') \<Longrightarrow> leads (sconn s) (sconn s')"
  by (auto simp: probe_inspect_def leads_refl dest: over_inspect split: prod.splits sum.splits if_splits)

lemma over_probe_parse: "probe_parse q run ctx s = (err, s') \<Longrightarrow> leads (sconn s) (sconn s')"
  by (auto simp: probe_parse_def leads_refl dry_sentence_def dest!: over_script
      split: prod.splits sum.splits if_splits)

lemma over_ensure_run:
  "ensure_run q run ctx f = (err, f') \<Longrightarrow> leads (sconn (fsession f)) (sconn (fsession f'))"
  by (auto simp: ensure_run_def leads_refl split: prod.splits option.splits if_splits
      dest!: over_probe_inspect over_probe_parse elim: leads_trans)

lemma over_run_gates:
  "run_gates q run ctx now cmd f = (err, f') \<Longrightarrow> leads (sconn (fsession f)) (sconn (fsession f'))"
  by (auto simp: run_gates_def split: prod.splits if_splits dest!: over_gate1 over_gate2)

lemma over_validate:
  "client_validate q run ctx now cmd f = (err, f') \<Longrightarrow> leads (sconn (fsession f)) (sconn (fsession f'))"
  by (auto simp: client_validate_def split: prod.splits option.splits
      dest!: over_ensure_run over_run_gates elim: leads_trans)

end

definition dry_run :: "('d \<times> string list list) session \<Rightarrow> ('d \<times> string list list) session \<Rightarrow> bool" where
  "dry_run s s' \<longleftrightarrow> (\<exists>new. sent_words s' = sent_words s @ new \<and> list_all dry_sentence new)"

interpretation recorded_dry: conducting "recorded run"
  "\<lambda>c c'. \<exists>new. snd c' = snd c @ new \<and> list_all dry_sentence new"
  by unfold_locales auto

lemma dry_validate:
  "client_validate q (recorded run) ctx now cmd f = (err, f') \<Longrightarrow> dry_run (fsession f) (fsession f')"
  by (drule recorded_dry.over_validate) (simp add: dry_run_def sent_words_def)

text \<open>\<open>RunStructured\<close> is the validation and then, when it has no error, the command.\<close>

lemma run_structured_validated:
  "run_structured q run ctx now cmd f =
     (case client_validate q run ctx now cmd f of
        (Some e, f1) \<Rightarrow> (Inl e, f1)
      | (None, f1) \<Rightarrow>
          (case client_command q run ctx cmd (fsession f1) of (r, s) \<Rightarrow> (r, f1\<lparr>fsession := s\<rparr>)))"
  by (simp add: run_structured_def client_validate_def split: prod.split option.split)

subsection \<open>Probing once\<close>

lemma ensure_run_ready: "fready f \<Longrightarrow> ensure_run q run ctx f = (None, f)"
  by (simp add: ensure_run_def)

lemma ensure_run_ok:
  "ensure_run q run ctx f = (None, f') \<Longrightarrow> fready f'"
  by (auto simp: ensure_run_def split: prod.splits option.splits if_splits)

lemma ensure_run_sends:
  assumes "ensure_run q (recorded run) ctx f = (err, f')"
  shows "length (sent_words (fsession f')) \<le> length (sent_words (fsession f)) + 2"
proof -
  have i: "probe_inspect q (recorded run) ctx s = (e, s') \<Longrightarrow> length (sent_words s') \<le> Suc (length (sent_words s))"
    for s s' e
    using inspect_sends [of q run ctx InspectChild "''system''" s]
    by (auto simp: probe_inspect_def sent_words_def split: prod.splits sum.splits if_splits)
  have p: "probe_parse q (recorded run) ctx s = (e, s') \<Longrightarrow> length (sent_words s') \<le> Suc (length (sent_words s))"
    for s s' e
    using client_command_state [of q "recorded run" ctx "script_command probe_script" s]
    by (auto simp: probe_parse_def sent_words_def split: prod.splits sum.splits if_splits)
  show ?thesis
    using assms by (auto simp: ensure_run_def split: prod.splits option.splits if_splits dest!: i p)
qed

subsection \<open>Properties\<close>

text \<open>C4: Validation is a dry run: whatever the device answers, every sentence \<open>Validate\<close> sends is an
inspect query or a script that only parses or probes; the command itself is not executed.\<close>

theorem validate_never_executes:
  assumes "client_validate q (recorded run) ctx now cmd f = (err, f')"
  shows "\<exists>new. sent_words (fsession f') = sent_words (fsession f) @ new \<and> list_all dry_sentence new"
  using dry_validate [OF assms] by (simp add: dry_run_def)

definition sample_clock :: clock where
  "sample_clock = \<lparr>start = 0, asked = 1, stored = 2, finish = 3\<rparr>"

definition sample_call :: "unit call" where
  "sample_call ctx ws u =
     (Inr \<lparr>re_sens = [], done_sen = Some (new_sentence\<lparr>sen_word := ''!done''\<rparr>)\<rparr>, u)"

lemma validate_never_executes_witness:
  "\<exists>err f' new. client_validate id (recorded sample_call) None sample_clock (script_command ''/x'') (new_facade ((), [])) = (err, f')
     \<and> sent_words (fsession f') = new \<and> list_all dry_sentence new"
proof -
  obtain err f' where v: "client_validate id (recorded sample_call) None sample_clock (script_command ''/x'') (new_facade ((), [])) = (err, f')"
    by (metis surj_pair)
  have "sent_words (fsession (new_facade ((), []))) = []"
    by (simp add: sent_words_def new_facade_def new_session_def)
  with validate_never_executes [OF v] v show ?thesis by auto
qed

text \<open>C3: \<open>RunStructured\<close> executes a command only after the gates have accepted it, and exactly once: if it
is rejected only dry sentences are sent, otherwise the dry sentences are followed by the command's own
words and nothing else.\<close>

theorem run_structured_executes_after_gates:
  assumes "run_structured q (recorded run) ctx now cmd f = (r, f')"
  shows "case client_validate q (recorded run) ctx now cmd f of
      (Some e, f1) \<Rightarrow> r = Inl e \<and> f' = f1 \<and> dry_run (fsession f) (fsession f')
    | (None, f1) \<Rightarrow> dry_run (fsession f) (fsession f1)
        \<and> sent_words (fsession f') = sent_words (fsession f1) @ [words cmd]"
proof -
  obtain v f1 where v: "client_validate q (recorded run) ctx now cmd f = (v, f1)" by (metis surj_pair)
  note dry = dry_validate [OF v]
  have "sent_words (fsession f') = sent_words (fsession f1) @ [words cmd]" if "v = None"
    using assms v that client_command_state [of q "recorded run" ctx cmd "fsession f1"]
    by (auto simp: run_structured_validated sent_words_def split: prod.splits)
  with assms v dry show ?thesis by (auto simp: run_structured_validated split: option.splits prod.splits)
qed

lemma run_structured_executes_after_gates_witness:
  "\<exists>r f' (f1 :: (unit \<times> string list list) facade). run_structured id (recorded sample_call) None sample_clock (script_command ''/x'') (new_facade ((), [])) = (r, f')
     \<and> sent_words (fsession f') = sent_words (fsession f1) @ [words (script_command ''/x'')]"
proof -
  obtain r f' where r: "run_structured id (recorded sample_call) None sample_clock (script_command ''/x'') (new_facade ((), [])) = (r, f')"
    by (metis surj_pair)
  obtain v f1 where v: "client_validate id (recorded sample_call) None sample_clock (script_command ''/x'') (new_facade ((), [])) = (v, f1)"
    by (metis surj_pair)
  have "fst (client_validate id (recorded sample_call) None sample_clock (script_command ''/x'') (new_facade ((), []))) = None"
    by code_simp
  with v have "v = None" by simp
  with run_structured_executes_after_gates [OF r, unfolded v]
  have "sent_words (fsession f') = sent_words (fsession f1) @ [words (script_command ''/x'')]" by simp
  with r show ?thesis by blast
qed

text \<open>The session is probed once: building the pipeline sends at most two sentences, and once it is
built it is never built or probed again.\<close>

lemma session_probed_once:
  assumes "ensure_run q (recorded run) ctx f = (None, f')"
  shows "length (sent_words (fsession f')) \<le> length (sent_words (fsession f)) + 2
       \<and> ensure_run q' run' ctx' f' = (None, f')"
  using ensure_run_sends [OF assms] ensure_run_ready [OF ensure_run_ok [OF assms]] by blast

text \<open>On a session that serves neither inspect nor the parse script validation accepts every command
and sends nothing.\<close>

lemma validate_degrades_silently:
  assumes "fready f" "\<not> supports_parse (fsession f)" "\<not> supports_inspect (fsession f)"
  shows "fst (client_validate q run ctx now cmd f) = None
       \<and> fsession (snd (client_validate q run ctx now cmd f)) = fsession f"
  using assms
  by (simp add: client_validate_def ensure_run_def run_gates_def gate1_run_def gate2_validate_def
      client_gate1_def client_gate2_def)

text \<open>A repeated \<open>Inspect\<close> within the TTL gives the same schema with no further round trip and no change
of the session.\<close>

lemma inspect_repeats_from_cache:
  assumes "fready f" "client_inspect q run ctx now path verb f = (Inr sch, f')"
    and "visible (asked now) (stcache (fstore f)) (schema_key path verb) = None"
    and "cttl (stcache (fstore f)) > 0 \<longrightarrow> asked now' \<le> stored now + cttl (stcache (fstore f))"
  shows "client_inspect q' run' ctx' now' path verb f' = (Inr sch, f')"
proof -
  let ?key = "schema_key path verb"
  let ?s = "(fstore f)\<lparr>stcache := snd (cache_get (asked now) ?key (stcache (fstore f)))\<rparr>"
  have ensured: "ensure_run q run ctx f = (None, f)" using assms(1) by (rule ensure_run_ready)
  obtain st s where m: "discover_miss (inspect_nodes q run) ctx (stored now) path verb ?s (fsession f) = (Inr sch, st, s)"
    and f': "f' = f\<lparr>fsession := s, fstore := st\<rparr>"
    using assms(2) ensured
      discover_miss_eq [OF assms(3), of "inspect_nodes q run" ctx "stored now" "fsession f"]
    by (auto simp: client_inspect_def split: prod.splits)
  have "st = store_put (stored now) ?key sch ?s"
    using discover_miss_stores [where inspect = "inspect_nodes q run" and ctx = ctx and now = "stored now"
        and path = path and verb = verb and s = ?s and t = "fsession f", unfolded m] by simp
  then have "visible (asked now') (stcache st) ?key = Some sch"
    using assms(4) by (auto simp: store_put_def schemas.put_visible)
  then have "discover (inspect_nodes q' run') ctx' (asked now') (stored now') path verb st s = (Inr sch, st, s)"
    by (rule discover_hit)
  moreover have "ensure_run q' run' ctx' f' = (None, f')"
    using assms(1) by (intro ensure_run_ready) (simp add: f')
  ultimately show ?thesis by (simp add: client_inspect_def f')
qed

lemma inspect_repeats_from_cache_witness:
  "\<exists>sch f'. client_inspect id sample_call None sample_clock ''/ip'' ''print'' ((new_facade ())\<lparr>fready := True\<rparr>) = (Inr sch, f')
     \<and> client_inspect id sample_call None (sample_clock\<lparr>asked := 9\<rparr>) ''/ip'' ''print'' f' = (Inr sch, f')"
proof -
  let ?f = "(new_facade ())\<lparr>fready := True\<rparr>"
  have "case client_inspect id sample_call None sample_clock ''/ip'' ''print'' ?f of (Inr sch, f') \<Rightarrow> True | _ \<Rightarrow> False"
    by code_simp
  then obtain sch f' where c: "client_inspect id sample_call None sample_clock ''/ip'' ''print'' ?f = (Inr sch, f')"
    by (auto split: prod.splits sum.splits)
  have "client_inspect id sample_call None (sample_clock\<lparr>asked := 9\<rparr>) ''/ip'' ''print'' f' = (Inr sch, f')"
    by (rule inspect_repeats_from_cache [OF _ c])
      (simp_all add: new_facade_def new_store_def new_cache_def new_cache_with_ttl_def default_schema_ttl_def
        visible_def sample_clock_def)
  with c show ?thesis by blast
qed

end
