(* ===== verification/Facade_Wire.thy ===== *)
theory Facade_Wire
  imports Orchestrate
begin

text \<open>
  The facade of \<open>orchestrate.go\<close> down to the bytes: the pipeline over the synchronous client of
  \<open>run.go\<close>, whose sentences go through \<open>proto/writer.go\<close> to the connection.
\<close>

definition sound_client :: "client \<Rightarrow> bool" where
  "sound_client c \<longleftrightarrow> healthy (cw c) \<and> \<not> wlocked (cw c)"

text \<open>Only dry sentences have been written between the two clients.\<close>

definition dry_bytes :: "client \<Rightarrow> client \<Rightarrow> bool" where
  "dry_bytes c c' \<longleftrightarrow> (sound_client c \<longrightarrow> sound_client c'
     \<and> (\<exists>dry. list_all dry_sentence dry \<and> wire (cw c') = wire (cw c) @ concat (map sentence_bytes dry)))"

lemma sync_call_sends:
  assumes "sound_client c"
  shows "sound_client (snd (sync_call ctx ws c))
    \<and> wire (cw (snd (sync_call ctx ws c))) = wire (cw c) @ sentence_bytes ws"
proof -
  obtain r c' where rs: "run_sync ws c = (Returns r, c')" "healthy (cw c')" "\<not> wlocked (cw c')"
    "wire (cw c') = wire (cw c) @ sentence_bytes ws"
    using run_sync_sends [of c ws] assms unfolding sound_client_def by blast
  with sync_call_run_sync [where c = c and ws = ws and ctx = ctx] assms have "snd (sync_call ctx ws c) = c'"
    by (cases r; cases "snd r") (auto simp: sound_client_def)
  with rs show ?thesis by (simp add: sound_client_def)
qed

interpretation wire_dry: conducting sync_call dry_bytes
proof
  show "dry_bytes c c" for c by (auto simp: dry_bytes_def intro: exI [of _ "[]"])
next
  fix c c' c''
  assume l: "dry_bytes c c'" "dry_bytes c' c''"
  show "dry_bytes c c''"
    unfolding dry_bytes_def
  proof
    assume "sound_client c"
    with l obtain d d' where "sound_client c''" "list_all dry_sentence d" "list_all dry_sentence d'"
      "wire (cw c'') = wire (cw c) @ concat (map sentence_bytes d) @ concat (map sentence_bytes d')"
      by (auto simp: dry_bytes_def)
    then show "sound_client c'' \<and> (\<exists>dry. list_all dry_sentence dry
        \<and> wire (cw c'') = wire (cw c) @ concat (map sentence_bytes dry))"
      by (intro conjI exI [of _ "d @ d'"]) simp_all
  qed
next
  fix ws ctx c
  assume "dry_sentence ws"
  then show "dry_bytes c (snd (sync_call ctx ws c))"
    using sync_call_sends [of c ctx ws] by (auto simp: dry_bytes_def intro: exI [of _ "[ws]"])
qed

subsection \<open>Properties\<close>

text \<open>C13: Dry run to the last byte: over a sound connection what \<open>Validate\<close> and \<open>RunStructured\<close> write is the
encoding of dry sentences, followed, when the gates have accepted and only then, by the encoding of the
command's own words; the client is left ready for the next call.\<close>

theorem facade_bytes:
  assumes "run_structured q sync_call ctx now cmd f = (r, f')"
    and "client_validate q sync_call ctx now cmd f = (verdict, f1)"
    and "sound_client (sconn (fsession f))"
  shows "\<exists>dry. list_all dry_sentence dry
     \<and> wire (cw (sconn (fsession f1))) = wire (cw (sconn (fsession f))) @ concat (map sentence_bytes dry)
     \<and> wire (cw (sconn (fsession f'))) = wire (cw (sconn (fsession f))) @ concat (map sentence_bytes dry)
         @ (if verdict = None then sentence_bytes (words cmd) else [])
     \<and> sound_client (sconn (fsession f'))"
proof -
  obtain dry where d: "list_all dry_sentence dry" "sound_client (sconn (fsession f1))"
    "wire (cw (sconn (fsession f1))) = wire (cw (sconn (fsession f))) @ concat (map sentence_bytes dry)"
    using wire_dry.over_validate [OF assms(2)] assms(3) by (auto simp: dry_bytes_def)
  show ?thesis
  proof (cases verdict)
    case None
    with assms(1,2) have "sconn (fsession f') = snd (sync_call ctx (words cmd) (sconn (fsession f1)))"
      using client_command_state [of q sync_call ctx cmd "fsession f1"]
      by (auto simp: run_structured_validated split: prod.splits)
    with sync_call_sends [OF d(2), of ctx "words cmd"] d None show ?thesis by auto
  next
    case (Some e)
    with assms(1,2) have "f' = f1" by (simp add: run_structured_validated)
    with d Some show ?thesis by auto
  qed
qed

definition sample_router :: "string list list \<Rightarrow> client" where
  "sample_router answers =
     new_client \<lparr>sent = [], room = None, cerr = IoEOF\<rparr>
       \<lparr>pending = concat (map sentence_bytes answers), fin = IoEOF\<rparr>"

lemma facade_bytes_witness:
  "\<exists>r f' dry. run_structured id sync_call None sample_clock (script_command '':beep'')
       (new_facade (sample_router [[''!trap''], [''!done''], [''!trap''], [''!done''], [''!done'']])) = (r, f')
     \<and> list_all dry_sentence dry
     \<and> wire (cw (sconn (fsession f'))) = concat (map sentence_bytes dry)
         @ sentence_bytes (words (script_command '':beep''))"
proof -
  let ?c = "sample_router [[''!trap''], [''!done''], [''!trap''], [''!done''], [''!done'']]"
  let ?f = "new_facade ?c" and ?cmd = "script_command '':beep''"
  obtain r f' where r: "run_structured id sync_call None sample_clock ?cmd ?f = (r, f')" by (metis surj_pair)
  obtain v f1 where v: "client_validate id sync_call None sample_clock ?cmd ?f = (v, f1)" by (metis surj_pair)
  have "fst (client_validate id sync_call None sample_clock ?cmd ?f) = None" by code_simp
  with v have n: "v = None" by simp
  have s: "sound_client (sconn (fsession ?f))" "wire (cw (sconn (fsession ?f))) = []"
    by (simp_all add: sound_client_def sample_router_def new_facade_def new_session_def new_client_def
        new_writer_def healthy_def wire_def accepted_def)
  from facade_bytes [OF r v s(1)] r n s(2) show ?thesis by auto
qed

end
