(* ===== verification/Mock.thy ===== *)
theory Mock
  imports Gate2 Gate1
begin

text \<open>
  \<open>transport/mock/mock.go\<close>: the scriptable in-memory transport.  It checks its capability, records the
  call, looks at the context and then runs the script; a refused call is not recorded.  It provides the
  seam contracts of the gates and of the schema store.
\<close>

datatype mock_call =
    CallCommand command
  | CallInspect inspect_kind string
  | CallRun string

record mock =
  mcapabilities :: capabilities
  mcommand_fn :: "command \<Rightarrow> goerr + treply"
  minspect_fn :: "inspect_kind \<Rightarrow> string \<Rightarrow> goerr + inspect_node list"
  mrun_fn :: "string \<Rightarrow> goerr + string"
  mcalls :: "mock_call list"
  mcommand_calls :: nat
  minspect_calls :: nat
  mrun_calls :: nat
  mclosed :: bool
  mclose_err :: "goerr option"

definition mock_new :: mock where
  "mock_new =
     \<lparr>mcapabilities = \<lparr>structured = True, console = True, inspect_cap = True\<rparr>,
      mcommand_fn = (\<lambda>cmd. Inr \<lparr>rtype = ReplyDone, rattrs = [], rtag = [], rwords = []\<rparr>),
      minspect_fn = (\<lambda>request path. Inr []),
      mrun_fn = (\<lambda>line. Inr []),
      mcalls = [], mcommand_calls = 0, minspect_calls = 0, mrun_calls = 0,
      mclosed = False, mclose_err = None\<rparr>"

definition mock_new_structured :: mock where
  "mock_new_structured =
     (let t = mock_new in t\<lparr>mcapabilities := (mcapabilities t)\<lparr>console := False\<rparr>\<rparr>)"

definition mock_new_console :: mock where
  "mock_new_console =
     (let t = mock_new in
      t\<lparr>mcapabilities := (mcapabilities t)\<lparr>structured := False, inspect_cap := False\<rparr>\<rparr>)"

definition mock_command :: "mock command_fn" where
  "mock_command ctx cmd t =
     (if \<not> structured (mcapabilities t)
      then (Inl (ros_new CodeCapabilityUnsupported ''mock transport does not support structured commands'' []), t)
      else
        (let t' = t\<lparr>mcommand_calls := mcommand_calls t + 1, mcalls := mcalls t @ [CallCommand cmd]\<rparr> in
         case ctx of Some e \<Rightarrow> (Inl e, t') | None \<Rightarrow> (mcommand_fn t cmd, t')))"

definition mock_inspect :: "mock inspect_fn" where
  "mock_inspect ctx request path t =
     (if \<not> inspect_cap (mcapabilities t)
      then (Inl (ros_new CodeCapabilityUnsupported ''mock transport does not support /console/inspect'' []), t)
      else
        (let t' = t\<lparr>minspect_calls := minspect_calls t + 1, mcalls := mcalls t @ [CallInspect request path]\<rparr> in
         case ctx of Some e \<Rightarrow> (Inl e, t') | None \<Rightarrow> (minspect_fn t request path, t')))"

definition mock_run :: "mock run_fn" where
  "mock_run ctx line t =
     (if \<not> console (mcapabilities t)
      then (Inl (ros_new CodeCapabilityUnsupported ''mock transport does not support console lines'' []), t)
      else
        (let t' = t\<lparr>mrun_calls := mrun_calls t + 1, mcalls := mcalls t @ [CallRun line]\<rparr> in
         case ctx of Some e \<Rightarrow> (Inl e, t') | None \<Rightarrow> (mrun_fn t line, t')))"

definition mock_close :: "mock \<Rightarrow> goerr option \<times> mock" where
  "mock_close t = (mclose_err t, t\<lparr>mclosed := True\<rparr>)"

text \<open>The setters of the scripts, and the getters of the tests.\<close>

definition mock_set_command_fn :: "(command \<Rightarrow> goerr + treply) \<Rightarrow> mock \<Rightarrow> mock" where
  "mock_set_command_fn fn t = t\<lparr>mcommand_fn := fn\<rparr>"

definition mock_set_inspect_fn :: "(inspect_kind \<Rightarrow> string \<Rightarrow> goerr + inspect_node list) \<Rightarrow> mock \<Rightarrow> mock" where
  "mock_set_inspect_fn fn t = t\<lparr>minspect_fn := fn\<rparr>"

definition mock_set_run_fn :: "(string \<Rightarrow> goerr + string) \<Rightarrow> mock \<Rightarrow> mock" where
  "mock_set_run_fn fn t = t\<lparr>mrun_fn := fn\<rparr>"

definition mock_set_close_error :: "goerr option \<Rightarrow> mock \<Rightarrow> mock" where
  "mock_set_close_error err t = t\<lparr>mclose_err := err\<rparr>"

definition mock_capabilities :: "mock \<Rightarrow> capabilities" where
  "mock_capabilities t = mcapabilities t"

definition mock_is_closed :: "mock \<Rightarrow> bool" where
  "mock_is_closed t = mclosed t"

definition mock_command_count :: "mock \<Rightarrow> nat" where
  "mock_command_count t = mcommand_calls t"

definition mock_inspect_count :: "mock \<Rightarrow> nat" where
  "mock_inspect_count t = minspect_calls t"

definition mock_run_count :: "mock \<Rightarrow> nat" where
  "mock_run_count t = mrun_calls t"

definition mock_total_calls :: "mock \<Rightarrow> nat" where
  "mock_total_calls t = length (mcalls t)"

definition mock_calls :: "mock \<Rightarrow> mock_call list" where
  "mock_calls t = mcalls t"

subsection \<open>The counters count the recorded calls\<close>

fun command_of :: "mock_call \<Rightarrow> command option" where
  "command_of (CallCommand cmd) = Some cmd"
| "command_of _ = None"

fun line_of :: "mock_call \<Rightarrow> string option" where
  "line_of (CallRun line) = Some line"
| "line_of _ = None"

fun is_inspect :: "mock_call \<Rightarrow> bool" where
  "is_inspect (CallInspect request path) = True"
| "is_inspect _ = False"

definition commands_sent :: "mock \<Rightarrow> command list" where
  "commands_sent t = List.map_filter command_of (mcalls t)"

definition lines_run :: "mock \<Rightarrow> string list" where
  "lines_run t = List.map_filter line_of (mcalls t)"

definition mock_ok :: "mock \<Rightarrow> bool" where
  "mock_ok t \<longleftrightarrow>
     mcommand_calls t = length (commands_sent t) \<and> mrun_calls t = length (lines_run t)
     \<and> minspect_calls t = length (filter is_inspect (mcalls t))
     \<and> mock_total_calls t = mcommand_calls t + minspect_calls t + mrun_calls t"

lemma mock_ok_new: "mock_ok mock_new" "mock_ok mock_new_structured" "mock_ok mock_new_console"
  by (simp_all add: mock_ok_def mock_new_def mock_new_structured_def mock_new_console_def
      commands_sent_def lines_run_def mock_total_calls_def map_filter_def Let_def)

lemma mock_ok_steps [inv_intros]:
  assumes "mock_ok t"
  shows "mock_ok (snd (mock_command ctx cmd t))" "mock_ok (snd (mock_inspect ctx request path t))"
    "mock_ok (snd (mock_run ctx line t))" "mock_ok (snd (mock_close t))"
  using assms
  by (auto simp: mock_ok_def mock_command_def mock_inspect_def mock_run_def mock_close_def Let_def
      commands_sent_def lines_run_def mock_total_calls_def map_filter_def split: option.split)

lemmas mock_setters =
  mock_set_command_fn_def mock_set_inspect_fn_def mock_set_run_fn_def mock_set_close_error_def

lemma mock_ok_setters [inv_intros]:
  assumes "mock_ok t"
  shows "mock_ok (mock_set_command_fn f t)" "mock_ok (mock_set_inspect_fn g t)"
    "mock_ok (mock_set_run_fn h t)" "mock_ok (mock_set_close_error e t)"
  using assms
  by (simp_all add: mock_ok_def mock_setters commands_sent_def lines_run_def mock_total_calls_def)

text \<open>Whatever a test does with the mock, its counters are the numbers of the calls it has recorded.\<close>

datatype mock_op =
    MCommand ctx command | MInspect ctx inspect_kind string | MRun ctx string | MClose
  | MSetCommand "command \<Rightarrow> goerr + treply"
  | MSetInspect "inspect_kind \<Rightarrow> string \<Rightarrow> goerr + inspect_node list"
  | MSetRun "string \<Rightarrow> goerr + string" | MSetCloseError "goerr option"

fun mock_do :: "mock_op \<Rightarrow> mock \<Rightarrow> mock" where
  "mock_do (MCommand ctx cmd) t = snd (mock_command ctx cmd t)"
| "mock_do (MInspect ctx request path) t = snd (mock_inspect ctx request path t)"
| "mock_do (MRun ctx line) t = snd (mock_run ctx line t)"
| "mock_do MClose t = snd (mock_close t)"
| "mock_do (MSetCommand f) t = mock_set_command_fn f t"
| "mock_do (MSetInspect g) t = mock_set_inspect_fn g t"
| "mock_do (MSetRun h) t = mock_set_run_fn h t"
| "mock_do (MSetCloseError e) t = mock_set_close_error e t"

lemma mock_counters_exact:
  assumes "t0 \<in> {mock_new, mock_new_structured, mock_new_console}" "t = fold mock_do ops t0"
  shows "mock_command_count t = length (commands_sent t) \<and> mock_run_count t = length (lines_run t)
    \<and> mock_inspect_count t = length (filter is_inspect (mock_calls t))
    \<and> mock_total_calls t = mock_command_count t + mock_inspect_count t + mock_run_count t"
proof -
  have "mock_ok t' \<Longrightarrow> mock_ok (mock_do op t')" for op t'
    by (cases op) (simp_all add: inv_intros)
  then have "mock_ok t' \<Longrightarrow> mock_ok (fold mock_do ops t')" for t'
    by (induction ops arbitrary: t') simp_all
  with assms mock_ok_new have "mock_ok t" by auto
  then show ?thesis
    by (simp add: mock_ok_def mock_command_count_def mock_run_count_def mock_inspect_count_def mock_calls_def)
qed

subsection \<open>The seam contracts\<close>

interpretation mock_commands: commanding mock_command commands_sent "\<lambda>cmd. cmd"
  by unfold_locales
    (auto simp: mock_command_def commands_sent_def map_filter_def Let_def split: option.split)

interpretation mock_console: running mock_run lines_run
  by unfold_locales
    (auto simp: mock_run_def lines_run_def map_filter_def Let_def split: option.split)

text \<open>Without a pending cancellation the inspect script answers every call.\<close>

definition mock_serving :: "(inspect_kind \<Rightarrow> string \<Rightarrow> goerr + inspect_node list) \<Rightarrow> mock \<Rightarrow> bool" where
  "mock_serving answers t \<longleftrightarrow> inspect_cap (mcapabilities t) \<and> minspect_fn t = answers"

interpretation mock_device: answering "\<lambda>ctx. mock_inspect None" minspect_calls answers "mock_serving answers"
  for answers
  by unfold_locales (auto simp: mock_inspect_def mock_serving_def Let_def)

interpretation mock_inspects: inspecting mock_inspect minspect_calls
  by unfold_locales (auto simp: mock_inspect_def Let_def split: option.split)

subsection \<open>Properties\<close>


definition sample_node :: "string \<Rightarrow> string \<Rightarrow> inspect_node" where
  "sample_node k n = \<lparr>ntype = k, nnode_type = [], nname = n, ncompletion = [], nvalue = [], ntext = []\<rparr>"

definition sample_answers :: "inspect_kind \<Rightarrow> string \<Rightarrow> goerr + inspect_node list" where
  "sample_answers kind p =
     (case kind of
        InspectChild \<Rightarrow>
          (if p = ''ip,print'' then Inr [sample_node ''arg'' ''where'']
           else Inr [sample_node ''cmd'' ''print''])
      | InspectCompletion \<Rightarrow>
          (if p = ''ip,print,proplist'' then Inr [sample_node ''completion'' ''address'', sample_node ''completion'' ''['']
           else Inl (ros_new CodeCommandFailed ''no such item'' [])))"

lemma sample_answers_swallowable: "all_swallowable sample_answers"
proof -
  have "swallowable (ros_new CodeCommandFailed ''no such item'' [])" by code_simp
  then show ?thesis
    by (auto simp: all_swallowable_def sample_answers_def split: inspect_kind.splits if_splits)
qed

lemma sample_names: "schema_names sample_answers ''/ip'' ''print'' = {''where'', ''address''}"
proof -
  have tok: "schema_path_tokens ''/ip'' = [''ip'']" by code_simp
  have rows: "rows_for sample_answers InspectChild [''ip''] = [sample_node ''cmd'' ''print'']" by code_simp
  have fa: "field_discovery_argument ''print'' [sample_node ''cmd'' ''print''] = ''proplist''" by code_simp
  have args: "rows_for sample_answers InspectChild [''ip'', ''print''] = [sample_node ''arg'' ''where'']" by code_simp
  have "usable_completion_names (extract_completion_names
      (rows_for sample_answers InspectCompletion [''ip'', ''print''])) = []" by code_simp
  then have c1: "completions_for sample_answers [''ip'', ''print''] = {}"
    by (simp only: completions_for_usable list.set)
  have "extract_completion_names (rows_for sample_answers InspectCompletion [''ip'', ''print'', ''proplist''])
      = [''address'', ''['']" by code_simp
  moreover have "usable_completion_names [''address'', ''[''] = [''address'']"
    by (simp add: usable_completion_names_def structural_completion_tokens_def)
  ultimately have c2: "completions_for sample_answers [''ip'', ''print'', ''proplist''] = {''address''}"
    by (simp only: completions_for_usable list.set)
  have "is_argument_node (sample_node ''arg'' ''where'')" "nname (sample_node ''arg'' ''where'') = ''where''"
    by (simp_all add: is_argument_node_def sample_node_def)
  then have "{nname n | n. n \<in> set [sample_node ''arg'' ''where''] \<and> is_argument_node n \<and> nname n \<noteq> []} = {''where''}"
    by auto
  then show ?thesis
    unfolding schema_names_def Let_def tok rows fa append.simps args c1 c2 by auto
qed

lemma sample_category:
  "discovered_category (rows_for sample_answers InspectChild (schema_path_tokens ''/ip'')) ''print'' = CategoryTable"
  by code_simp

lemma sample_children:
  "sample_answers InspectChild (inspect_path (schema_path_tokens ''/ip'' @ [''print''])) =
     Inr [sample_node ''arg'' ''where'']"
  by code_simp


end
