(* ===== verification/Ssh.thy ===== *)
theory Ssh
  imports Gate1
begin

text \<open>
  \<open>transport/ssh\<close>: the console transport.  The SSH library, the file system and the device are
  arguments: the environment record holds what the code calls.  Errors are classified by their text,
  host keys are trusted on first use, output is cleaned, and a line runs under a context.
\<close>

subsection \<open>output.go\<close>

definition blank_line :: "string \<Rightarrow> bool" where
  "blank_line l \<longleftrightarrow> trim_space l = []"

definition clean_console_output :: "string \<Rightarrow> string" where
  "clean_console_output stdout =
     (let normalized = replace_all stdout [CHR 0x0D, CHR 0x0A] [CHR 0x0A];
          normalized' = replace_all normalized [CHR 0x0D] [CHR 0x0A];
          lines = split_byte CHR 0x0A normalized';
          from_start = dropWhile blank_line lines;
          kept = rev (dropWhile blank_line (rev from_start))
      in go_join (map (\<lambda>l. trim_right l [CHR 0x20, CHR 0x09]) kept) [CHR 0x0A])"

subsection \<open>errors.go\<close>

definition alternatives :: "string list \<Rightarrow> re" where
  "alternatives ws = foldr (\<lambda>w r. Alt (Fold w) r) (butlast ws) (Fold (last ws))"

definition host_key_mismatch_re :: re where
  "host_key_mismatch_re =
     Seq (Fold ''host key '') (Group (alternatives [''verification failed'', ''mismatch'']))"

definition auth_failed_re :: re where
  "auth_failed_re = Group (alternatives
     [''unable to authenticate'', ''permission denied'', ''authentication failed'',
      ''no supported methods remain'', ''no such identity'', ''too many authentication failures'',
      ''failed to login''])"

definition connection_refused_re :: re where
  "connection_refused_re = Fold ''connection refused''"

definition timeout_re :: re where
  "timeout_re = Group (alternatives
     [''i/o timeout'', ''connection timed out'', ''timed out'', ''deadline exceeded''])"

definition dns_re :: re where
  "dns_re = Group (alternatives
     [''no such host'', ''could not resolve'', ''name or service not known'', ''server misbehaving'',
      ''no route to host''])"

text \<open>The class of an error text, and the remediation that goes with it.\<close>

definition ssh_error_class :: "string \<Rightarrow> code \<times> string" where
  "ssh_error_class msg =
     (if match_string host_key_mismatch_re msg then
        (CodeHostKeyMismatch,
         ''confirm the device identity; pin the key via WithKnownHosts, or opt out explicitly with WithHostKeyPolicy(ssh.HostKeyInsecure)'')
      else if match_string auth_failed_re msg then
        (CodeAuthFailed,
         ''check the username/password or private key. Note: RouterOS refuses password login once an SSH key is set for the user.'')
      else if match_string connection_refused_re msg then
        (CodeConnectionRefused,
         ''confirm the RouterOS SSH service is enabled (ip service ssh) and reachable on port 22'')
      else if match_string timeout_re msg then
        (CodeTimeout, ''check reachability and latency; raise WithTimeout if the device is slow'')
      else if match_string dns_re msg then (CodeDNS, ''check the hostname/address'')
      else (CodeNetwork, []))"

definition ssh_context :: "string \<Rightarrow> int \<Rightarrow> string \<Rightarrow> ros_context" where
  "ssh_context host port op =
     (via_context ''ssh'')\<lparr>ctx_host := host, ctx_port := port,
        ctx_extra := (if op \<noteq> [] then [(''op'', AnyStr op)] else [])\<rparr>"

definition map_ssh_error :: "(string \<Rightarrow> string) \<Rightarrow> goerr \<Rightarrow> string \<Rightarrow> int \<Rightarrow> string \<Rightarrow> goerr" where
  "map_ssh_error q err host port op =
     (if errors_as as_ros err \<noteq> None then err
      else
        (let msg = error_text q err; (code, remediation) = ssh_error_class msg in
         ros_new code msg
           ((if code = CodeNetwork then [] else [WithRemediation remediation])
            @ [WithContext (ssh_context host port op), WithCause err])))"

subsection \<open>Addresses\<close>

text \<open>\<open>net.SplitHostPort\<close>.\<close>

definition last_index :: "string \<Rightarrow> char \<Rightarrow> int" where
  "last_index s d = (if d \<in> set s then int (length s) - 1 - index_byte (rev s) d else - 1)"

definition addr_error :: "string \<Rightarrow> string \<Rightarrow> goerr" where
  "addr_error addr why = PlainErr ((if addr = [] then [] else ''address '' @ addr @ '': '') @ why)"

definition split_host_port :: "string \<Rightarrow> goerr + (string \<times> string)" where
  "split_host_port hp =
     (let i = last_index hp CHR '':'';
          port = drop (nat (i + 1)) hp;
          finish = (\<lambda>host j k.
            if CHR ''['' \<in> set (drop j hp) then Inl (addr_error hp ''unexpected '[' in address'')
            else if CHR '']'' \<in> set (drop k hp) then Inl (addr_error hp ''unexpected ']' in address'')
            else Inr (host, port))
      in
      if i < 0 then Inl (addr_error hp ''missing port in address'')
      else if hd hp = CHR ''['' then
        (let end = index_byte hp CHR '']'' in
         if end < 0 then Inl (addr_error hp ''missing ']' in address'')
         else if end + 1 = int (length hp) then Inl (addr_error hp ''missing port in address'')
         else if end + 1 = i then finish (take (nat (end - 1)) (drop 1 hp)) 1 (nat (end + 1))
         else if hp ! nat (end + 1) = CHR '':'' then Inl (addr_error hp ''too many colons in address'')
         else Inl (addr_error hp ''missing port in address''))
      else
        (let host = take (nat i) hp in
         if CHR '':'' \<in> set host then Inl (addr_error hp ''too many colons in address'')
         else finish host 0 0))"

subsection \<open>Dialling\<close>

datatype host_key_policy = HostKeyToFU | HostKeyInsecure

datatype 'g auth_method = Password string | PublicKeys 'g

record 'g dial_config =
  dauth :: "'g auth_method list"
  dpem_keys :: "string list"
  dkey_files :: "string list"
  dhost_key :: host_key_policy
  dknown_hosts :: string
  dtimeout :: int

datatype dial_option =
    WithPassword string
  | WithPrivateKey string
  | WithPrivateKeyFile string
  | WithHostKeyPolicy host_key_policy
  | WithKnownHosts string
  | WithTimeout int

fun apply_option :: "dial_option \<Rightarrow> 'g dial_config \<Rightarrow> 'g dial_config" where
  "apply_option (WithPassword p) c = c\<lparr>dauth := dauth c @ [Password p]\<rparr>"
| "apply_option (WithPrivateKey pem) c = c\<lparr>dpem_keys := dpem_keys c @ [pem]\<rparr>"
| "apply_option (WithPrivateKeyFile f) c = c\<lparr>dkey_files := dkey_files c @ [f]\<rparr>"
| "apply_option (WithHostKeyPolicy p) c = c\<lparr>dhost_key := p\<rparr>"
| "apply_option (WithKnownHosts f) c = c\<lparr>dknown_hosts := f\<rparr>"
| "apply_option (WithTimeout d) c = c\<lparr>dtimeout := d\<rparr>"

definition dial_config_of :: "dial_option list \<Rightarrow> 'g dial_config" where
  "dial_config_of opts = fold apply_option opts
     \<lparr>dauth = [], dpem_keys = [], dkey_files = [], dhost_key = HostKeyToFU, dknown_hosts = [],
      dtimeout = 10 * 1000000000\<rparr>"

text \<open>The library calls of \<open>Dial\<close>: parsing a key, reading a file, reading known hosts, connecting.\<close>

datatype 'h callback = InsecureIgnore | Pinned 'h | Tofu

record ('g, 'h, 'n) ssh_env =
  parse_private_key :: "string \<Rightarrow> goerr + 'g"
  read_file :: "string \<Rightarrow> goerr + string"
  known_hosts_new :: "string \<Rightarrow> goerr + 'h"
  ssh_dial :: "string \<Rightarrow> string \<Rightarrow> 'g auth_method list \<Rightarrow> 'h callback \<Rightarrow> int \<Rightarrow> goerr + 'n"

definition add_key ::
  "('g, 'h, 'n) ssh_env \<Rightarrow> string \<Rightarrow> int \<Rightarrow> string \<Rightarrow> string \<Rightarrow> 'g auth_method list
     \<Rightarrow> goerr + 'g auth_method list" where
  "add_key env host port pem src auth =
     (case parse_private_key env pem of
        Inl e \<Rightarrow> Inl (ros_new CodeAuthFailed (''cannot parse private key: '' @ src)
          [WithRemediation ''provide an unencrypted PEM private key'',
           WithContext (ssh_context host port []), WithCause e])
      | Inr signer \<Rightarrow> Inr (auth @ [PublicKeys signer]))"

fun add_pem_keys ::
  "('g, 'h, 'n) ssh_env \<Rightarrow> string \<Rightarrow> int \<Rightarrow> string list \<Rightarrow> 'g auth_method list
     \<Rightarrow> goerr + 'g auth_method list" where
  "add_pem_keys env host port [] auth = Inr auth"
| "add_pem_keys env host port (pem # pems) auth =
     (case add_key env host port pem ''WithPrivateKey'' auth of
        Inl e \<Rightarrow> Inl e
      | Inr auth' \<Rightarrow> add_pem_keys env host port pems auth')"

fun add_key_files ::
  "(string \<Rightarrow> string) \<Rightarrow> ('g, 'h, 'n) ssh_env \<Rightarrow> string \<Rightarrow> int \<Rightarrow> string list \<Rightarrow> 'g auth_method list
     \<Rightarrow> goerr + 'g auth_method list" where
  "add_key_files q env host port [] auth = Inr auth"
| "add_key_files q env host port (path # paths) auth =
     (case read_file env path of
        Inl e \<Rightarrow> Inl (map_ssh_error q e host port ''read-key'')
      | Inr pem \<Rightarrow>
          (case add_key env host port pem path auth of
             Inl e \<Rightarrow> Inl e
           | Inr auth' \<Rightarrow> add_key_files q env host port paths auth'))"

definition build_auth ::
  "(string \<Rightarrow> string) \<Rightarrow> ('g, 'h, 'n) ssh_env \<Rightarrow> 'g dial_config \<Rightarrow> string \<Rightarrow> int
     \<Rightarrow> goerr + 'g auth_method list" where
  "build_auth q env cfg host port =
     (case add_pem_keys env host port (dpem_keys cfg) (dauth cfg) of
        Inl e \<Rightarrow> Inl e
      | Inr auth \<Rightarrow>
          (case add_key_files q env host port (dkey_files cfg) auth of
             Inl e \<Rightarrow> Inl e
           | Inr auth' \<Rightarrow>
               if auth' = []
               then Inl (ros_new CodeAuthFailed ''no authentication method configured''
                 [WithRemediation ''provide WithPassword, WithPrivateKey, or WithPrivateKeyFile'',
                  WithContext (ssh_context host port [])])
               else Inr auth'))"

definition host_key_callback ::
  "('g, 'h, 'n) ssh_env \<Rightarrow> 'g dial_config \<Rightarrow> string \<Rightarrow> int \<Rightarrow> goerr + 'h callback" where
  "host_key_callback env cfg host port =
     (if dhost_key cfg = HostKeyInsecure then Inr InsecureIgnore
      else if dknown_hosts cfg \<noteq> [] then
        (case known_hosts_new env (dknown_hosts cfg) of
           Inl e \<Rightarrow> Inl (ros_new CodeNetwork ''cannot read known_hosts file''
             [WithRemediation ''check the path given to WithKnownHosts'',
              WithContext (ssh_context host port []), WithCause e])
         | Inr cb \<Rightarrow> Inr (Pinned cb))
      else Inr Tofu)"

text \<open>The accept-new store: the trusted keys by host name; \<open>marshal\<close> is the wire form of a key.\<close>

definition tofu_check ::
  "('k \<Rightarrow> byte list) \<Rightarrow> string \<Rightarrow> 'k \<Rightarrow> 'k gomap \<Rightarrow> goerr option \<times> 'k gomap" where
  "tofu_check marshal hostname key keys =
     (case map_of keys hostname of
        None \<Rightarrow> (None, AList.update hostname key keys)
      | Some existing \<Rightarrow>
          if marshal existing \<noteq> marshal key
          then (Some (ros_new CodeHostKeyMismatch
                 (''host key mismatch for '' @ hostname
                  @ '': the device presented a different key than previously trusted'')
                 [WithRemediation ''confirm the device identity before trusting the new key'',
                  WithContext ((via_context ''ssh'')\<lparr>ctx_host := hostname\<rparr>)]), keys)
          else (None, keys))"

record 'n ssh_client =
  sshconn :: 'n
  sshhost :: string
  sshport :: int

definition dial ::
  "(string \<Rightarrow> string) \<Rightarrow> ('g, 'h, 'n) ssh_env \<Rightarrow> ctx \<Rightarrow> string \<Rightarrow> string \<Rightarrow> dial_option list
     \<Rightarrow> goerr + 'n ssh_client" where
  "dial q env ctx addr user opts =
     (let cfg = dial_config_of opts in
      case ctx of
        Some e \<Rightarrow> Inl e
      | None \<Rightarrow>
          (case split_host_port addr of
             Inl e \<Rightarrow> Inl (map_ssh_error q e addr 0 ''dial'')
           | Inr (host, port_str) \<Rightarrow>
               (let port = atoi port_str in
                case build_auth q env cfg host port of
                  Inl e \<Rightarrow> Inl e
                | Inr auth \<Rightarrow>
                    (case host_key_callback env cfg host port of
                       Inl e \<Rightarrow> Inl e
                     | Inr cb \<Rightarrow>
                         (case ssh_dial env addr user auth cb (dtimeout cfg) of
                            Inl e \<Rightarrow> Inl (map_ssh_error q e host port ''dial'')
                          | Inr conn \<Rightarrow>
                              Inr \<lparr>sshconn = conn, sshhost = host, sshport = port\<rparr>)))))"

subsection \<open>Running a line\<close>

text \<open>
  The session of the SSH library: opening one and running a line on it.  \<open>during\<close> is the branch the
  select of \<open>Run\<close> takes: \<open>None\<close> when the output arrives first, the context's error otherwise (the line
  has been sent in both cases).  A result is either an error or an output; the output that \<open>Run\<close> hands
  back beside an error of another kind than an exit status has no reader and is left out.
\<close>

record 'n ssh_device =
  open_session :: "'n \<Rightarrow> goerr option \<times> 'n"
  run_output :: "string \<Rightarrow> 'n \<Rightarrow> (string \<times> goerr option) \<times> 'n"
  close_conn :: "'n \<Rightarrow> goerr option \<times> 'n"

fun as_exit :: "goerr \<Rightarrow> string option" where
  "as_exit (ExitErr msg) = Some msg"
| "as_exit _ = None"

definition ssh_run :: "(string \<Rightarrow> string) \<Rightarrow> 'n ssh_device \<Rightarrow> ctx \<Rightarrow> 'n ssh_client run_fn" where
  "ssh_run q dev during ctx line s =
     (let host = sshhost s; port = sshport s in
      case ctx of
        Some e \<Rightarrow> (Inl e, s)
      | None \<Rightarrow>
          (case open_session dev (sshconn s) of
             (Some e, n) \<Rightarrow> (Inl (map_ssh_error q e host port ''open-session''), s\<lparr>sshconn := n\<rparr>)
           | (None, n) \<Rightarrow>
               (case run_output dev line n of
                  ((raw, err), n') \<Rightarrow>
                    (case during of
                       Some e \<Rightarrow>
                         (Inl (if e = CtxDeadlineExceeded
                               then ros_new CodeTimeout ''command timed out''
                                 [WithCause e, WithContext (ssh_context host port [])]
                               else e), s\<lparr>sshconn := n'\<rparr>)
                     | None \<Rightarrow>
                         (let out = clean_console_output raw in
                          case err of
                            None \<Rightarrow> (Inr out, s\<lparr>sshconn := n'\<rparr>)
                          | Some e \<Rightarrow>
                              if errors_as as_exit e \<noteq> None
                              then (if trim_space out = []
                                    then (Inl (ros_new CodeCommandFailed ''device exited without console output''
                                            [WithCause e, WithContext (ssh_context host port [])]),
                                          s\<lparr>sshconn := n'\<rparr>)
                                    else (Inr out, s\<lparr>sshconn := n'\<rparr>))
                              else (Inl (map_ssh_error q e host port ''run''), s\<lparr>sshconn := n'\<rparr>))))))"

definition ssh_capabilities :: capabilities where
  "ssh_capabilities = \<lparr>structured = False, console = True, inspect_cap = False\<rparr>"

text \<open>\<open>Dial\<close> always sets the connection and nothing unsets it, so \<open>Close\<close> always reaches it.\<close>

definition ssh_close :: "'n ssh_device \<Rightarrow> 'n ssh_client \<Rightarrow> goerr option \<times> 'n ssh_client" where
  "ssh_close dev s = (case close_conn dev (sshconn s) of (e, n) \<Rightarrow> (e, s\<lparr>sshconn := n\<rparr>))"

definition ssh_validate ::
  "(string \<Rightarrow> string) \<Rightarrow> 'n ssh_device \<Rightarrow> ctx \<Rightarrow> ctx \<Rightarrow> string \<Rightarrow> 'n ssh_client \<Rightarrow> goerr option \<times> 'n ssh_client" where
  "ssh_validate q dev during ctx line s = validate_console (ssh_run q dev during) ctx line s"

text \<open>A device whose lines are recorded in the order they are run.\<close>

definition recorded_device :: "'n ssh_device \<Rightarrow> ('n \<times> string list) ssh_device" where
  "recorded_device dev =
     \<lparr>open_session = (\<lambda>(n, l). let (e, n') = open_session dev n in (e, (n', l))),
      run_output = (\<lambda>line (n, l). let (r, n') = run_output dev line n in (r, (n', l @ [line]))),
      close_conn = (\<lambda>(n, l). let (e, n') = close_conn dev n in (e, (n', l)))\<rparr>"

definition ran_lines :: "('n \<times> string list) ssh_client \<Rightarrow> string list" where
  "ran_lines s = snd (sshconn s)"

interpretation ssh_seam: running "ssh_run q (recorded_device dev) during" ran_lines
proof
  show "ran_lines (snd (ssh_run q (recorded_device dev) during ctx line t)) = ran_lines t \<or>
      ran_lines (snd (ssh_run q (recorded_device dev) during ctx line t)) = ran_lines t @ [line]" for ctx line t
    by (cases "sshconn t")
      (auto simp: ssh_run_def recorded_device_def ran_lines_def Let_def split: option.split prod.split)
qed

subsection \<open>Blank lines\<close>

lemma find_encoding:
  assumes "find (\<lambda>e. e \<noteq> [] \<and> has_prefix s e) encs = Some e"
  shows "e \<in> set encs \<and> e \<noteq> [] \<and> s = e @ drop (length e) s"
  using assms by (auto simp: find_Some_iff has_prefix_iff)

lemma trim_encodings_splits:
  "\<exists>es. set es \<subseteq> set encs \<and> s = concat es @ trim_encodings encs s"
proof (induction encs s rule: trim_encodings.induct)
  case (1 encs s)
  show ?case
  proof (cases "find (\<lambda>e. e \<noteq> [] \<and> has_prefix s e) encs")
    case None
    then show ?thesis by (intro exI [of _ "[]"]) (simp add: trim_encodings.simps)
  next
    case (Some e)
    from "1.IH" [OF Some] obtain es where es: "set es \<subseteq> set encs"
      "drop (length e) s = concat es @ trim_encodings encs (drop (length e) s)" by blast
    from find_encoding [OF Some] have e: "e \<in> set encs" "s = e @ drop (length e) s" by simp_all
    have "trim_encodings encs s = trim_encodings encs (drop (length e) s)"
      using Some by (subst trim_encodings.simps) simp
    then have "s = concat (e # es) @ trim_encodings encs s"
      using e(2) es(2) by (metis append_assoc concat.simps(2))
    moreover have "set (e # es) \<subseteq> set encs" using e(1) es(1) by simp
    ultimately show ?thesis by blast
  qed
qed

lemma trim_encodings_stops:
  "e \<in> set encs \<Longrightarrow> e \<noteq> [] \<Longrightarrow> \<not> has_prefix (trim_encodings encs s) e"
proof (induction encs s rule: trim_encodings.induct)
  case (1 encs s)
  show ?case
  proof (cases "find (\<lambda>e. e \<noteq> [] \<and> has_prefix s e) encs")
    case None
    then have "trim_encodings encs s = s" by (subst trim_encodings.simps) simp
    with None 1 show ?thesis by (auto simp: find_None_iff)
  next
    case (Some e')
    with 1 show ?thesis by (subst trim_encodings.simps) simp
  qed
qed

definition prefix_free :: "string list \<Rightarrow> bool" where
  "prefix_free encs \<longleftrightarrow> list_all (\<lambda>e. e \<noteq> [] \<and> list_all (\<lambda>e'. has_prefix e e' \<longrightarrow> e = e') encs) encs"

lemma trim_encodings_concat:
  assumes "prefix_free encs" "set es \<subseteq> set encs"
  shows "trim_encodings encs (concat es) = []"
  using assms(2)
proof (induction es)
  case Nil
  have "find (\<lambda>e. e \<noteq> [] \<and> has_prefix [] e) encs = None"
    by (auto simp: find_None_iff neq_Nil_conv)
  then show ?case by (simp add: trim_encodings.simps)
next
  case (Cons e es)
  then have e: "e \<in> set encs" by simp
  with assms(1) have ne: "e \<noteq> []" by (simp add: prefix_free_def list_all_iff)
  define s where "s = concat (e # es)"
  then have s: "s = e @ concat es" by simp
  then have "find (\<lambda>e. e \<noteq> [] \<and> has_prefix s e) encs \<noteq> None"
    using e ne by (auto simp: find_None_iff)
  then obtain e' where f: "find (\<lambda>e. e \<noteq> [] \<and> has_prefix s e) encs = Some e'" by blast
  from find_encoding [OF f] have e': "e' \<in> set encs" "has_prefix s e'"
    by (auto simp: has_prefix_iff)
  then have "has_prefix e e' \<or> has_prefix e' e"
    using s by (auto simp: has_prefix_iff append_eq_append_conv2)
  with assms(1) e e'(1) have "e' = e" by (auto simp: prefix_free_def list_all_iff)
  with f s have "trim_encodings encs s = trim_encodings encs (concat es)"
    by (subst trim_encodings.simps) simp
  with Cons s_def show ?case by simp
qed

lemma prefix_free_spaces: "prefix_free space_encodings"
  by code_simp

lemma blank_line_iff: "blank_line l \<longleftrightarrow> (\<exists>es. set es \<subseteq> set space_encodings \<and> l = concat es)"
proof
  let ?x = "trim_encodings space_encodings l"
  assume "blank_line l"
  then have "trim_encodings (map rev space_encodings) (rev ?x) = []"
    by (simp add: blank_line_def trim_space_def)
  then obtain es where es: "set es \<subseteq> rev ` set space_encodings" "rev ?x = concat es"
    using trim_encodings_splits [of "map rev space_encodings" "rev ?x"] by auto
  have "?x = []"
  proof (cases es rule: rev_cases)
    case (snoc fs f)
    with es(2) have "?x = rev f @ rev (concat fs)"
      by (metis concat.simps concat_append append_Nil2 rev_append rev_rev_ident)
    then have "has_prefix ?x (rev f)" by simp
    moreover have f: "rev f \<in> set space_encodings" using es(1) snoc by auto
    moreover have "rev f \<noteq> []"
      using f prefix_free_spaces unfolding prefix_free_def list_all_iff by blast
    ultimately show ?thesis using trim_encodings_stops by blast
  qed (use es in simp)
  with trim_encodings_splits [of space_encodings l]
  show "\<exists>es. set es \<subseteq> set space_encodings \<and> l = concat es" by auto
next
  assume "\<exists>es. set es \<subseteq> set space_encodings \<and> l = concat es"
  then have "trim_encodings space_encodings l = []"
    using trim_encodings_concat [OF prefix_free_spaces] by blast
  moreover have "trim_encodings (map rev space_encodings) [] = []"
    using trim_encodings_splits [of "map rev space_encodings" "[]"] by (metis append_is_Nil_conv)
  ultimately show "blank_line l" by (simp add: blank_line_def trim_space_def)
qed

subsection \<open>Cleaned output\<close>

abbreviation trim_line :: "string \<Rightarrow> string" where
  "trim_line l \<equiv> trim_right l [CHR 0x20, CHR 0x09]"

lemma trim_right_split: "\<exists>tail. s = trim_right s cs @ tail \<and> set tail \<subseteq> set cs"
proof (intro exI conjI)
  have "s = rev (takeWhile (\<lambda>c. c \<in> set cs) (rev s) @ dropWhile (\<lambda>c. c \<in> set cs) (rev s))" by simp
  then show "s = trim_right s cs @ rev (takeWhile (\<lambda>c. c \<in> set cs) (rev s))"
    unfolding trim_right_def by (metis rev_append)
qed (auto dest: set_takeWhileD)

lemma trim_right_ends: "trim_right s cs = [] \<or> last (trim_right s cs) \<notin> set cs"
  unfolding trim_right_def by (metis hd_dropWhile last_rev rev_is_Nil_conv)

lemma trim_right_keeps: "s = [] \<or> last s \<notin> set cs \<Longrightarrow> trim_right s cs = s"
  by (cases s rule: rev_cases) (auto simp: trim_right_def)

lemma trim_right_idem [simp]: "trim_right (trim_right s cs) cs = trim_right s cs"
  by (rule trim_right_keeps) (rule trim_right_ends)

lemma trim_right_snoc: "c \<in> set cs \<Longrightarrow> trim_right (s @ [c]) cs = trim_right s cs"
  by (simp add: trim_right_def)

lemma set_trim_right: "set (trim_right s cs) \<subseteq> set s"
  by (auto simp: trim_right_def dest: set_dropWhileD)

lemma space_encoding_last:
  assumes "e \<in> set space_encodings"
  shows "e = [CHR 0x20] \<or> e = [CHR 0x09] \<or> e \<noteq> [] \<and> last e \<notin> {CHR 0x20, CHR 0x09}"
proof -
  have "list_all (\<lambda>e. e = [CHR 0x20] \<or> e = [CHR 0x09] \<or> e \<noteq> [] \<and> last e \<noteq> CHR 0x20 \<and> last e \<noteq> CHR 0x09)
      space_encodings" by code_simp
  with assms show ?thesis by (auto simp: list_all_iff)
qed

lemma blank_trim_line: "blank_line (trim_line l) \<longleftrightarrow> blank_line l"
proof
  obtain tail where tail: "l = trim_line l @ tail" "set tail \<subseteq> {CHR 0x20, CHR 0x09}"
    using trim_right_split [of l] by force
  assume "blank_line (trim_line l)"
  then obtain es where es: "set es \<subseteq> set space_encodings" "trim_line l = concat es"
    by (auto simp: blank_line_iff)
  have "list_all (\<lambda>e. e \<in> set space_encodings) [[CHR 0x20], [CHR 0x09]]" by code_simp
  then have "[CHR 0x20] \<in> set space_encodings" "[CHR 0x09] \<in> set space_encodings" by simp_all
  with tail(2) have "set (es @ map (\<lambda>c. [c]) tail) \<subseteq> set space_encodings" using es(1) by auto
  moreover have "concat (map (\<lambda>c. [c]) tail) = tail" by (induction tail) auto
  with tail(1) es(2) have "l = concat (es @ map (\<lambda>c. [c]) tail)" by simp
  ultimately show "blank_line l" unfolding blank_line_iff by blast
next
  have "set es \<subseteq> set space_encodings \<Longrightarrow> blank_line (trim_line (concat es))" for es
  proof (induction es rule: rev_induct)
    case Nil
    show ?case by (auto simp: blank_line_iff trim_right_def intro: exI [of _ "[]"])
  next
    case (snoc e es)
    then have IH: "blank_line (trim_line (concat es))" and e: "e \<in> set space_encodings" by simp_all
    show ?case
    proof (cases "e = [CHR 0x20] \<or> e = [CHR 0x09]")
      case True
      with IH show ?thesis by (auto simp: trim_right_snoc)
    next
      case False
      with space_encoding_last [OF e] have "trim_line (concat (es @ [e])) = concat (es @ [e])"
        by (intro trim_right_keeps) auto
      with snoc.prems show ?thesis unfolding blank_line_iff by metis
    qed
  qed
  then show "blank_line l \<Longrightarrow> blank_line (trim_line l)" by (auto simp: blank_line_iff)
qed

lemma replace_all_absent: "c \<notin> set s \<Longrightarrow> replace_all s (c # old) new = s"
  by (induction s) auto

lemma split_go_join:
  "ls \<noteq> [] \<Longrightarrow> \<forall>l \<in> set ls. d \<notin> set l \<Longrightarrow> split_byte d (go_join ls [d]) = ls"
proof (induction ls "[d]" rule: go_join.induct)
  case (2 x)
  then have "\<forall>c \<in> set x. c \<noteq> d" by auto
  then show ?case by (simp add: split_byte_def split_on_no_sep)
next
  case (3 x y ys)
  then have x: "\<forall>c \<in> set x. c \<noteq> d" and IH: "split_on (\<lambda>c. c = d) (go_join (y # ys) [d]) = y # ys"
    by (auto simp: split_byte_def)
  then show ?case
    by (simp add: split_byte_def split_on_append_sep)
qed simp

text \<open>The lines that are kept: no line breaks, and neither the first nor the last is blank.\<close>

definition tidy_lines :: "string list \<Rightarrow> bool" where
  "tidy_lines ls \<longleftrightarrow>
     (\<forall>l \<in> set ls. CHR 0x0A \<notin> set l \<and> CHR 0x0D \<notin> set l \<and> trim_line l = l)
     \<and> (ls \<noteq> [] \<longrightarrow> \<not> blank_line (hd ls) \<and> \<not> blank_line (last ls))"

lemma dropWhile_both:
  fixes P :: "'a \<Rightarrow> bool"
  defines "kept \<equiv> \<lambda>ls. rev (dropWhile P (rev (dropWhile P ls)))"
  shows "set (kept ls) \<subseteq> set ls" "kept ls \<noteq> [] \<Longrightarrow> \<not> P (hd (kept ls)) \<and> \<not> P (last (kept ls))"
proof -
  show "set (kept ls) \<subseteq> set ls" by (auto simp: kept_def dest!: set_dropWhileD)
  assume ne: "kept ls \<noteq> []"
  then have l: "\<not> P (last (kept ls))"
    unfolding kept_def by (metis hd_dropWhile last_rev rev_is_Nil_conv)
  have "dropWhile P ls = kept ls @ rev (takeWhile P (rev (dropWhile P ls)))"
    unfolding kept_def by (metis rev_append rev_rev_ident takeWhile_dropWhile_id)
  with ne have "hd (kept ls) = hd (dropWhile P ls)" "dropWhile P ls \<noteq> []"
    by (metis hd_append2, metis append_is_Nil_conv)
  then have "\<not> P (hd (kept ls))" by (metis hd_dropWhile)
  with l show "\<not> P (hd (kept ls)) \<and> \<not> P (last (kept ls))" by simp
qed

lemma clean_lines:
  obtains ls where "clean_console_output s = go_join ls [CHR 0x0A]" "tidy_lines ls"
proof -
  define n where "n = replace_all (replace_all s [CHR 0x0D, CHR 0x0A] [CHR 0x0A]) [CHR 0x0D] [CHR 0x0A]"
  define kept where "kept = rev (dropWhile blank_line (rev (dropWhile blank_line (split_byte CHR 0x0A n))))"
  have cr: "CHR 0x0D \<notin> set n" by (auto simp: n_def replace_all_single)
  have n_eq: "set l \<subseteq> set n" if "l \<in> set (split_byte CHR 0x0A n)" for l
    using that by (auto simp: split_byte_def dest: split_on_subset)
  have kept: "l \<in> set kept \<Longrightarrow> CHR 0x0A \<notin> set l \<and> CHR 0x0D \<notin> set l" for l
    using dropWhile_both(1) [of blank_line "split_byte CHR 0x0A n"] n_eq cr
    by (fastforce simp: kept_def split_byte_def dest: split_on_pieces)
  have ends: "kept \<noteq> [] \<Longrightarrow> \<not> blank_line (hd kept) \<and> \<not> blank_line (last kept)"
    unfolding kept_def by (rule dropWhile_both(2))
  show thesis
  proof (rule that)
    show "clean_console_output s = go_join (map trim_line kept) [CHR 0x0A]"
      by (simp add: clean_console_output_def Let_def kept_def n_def)
    show "tidy_lines (map trim_line kept)"
      using kept ends set_trim_right
      by (fastforce simp: tidy_lines_def hd_map last_map blank_trim_line)
  qed
qed

lemma clean_tidy: "tidy_lines ls \<Longrightarrow> clean_console_output (go_join ls [CHR 0x0A]) = go_join ls [CHR 0x0A]"
proof (cases "ls = []")
  case True
  have "blank_line []" by (auto simp: blank_line_iff intro: exI [of _ "[]"])
  with True show ?thesis by (simp add: clean_console_output_def split_byte_def)
next
  case False
  assume t: "tidy_lines ls"
  have "CHR 0x0D \<notin> set (go_join ls [CHR 0x0A])"
    using t by (auto simp: tidy_lines_def dest!: go_join_set)
  moreover have "split_byte CHR 0x0A (go_join ls [CHR 0x0A]) = ls"
    using t False by (intro split_go_join) (auto simp: tidy_lines_def)
  moreover have "dropWhile blank_line ls = ls" "dropWhile blank_line (rev ls) = rev ls"
    using t False by (auto simp: tidy_lines_def dropWhile_eq_self_iff hd_rev)
  moreover have "map trim_line ls = ls"
    using t by (auto simp: tidy_lines_def intro: map_idI)
  ultimately show ?thesis
    by (simp add: clean_console_output_def Let_def replace_all_absent)
qed

subsection \<open>Trust on first use\<close>

text \<open>A sequence of presented keys, with the verdict on each.\<close>

fun tofu_run :: "('k \<Rightarrow> byte list) \<Rightarrow> (string \<times> 'k) list \<Rightarrow> 'k gomap \<Rightarrow> goerr option list \<times> 'k gomap" where
  "tofu_run marshal [] keys = ([], keys)"
| "tofu_run marshal ((hostname, key) # ps) keys =
     (let (v, keys') = tofu_check marshal hostname key keys;
          (vs, keys'') = tofu_run marshal ps keys'
      in (v # vs, keys''))"

text \<open>The key on trial is accepted when it marshals like the first one presented for its host.\<close>

definition first_key_matches :: "('k \<Rightarrow> byte list) \<Rightarrow> (string \<times> 'k) list \<Rightarrow> string \<Rightarrow> 'k \<Rightarrow> bool" where
  "first_key_matches marshal seen hostname key \<longleftrightarrow>
     (case map_of seen hostname of None \<Rightarrow> True | Some k \<Rightarrow> marshal k = marshal key)"

lemma tofu_check_map:
  "map_of (snd (tofu_check marshal h k keys)) = map_of (keys @ [(h, k)])"
  by (auto simp: tofu_check_def update_conv' map_add_def fun_eq_iff split: option.split)

lemma tofu_check_verdict:
  "fst (tofu_check marshal h k keys) = None \<longleftrightarrow> first_key_matches marshal keys h k"
  by (simp add: tofu_check_def first_key_matches_def split: option.split)

lemma first_key_cong:
  "map_of a = map_of b \<Longrightarrow> first_key_matches marshal a = first_key_matches marshal b"
  by (simp add: first_key_matches_def fun_eq_iff)

lemma tofu_run_spec:
  assumes "map_of keys = map_of seen"
  shows "list_all2 (\<lambda>(h, k) v. v = None \<longleftrightarrow> first_key_matches marshal (seen @ ps) h k)
           ps (fst (tofu_run marshal ps keys))
       \<and> map_of (snd (tofu_run marshal ps keys)) = map_of (seen @ ps)"
  using assms
proof (induction ps arbitrary: keys seen)
  case Nil
  then show ?case by simp
next
  case (Cons p ps)
  obtain h k where p: "p = (h, k)" by (cases p)
  let ?c = "tofu_check marshal h k keys"
  have m: "map_of (snd ?c) = map_of (seen @ [(h, k)])"
    using tofu_check_map [of marshal h k keys] Cons.prems by (simp add: map_add_def)
  have "fst ?c = None \<longleftrightarrow> first_key_matches marshal (seen @ p # ps) h k"
    unfolding tofu_check_verdict using Cons.prems p
    by (auto simp: first_key_matches_def map_add_def split: option.split)
  with Cons.IH [OF m] p show ?case by (simp add: split_beta Let_def)
qed

subsection \<open>Errors\<close>

lemma as_ros_RosErr: "is_RosErr e \<Longrightarrow> errors_as as_ros e \<noteq> None"
  by (cases e) simp_all

lemma in_taxonomy_new [simp]: "\<exists>y. errors_as as_ros (ros_new c m opts) = Some y"
  using as_ros_RosErr [of "ros_new c m opts"] by simp

lemma map_ssh_error_taxonomy [simp]: "\<exists>y. errors_as as_ros (map_ssh_error q e host port op) = Some y"
  using in_taxonomy_new
  by (cases "errors_as as_ros e") (simp_all add: map_ssh_error_def Let_def split_beta)

lemma ros_cause_new: "ros_cause (ros_new c m (opts @ [WithCause e])) = Some e"
proof -
  have "is_RosErr (fold ros_apply opts (RosErr c m [] no_context None))"
    using ros_new_simps(1) [of c m opts] by (simp add: ros_new_def)
  then show ?thesis
    by (cases "fold ros_apply opts (RosErr c m [] no_context None)") (simp_all add: ros_new_def)
qed

lemma map_ssh_error_fresh:
  assumes "errors_as as_ros e = None"
  shows "ros_code (map_ssh_error q e host port op) = fst (ssh_error_class (error_text q e))
       \<and> ros_summary (map_ssh_error q e host port op) = error_text q e
       \<and> ros_cause (map_ssh_error q e host port op) = Some e"
  using assms ros_cause_new [of _ _ "_ @ [_]"]
  by (simp add: map_ssh_error_def Let_def split_beta)

lemma build_auth_taxonomy:
  "build_auth q env cfg host port = Inl e \<Longrightarrow> errors_as as_ros e \<noteq> None"
proof -
  have key: "add_key env host port pem src auth = Inl e \<Longrightarrow> errors_as as_ros e \<noteq> None" for pem src auth e
    by (auto simp: add_key_def split: sum.splits)
  have pems: "add_pem_keys env host port pems auth = Inl e \<Longrightarrow> errors_as as_ros e \<noteq> None" for pems auth e
    by (induction pems arbitrary: auth) (auto split: sum.splits dest: key)
  have files: "add_key_files q env host port fs auth = Inl e \<Longrightarrow> errors_as as_ros e \<noteq> None" for fs auth e
    by (induction fs arbitrary: auth) (auto split: sum.splits dest: key)
  show "build_auth q env cfg host port = Inl e \<Longrightarrow> errors_as as_ros e \<noteq> None"
    by (auto simp: build_auth_def split: sum.splits if_splits dest: pems files)
qed

lemma host_key_callback_taxonomy:
  "host_key_callback env cfg host port = Inl e \<Longrightarrow> errors_as as_ros e \<noteq> None"
  by (auto simp: host_key_callback_def split: sum.splits if_splits)

lemma dial_taxonomy:
  "dial q env None addr user opts = Inl e \<Longrightarrow> errors_as as_ros e \<noteq> None"
  by (auto simp: dial_def Let_def split: sum.splits dest: build_auth_taxonomy host_key_callback_taxonomy)

lemma ssh_run_taxonomy:
  "ssh_run q dev None None line s = (Inl e, s') \<Longrightarrow> errors_as as_ros e \<noteq> None"
  by (auto simp: ssh_run_def Let_def split: prod.splits option.splits if_splits)

subsection \<open>Properties\<close>

text \<open>Cleaning is idempotent and tidy: the output has no carriage returns, no line ends in a blank, and
neither its first nor its last line is blank.\<close>

lemma clean_output_tidy:
  "clean_console_output (clean_console_output s) = clean_console_output s
   \<and> (\<exists>ls. clean_console_output s = go_join ls [CHR 0x0A] \<and> tidy_lines ls)"
proof -
  obtain ls where "clean_console_output s = go_join ls [CHR 0x0A]" "tidy_lines ls" by (rule clean_lines)
  with clean_tidy show ?thesis by metis
qed

text \<open>C32: Trust on first use: in any sequence of presented keys, interleaved over any hosts, a key is
accepted exactly when it is the first for its host or marshals like the first one; the first key stays
the trusted one for ever.\<close>

theorem trust_on_first_use:
  "list_all2 (\<lambda>(h, k) v. v = None \<longleftrightarrow> first_key_matches marshal ps h k) ps (fst (tofu_run marshal ps []))
   \<and> map_of (snd (tofu_run marshal ps [])) = map_of ps"
  using tofu_run_spec [of "[]" "[]" marshal ps] by simp

text \<open>Every failure of \<open>Dial\<close> other than a done context, and every failure of \<open>Run\<close> that is not the
context's, is an error of the taxonomy.\<close>

lemma ssh_errors_in_taxonomy:
  "(dial q env None addr user opts = Inl e \<longrightarrow> errors_as as_ros e \<noteq> None)
   \<and> (ssh_run q dev None None line s = (Inl e, s') \<longrightarrow> errors_as as_ros e \<noteq> None)"
  using dial_taxonomy ssh_run_taxonomy by blast

definition sample_device :: "unit ssh_device" where
  "sample_device = \<lparr>open_session = (\<lambda>u. (None, u)), run_output = (\<lambda>line u. (([], Some (ExitErr ''exit 1'')), u)),
     close_conn = (\<lambda>u. (None, u))\<rparr>"

text \<open>Mapping an SSH error keeps it: an error of the taxonomy is unchanged, any other becomes one whose
code is the class of its text, whose summary is the text and whose cause is the error.\<close>

lemma mapped_ssh_error:
  "(errors_as as_ros e \<noteq> None \<longrightarrow> map_ssh_error q e host port op = e)
   \<and> (errors_as as_ros e = None \<longrightarrow>
        ros_code (map_ssh_error q e host port op) = fst (ssh_error_class (error_text q e))
        \<and> ros_summary (map_ssh_error q e host port op) = error_text q e
        \<and> ros_cause (map_ssh_error q e host port op) = Some e)"
  using map_ssh_error_fresh by (simp add: map_ssh_error_def)

text \<open>C40: Validating a line over SSH runs at most the one line that parses the literal of it; the line
itself is never run.\<close>

theorem ssh_validate_never_runs_line:
  assumes "line \<noteq> []"
  shows "extends_by (ran_lines (snd (ssh_validate q (recorded_device dev) during ctx line s))) (ran_lines s)
           (parse_script line)"
  unfolding ssh_validate_def by (rule ssh_seam.validate_console_sends [OF assms])

lemma ssh_validate_never_runs_line_witness:
  "extends_by (ran_lines (snd (ssh_validate id (recorded_device sample_device) None None ''/reboot''
      \<lparr>sshconn = ((), []), sshhost = ''r'', sshport = 22\<rparr>))) [] (parse_script ''/reboot'')"
  using ssh_validate_never_runs_line [of "''/reboot''" id sample_device None None
      "\<lparr>sshconn = ((), []), sshhost = ''r'', sshport = 22\<rparr>"]
  by (simp add: ran_lines_def)

text \<open>The text of a known-hosts mismatch does not carry the words the classifier looks for.\<close>

lemma known_hosts_mismatch_class:
  "ssh_error_class ''ssh: handshake failed: knownhosts: key mismatch'' = (CodeNetwork, [])"
  by code_simp

end
