(* ===== verification/Example_Taps.thy ===== *)
theory Example_Taps
  imports Async_Drive
begin

text \<open>
  What the listening programs \<open>examples/listen\<close> and \<open>examples/multi_listen\<close> have in common: a goroutine that
  ranges over the channel of a listener and has taken a number of sentences out of it.
\<close>

subsection \<open>Ranging over a listener's channel\<close>

definition tap :: "awire \<Rightarrow> string \<Rightarrow> aproc option" where
  "tap w t = aprocs (aw_client w) t"

text \<open>The reader waits, has a sentence in hand, or finds the channel closed and drained.\<close>

definition tap_waits :: "awire \<Rightarrow> string \<Rightarrow> nat \<Rightarrow> bool" where
  "tap_waits w t n = (case tap w t of None \<Rightarrow> False | Some p \<Rightarrow> n = length (preceived p))"

definition tap_next :: "awire \<Rightarrow> string \<Rightarrow> nat \<Rightarrow> sentence option" where
  "tap_next w t n =
     (case tap w t of
        None \<Rightarrow> None
      | Some p \<Rightarrow> if n < length (preceived p) then Some (preceived p ! n) else None)"

definition tap_closed :: "awire \<Rightarrow> string \<Rightarrow> nat \<Rightarrow> bool" where
  "tap_closed w t n =
     (case tap w t of None \<Rightarrow> False | Some p \<Rightarrow> pclosed p \<and> pqueue p = [] \<and> n = length (preceived p))"

definition tap_err :: "awire \<Rightarrow> string \<Rightarrow> goerr option" where
  "tap_err w t = (case tap w t of None \<Rightarrow> None | Some p \<Rightarrow> perr p)"

text \<open>The error of a listen that registered nobody: of \<open>EndSentence\<close>, or that the loop has ended.\<close>

definition call_error :: "awire \<Rightarrow> goerr" where
  "call_error w = (case werr (aw_out w) of Some e \<Rightarrow> e | None \<Rightarrow> ErrAsyncLoopEnded)"

text \<open>The steps that are the loop's.\<close>

fun loop_wevent :: "wevent \<Rightarrow> bool" where
  "loop_wevent WRead = True"
| "loop_wevent (WReadCut n) = True"
| "loop_wevent WLookup = True"
| "loop_wevent (WLocal (EvProcess h)) = True"
| "loop_wevent (WLocal EvDelete) = True"
| "loop_wevent (WLocal EvCloseReply) = True"
| "loop_wevent (WLocal EvCloseTags) = True"
| "loop_wevent _ = False"

text \<open>
  A sentence is handed straight over only to a reader that waits: \<open>waits t\<close> says whether a goroutine is
  blocked on the channel of \<open>t\<close>.
\<close>

definition may_step :: "(string \<Rightarrow> bool) \<Rightarrow> wevent \<Rightarrow> awire \<Rightarrow> bool" where
  "may_step waits e w \<longleftrightarrow>
     loop_wevent e
     \<and> (case apc (aw_client w) of
          LProc sen \<Rightarrow> e = WLocal (EvProcess True) \<longrightarrow> waits (sen_tag sen)
        | _ \<Rightarrow> True)"

text \<open>What a reader has taken is never taken back, whatever else happens, and a closed channel only drains.\<close>

definition tapped :: "astate \<Rightarrow> astate \<Rightarrow> string \<Rightarrow> bool" where
  "tapped a a' t \<longleftrightarrow>
     (\<forall>p. aprocs a t = Some p \<longrightarrow>
        (\<exists>p'. aprocs a' t = Some p' \<and> pkind p' = pkind p \<and> prefix (preceived p) (preceived p')
           \<and> (pclosed p \<longrightarrow> told p p' \<and> preceived p' @ pqueue p' = preceived p @ pqueue p)))"

lemma tapped_same [intro]: "aprocs a' = aprocs a \<Longrightarrow> tapped a a' t"
  by (simp add: tapped_def told_def)

lemma tapped_set:
  assumes "aprocs a u = Some p" "aprocs a' = (aprocs a)(u \<mapsto> p')" "pkind p' = pkind p"
    "prefix (preceived p) (preceived p')"
    "pclosed p \<longrightarrow> told p p' \<and> preceived p' @ pqueue p' = preceived p @ pqueue p"
  shows "tapped a a' t"
  using assms by (auto simp: tapped_def told_def)

lemma tapped_register:
  assumes "aprocs a u = None" "aprocs a' = (aprocs a)(u \<mapsto> p')"
  shows "tapped a a' t"
  using assms by (auto simp: tapped_def told_def)

lemma handles_received: "handles sen p v p' \<Longrightarrow> prefix (preceived p) (preceived p')"
  by (auto simp: handles_def run_process_eq deliver_def listen_process_def close_stop_def Let_def
      split: akind.splits if_splits prod.splits option.splits)

lemma close_received: "close_proc e p = Some p' \<Longrightarrow> pkind p' = pkind p \<and> preceived p' = preceived p \<and> \<not> pclosed p"
  by (auto simp: close_proc_def split: if_splits)

lemma astep_tapped:
  assumes "ainv a" "astep e a = Some a'"
  shows "tapped a a' t"
proof (cases e)
  case EvAsync
  with assms(2) show ?thesis by (auto simp: start_async_def split: if_splits)
next
  case EvRunBegin
  with assms(2) show ?thesis by (auto simp: run_begin_def split: if_splits)
next
  case (EvListenBegin n c)
  with assms(2) show ?thesis by (auto simp: listen_begin_def split: if_splits)
next
  case (EvRunCommit x)
  then obtain u where h: "awriter a = Some (HRun u)"
    using assms(2) by (auto simp: run_commit_def split: option.splits holder.splits)
  then have "aprocs a u = None" using assms(1) by (auto simp: ainv_def inv_tags_def)
  with h EvRunCommit assms(2) show ?thesis
    by (auto simp: run_commit_def register_def split: if_splits intro: tapped_register)
next
  case (EvListenCommit x)
  then obtain u n st where h: "awriter a = Some (HListen u n st)"
    using assms(2) by (auto simp: listen_commit_def split: option.splits holder.splits)
  then have "aprocs a u = None" using assms(1) by (auto simp: ainv_def inv_tags_def)
  with h EvListenCommit assms(2) show ?thesis
    by (auto simp: listen_commit_def register_def split: if_splits intro: tapped_register)
next
  case EvCancelTag
  have "aprocs a (tag_of CHR ''c'' (Suc (anext a))) = None"
    using assms(1) fresh_tag by (auto simp: ainv_def inv_tags_def)
  with EvCancelTag assms(2) show ?thesis
    by (auto simp: cancel_tag_def register_def Let_def split: if_splits intro: tapped_register)
next
  case (EvCancelWrite u)
  with assms(2) show ?thesis by (auto simp: cancel_write_def split: if_splits)
next
  case (EvReceive u)
  with assms(2) show ?thesis
    by (auto simp: receive_def set_proc_def told_def split: option.splits list.splits intro!: tapped_set)
next
  case (EvRead r)
  with assms(2) show ?thesis by (auto simp: loop_read_def split: if_splits)
next
  case EvLookup
  with assms(2) show ?thesis by (auto simp: loop_lookup_def split: loop_pc.splits)
next
  case (EvProcess h)
  with assms(2) have "loop_process h a = Some a'" by simp
  with assms(1) show ?thesis
  proof (rule loop_process_handles)
    fix sen p v p'
    assume "aprocs a (sen_tag sen) = Some p" "handles sen p v p'" "\<not> pclosed p"
      "a' = (set_proc (sen_tag sen) p' (a\<lparr>ahandled := ahandled a @ [sen]\<rparr>))\<lparr>apc := after_process (sen_tag sen) v\<rparr>"
    then show ?thesis
      using handles_kind handles_received by (intro tapped_set [of a "sen_tag sen" p a' p']) (auto simp: set_proc_def)
  qed
next
  case EvDelete
  with assms(2) show ?thesis by (auto simp: loop_delete_def split: loop_pc.splits)
next
  case EvCloseReply
  with assms(2) show ?thesis
    by (auto simp: loop_close_def set_proc_def split: loop_pc.splits option.splits
        dest!: close_received intro!: tapped_set)
next
  case EvCloseTags
  with assms(2) show ?thesis
    by (auto simp: loop_close_tags_def tapped_def told_def split: loop_pc.splits option.splits dest!: close_received)
next
  case EvClose
  with assms(2) show ?thesis by auto
qed

lemma wstep_tap:
  assumes "wreaches w0 src w" "wstep e w = Some w'" "tap w t = Some p"
  shows "\<exists>p'. tap w' t = Some p' \<and> pkind p' = pkind p \<and> prefix (preceived p) (preceived p')
    \<and> (pclosed p \<longrightarrow> told p p' \<and> preceived p' @ pqueue p' = preceived p @ pqueue p)"
proof -
  obtain ev where "astep ev (aw_client w) = Some (aw_client w')" using wstep_client [OF assms(2)] by blast
  with astep_tapped [OF wreaches_ainv [OF assms(1)]] assms(3) show ?thesis by (auto simp: tap_def tapped_def)
qed

text \<open>What a reader took, in order: the first rows of the conversation; all of them when the channel is closed.\<close>

lemma tap_rows:
  assumes "wreaches w0 src w" "tap w t = Some p" "pkind p = KListen cap"
  shows "prefix (preceived p) (rows_of (conversation t (aw_client w)))"
    and "pqueue p = [] \<Longrightarrow> preceived p = rows_of (conversation t (aw_client w))"
proof -
  have d: "rows_of (conversation t (aw_client w)) = preceived p @ pqueue p"
    using delivered_rows [OF assms(1), of t p] assms(2,3) by (simp add: tap_def delivered_def)
  then show "prefix (preceived p) (rows_of (conversation t (aw_client w)))" by simp
  show "preceived p = rows_of (conversation t (aw_client w))" if "pqueue p = []" using d that by simp
qed

text \<open>Only \<open>Close\<close> sets the flag, and only calls take the writer.\<close>

lemma astep_closing: "astep e a = Some a' \<Longrightarrow> e \<noteq> EvClose \<Longrightarrow> aclosing a' = aclosing a"
  by (cases e)
    (auto simp: start_async_def run_begin_def run_commit_def listen_begin_def listen_commit_def cancel_tag_def
      cancel_write_def receive_def loop_read_def loop_lookup_def loop_process_def loop_delete_def loop_close_def
      loop_close_tags_def register_def set_proc_def Let_def
      split: if_splits option.splits list.splits loop_pc.splits akind.splits holder.splits prod.splits)

lemma loop_wevent_writer:
  assumes "loop_wevent e" "wstep e w = Some w'"
  shows "awriter (aw_client w') = awriter (aw_client w) \<and> aclosing (aw_client w') = aclosing (aw_client w)"
proof (cases e)
  case WRead
  with assms show ?thesis by (auto simp: wire_read_def loop_read_def split: prod.splits if_splits)
next
  case (WReadCut n)
  with assms show ?thesis
    by (auto simp: wire_read_cut_def loop_read_def split: prod.splits if_splits sum.splits)
next
  case WLookup
  with assms show ?thesis by (auto simp: wire_lookup_def loop_lookup_def split: loop_pc.splits)
next
  case (WLocal ev)
  with assms obtain a where a: "local_event ev" "astep ev (aw_client w) = Some a" "w' = w\<lparr>aw_client := a\<rparr>"
    by (auto split: if_splits)
  moreover have "ev \<noteq> EvClose" using WLocal assms(1) by auto
  ultimately show ?thesis using local_writer astep_closing by fastforce
qed (use assms in auto)

lemma wstep_closing:
  assumes "wstep e w = Some w'" "e \<noteq> WLocal EvClose"
  shows "aclosing (aw_client w') = aclosing (aw_client w)"
proof (cases e)
  case (WRunBegin ws k)
  with assms(1) have "run_begin (aw_client w) = Some (aw_client w')" by (auto dest: wire_begin_client)
  then have "astep EvRunBegin (aw_client w) = Some (aw_client w')" by simp
  then show ?thesis by (rule astep_closing) simp
next
  case (WListenBegin ws k n c)
  with assms(1) have "listen_begin n c (aw_client w) = Some (aw_client w')" by (auto dest: wire_begin_client)
  then have "astep (EvListenBegin n c) (aw_client w) = Some (aw_client w')" by simp
  then show ?thesis by (rule astep_closing) simp
next
  case (WRunCommit k)
  with assms(1) show ?thesis
    by (auto simp: wire_run_commit_def wire_ended_def run_commit_def register_def Let_def
        split: option.splits holder.splits if_splits)
next
  case (WListenCommit k)
  with assms(1) show ?thesis
    by (auto simp: wire_listen_commit_def wire_ended_def listen_commit_def register_def Let_def
        split: option.splits holder.splits if_splits)
next
  case (WCancelTag target)
  with assms(1) show ?thesis
    by (auto simp: wire_cancel_tag_def cancel_tag_def register_def Let_def split: if_splits)
next
  case (WCancelWrite t k)
  with assms(1) have "wire_cancel_write t k w = Some w'" by simp
  then show ?thesis
    by (rule wire_cancel_shape) (auto simp: cancel_write_def split: if_splits)
next
  case (WLocal ev)
  with assms have "local_event ev" "astep ev (aw_client w) = Some (aw_client w')" "ev \<noteq> EvClose"
    by (auto split: if_splits)
  then show ?thesis using astep_closing by blast
qed (use assms loop_wevent_writer [of e w w'] in auto)

text \<open>The state of a reader that has shown what it took.\<close>

definition tap_ok :: "(sentence \<Rightarrow> 'b) \<Rightarrow> awire \<Rightarrow> string \<Rightarrow> nat \<Rightarrow> 'b list \<Rightarrow> bool" where
  "tap_ok f w t n us \<longleftrightarrow>
     (\<exists>p. tap w t = Some p \<and> pkind p \<noteq> KRun \<and> n \<le> length (preceived p) \<and> us = map f (take n (preceived p)))"

definition tap_done :: "awire \<Rightarrow> string \<Rightarrow> bool" where
  "tap_done w t \<longleftrightarrow> (\<exists>p. tap w t = Some p \<and> pclosed p \<and> perr p = None \<and> (done_sen (preply p) \<noteq> None \<or> aclosing (aw_client w)))"

lemma tap_ok_step:
  assumes "tap_ok f w t n us" "wreaches w0 src w" "wstep e w = Some w'"
  shows "tap_ok f w' t n us"
proof -
  obtain p where p: "tap w t = Some p" "pkind p \<noteq> KRun" "n \<le> length (preceived p)" "us = map f (take n (preceived p))"
    using assms(1) by (auto simp: tap_ok_def)
  from wstep_tap [OF assms(2,3) p(1)] obtain p' where p': "tap w' t = Some p'" "pkind p' = pkind p"
    "prefix (preceived p) (preceived p')" by blast
  then have "take n (preceived p') = take n (preceived p)" using p(3) by (auto simp: prefix_def)
  with p p' show ?thesis by (auto simp: tap_ok_def dest: prefix_length_le)
qed

lemma tap_closed_step:
  assumes "tap_closed w t n" "wreaches w0 src w" "wstep e w = Some w'"
  shows "tap_closed w' t n"
proof -
  obtain p where p: "tap w t = Some p" "pclosed p" "pqueue p = []" "n = length (preceived p)"
    using assms(1) by (auto simp: tap_closed_def split: option.splits)
  from wstep_tap [OF assms(2,3) p(1)] p obtain p' where "tap w' t = Some p'" "pclosed p'"
    "prefix (preceived p) (preceived p')" "preceived p' @ pqueue p' = preceived p" by (auto simp: told_def)
  with p(4) show ?thesis by (auto simp: tap_closed_def prefix_def)
qed

lemma tap_err_step:
  assumes "tap_closed w t n" "wreaches w0 src w" "wstep e w = Some w'"
  shows "tap_err w' t = tap_err w t"
proof -
  obtain p where p: "tap w t = Some p" "pclosed p" using assms(1) by (auto simp: tap_closed_def split: option.splits)
  with wstep_tap [OF assms(2,3) p(1)] show ?thesis by (auto simp: tap_err_def told_def)
qed

lemma wstep_closes: "wstep e w = Some w' \<Longrightarrow> aclosing (aw_client w) \<Longrightarrow> aclosing (aw_client w')"
  using wstep_closing [of e w w'] by (cases "e = WLocal EvClose") auto

lemma tap_done_step:
  assumes "tap_done w t" "wreaches w0 src w" "wstep e w = Some w'"
  shows "tap_done w' t"
proof -
  obtain p where p: "tap w t = Some p" "pclosed p" "perr p = None" "done_sen (preply p) \<noteq> None \<or> aclosing (aw_client w)"
    using assms(1) by (auto simp: tap_done_def)
  with wstep_tap [OF assms(2,3) p(1)] wstep_closes [OF assms(3)] show ?thesis by (auto simp: tap_done_def told_def)
qed

text \<open>A new listener has nothing to show; while its call holds the writer nobody else moves it.\<close>

lemma listen_commit_kind:
  "listen_commit x a = Some a' \<Longrightarrow> awriter a = Some (HListen t n st) \<Longrightarrow> aprocs a t = None \<Longrightarrow>
     aprocs a' t = Some p \<Longrightarrow> pkind p = KListen n"
  by (auto simp: listen_commit_def register_def new_proc_def split: if_splits)

lemma tap_ok_new:
  assumes "wreaches w0 src w" "wstep (WListenCommit k) w = Some w'" "awriter (aw_client w) = Some (HListen t n st)"
    and "tap w' t \<noteq> None"
  shows "tap_ok f w' t 0 []"
proof -
  obtain p where p: "tap w' t = Some p" using assms(4) by blast
  have "listen_commit (fst (end_until k (aw_out w))) (aw_client w) = Some (aw_client w')"
    using assms(2,3) by (auto simp: wire_listen_commit_def wire_ended_def Let_def split: if_splits)
  moreover have "aprocs (aw_client w) t = None" using holder_new [OF wreaches_ainv [OF assms(1)]] assms(3) by simp
  ultimately have "pkind p = KListen n" using listen_commit_kind [OF _ assms(3)] p by (simp add: tap_def)
  with p show ?thesis by (simp add: tap_ok_def)
qed

lemma listen_begin_holds:
  assumes "wstep (WListenBegin ws k n True) w = Some w'"
  shows "\<exists>t. awriter (aw_client w') = Some (HListen t n (Some False))"
proof -
  have "listen_begin n True (aw_client w) = Some (aw_client w')" using assms by (auto dest: wire_begin_client)
  then have "aw_client w' = (aw_client w)\<lparr>anext := Suc (anext (aw_client w)),
      awriter := Some (HListen (tag_of CHR ''l'' (Suc (anext (aw_client w)))) n (Some False))\<rparr>"
    by (simp add: listen_begin_def split: if_splits)
  then show ?thesis by simp
qed

lemma cancel_tag_writer: "wstep (WCancelTag t) w = Some w' \<Longrightarrow> awriter (aw_client w') = awriter (aw_client w)"
  by (auto simp: wire_cancel_tag_def cancel_tag_def register_def Let_def split: if_splits)

lemma cancel_write_writer: "wstep (WCancelWrite t k) w = Some w' \<Longrightarrow> awriter (aw_client w) = None"
  by (auto simp: cancel_write_def elim!: wire_cancel_shape split: if_splits)

text \<open>A reader shows the next sentence, finds its channel closed, finds no error.\<close>

lemma tap_ok_next:
  assumes "tap_ok f w t n us" "tap_next w t n = Some sen"
  shows "tap_ok f w t (n + 1) (us @ [f sen])"
  using assms by (auto simp: tap_ok_def tap_next_def take_Suc_conv_app_nth split: option.splits if_splits)

lemma tap_closed_done:
  assumes "wreaches w0 src w" "tap_closed w t n" "tap_err w t = None"
  shows "tap_done w t"
proof -
  obtain p where p: "tap w t = Some p" "pclosed p" "perr p = None"
    using assms(2,3) by (auto simp: tap_closed_def tap_err_def split: option.splits)
  moreover have "pclosed p \<longrightarrow> finished p \<or> aclosing (aw_client w)"
    using wreaches_ainv [OF assms(1)] p(1) by (simp add: tap_def ainv_def inv_closed_def)
  ultimately show ?thesis by (auto simp: tap_done_def finished_def)
qed

lemma tap_rows_shown:
  assumes "wreaches w0 src w" "tap_ok f w t n us"
  shows "\<exists>k. us = map f (take k (rows_of (conversation t (aw_client w))))"
    and "tap_closed w t n \<Longrightarrow> us = map f (rows_of (conversation t (aw_client w)))"
proof -
  obtain p where p: "tap w t = Some p" "pkind p \<noteq> KRun" "n \<le> length (preceived p)" "us = map f (take n (preceived p))"
    using assms(2) by (auto simp: tap_ok_def)
  then obtain cap where cap: "pkind p = KListen cap" by (cases "pkind p") auto
  note rows = tap_rows [OF assms(1) p(1) cap]
  from rows(1) p(3) have "take n (preceived p) = take n (rows_of (conversation t (aw_client w)))"
    by (auto simp: prefix_def)
  with p(4) show "\<exists>k. us = map f (take k (rows_of (conversation t (aw_client w))))" by auto
  assume "tap_closed w t n"
  with p rows(2) show "us = map f (rows_of (conversation t (aw_client w)))" by (simp add: tap_closed_def)
qed

end
