(* ===== verification/Example_Programs.thy ===== *)
theory Example_Programs
  imports Async_Drive Client_Conn
begin

text \<open>
  The programs \<open>examples/run\<close> and \<open>examples/tab\<close>, from the dial to the exit.  Their flags are a record, the
  network is that of \<open>Client_Conn\<close>, and what a program shows of itself is a list of events: what it logs,
  what it prints, and the exit of the process, which runs no deferred call.
\<close>

subsection \<open>Events\<close>

datatype program_event =
    LogError string goerr | LogResults "reply option" | Printed string | Exits nat

definition program_fatal :: "string \<Rightarrow> goerr \<Rightarrow> program_event list" where
  "program_fatal message err = [LogError message err, Exits 2]"

type_synonym 'n program_end = "program_event list outcome \<times> 'n link option"

definition nil_deref :: string where
  "nil_deref = ''invalid memory address or nil pointer dereference''"

subsection \<open>examples/run\<close>

record run_flags =
  rf_command :: string
  rf_address :: string
  rf_username :: string
  rf_password :: string
  rf_async :: bool
  rf_tls :: bool

definition example_dial ::
  "('x, 't, 'n) network \<Rightarrow> 't \<Rightarrow> run_flags \<Rightarrow> goerr option outcome \<times> 'n link option" where
  "example_dial net nil_config fl =
     (if rf_tls fl
      then dial_tls net (rf_address fl) (rf_username fl) (rf_password fl) nil_config
      else client_dial net (rf_address fl) (rf_username fl) (rf_password fl))"

text \<open>
  \<open>RunArgs\<close> on the dialled client: after \<open>Async\<close> the loop takes its turns beside the call (\<open>i\<close> before its
  sentence begins, \<open>j\<close> before it ends), otherwise the call does everything itself.
\<close>

definition example_call :: "nat \<Rightarrow> nat \<Rightarrow> run_flags \<Rightarrow> 'n link \<Rightarrow> run_outcome \<times> 'n link" where
  "example_call i j fl l =
     (let ws = split_byte CHR '' '' (rf_command fl) in
      if rf_async fl
      then (let s = wire_init (cw (lclient l)) (cr (lclient l));
                (r, s') = async_call i j ws (s\<lparr>aw_client := start_async (aw_client s)\<rparr>) in
            (r, l\<lparr>lclient := (lclient l)\<lparr>cw := aw_out s', cr := aw_in s'\<rparr>\<rparr>))
      else link_run ws l)"

text \<open>\<open>main\<close>: on success the deferred \<open>Close\<close> runs, its error is dropped; \<open>os.Exit\<close> leaves the client open.\<close>

definition run_example ::
  "('x, 't, 'n) network \<Rightarrow> 't \<Rightarrow> run_flags \<Rightarrow> nat \<Rightarrow> nat \<Rightarrow> 'n program_end" where
  "run_example net nil_config fl i j =
     (case example_dial net nil_config fl of
        (Returns (Some err), l) \<Rightarrow> (Returns (program_fatal ''could not connect'' err), l)
      | (Returns None, Some l) \<Rightarrow>
          (case example_call i j fl l of
             (Returns (r, Some err), l') \<Rightarrow> (Returns (program_fatal ''could not run args'' err), Some l')
           | (Returns (r, None), l') \<Rightarrow> (Returns [LogResults r], Some (snd (client_close (close_handle net) l')))
           | (Panics m, l') \<Rightarrow> (Panics m, Some l')
           | (Blocks, l') \<Rightarrow> (Blocks, Some l'))
      | (Returns None, None) \<Rightarrow> (Panics nil_deref, None)
      | (Panics m, l) \<Rightarrow> (Panics m, l)
      | (Blocks, l) \<Rightarrow> (Blocks, l))"

subsection \<open>examples/tab\<close>

record tab_flags =
  tf_address :: string
  tf_username :: string
  tf_password :: string
  tf_properties :: string

definition tab_query :: "string \<Rightarrow> string list" where
  "tab_query properties = [''/interface/print'', ''?disabled=false'', ''?running=true'', ''=.proplist='' @ properties]"

definition tab_row :: "string \<Rightarrow> sentence \<Rightarrow> program_event list" where
  "tab_row properties sen =
     map (\<lambda>p. Printed (gomap_str (sen_map sen) p @ [CHR 0x09])) (split_byte CHR '','' properties)
     @ [Printed [CHR 0x0A]]"

definition tab_table :: "string \<Rightarrow> sentence list \<Rightarrow> program_event list" where
  "tab_table properties rows = concat (map (tab_row properties) rows) @ [Printed [CHR 0x0A]]"

text \<open>The loop of \<open>main\<close>, at most \<open>k\<close> rounds of it: a round prints a table or ends the program.\<close>

fun tab_rounds :: "nat \<Rightarrow> string \<Rightarrow> 'n link \<Rightarrow> program_event list outcome \<times> 'n link" where
  "tab_rounds 0 properties l = (Returns [], l)"
| "tab_rounds (Suc k) properties l =
     (case link_run (tab_query properties) l of
        (Returns (r, Some err), l') \<Rightarrow> (Returns (program_fatal ''could not run'' err), l')
      | (Returns (Some rep, None), l') \<Rightarrow>
          (case tab_rounds k properties l' of
             (Returns evs, l'') \<Rightarrow> (Returns (tab_table properties (re_sens rep) @ evs), l'')
           | (Panics m, l'') \<Rightarrow> (Panics m, l'')
           | (Blocks, l'') \<Rightarrow> (Blocks, l''))
      | (Returns (None, None), l') \<Rightarrow> (Panics nil_deref, l')
      | (Panics m, l') \<Rightarrow> (Panics m, l')
      | (Blocks, l') \<Rightarrow> (Blocks, l'))"

definition tab_example :: "('x, 't, 'n) network \<Rightarrow> tab_flags \<Rightarrow> nat \<Rightarrow> 'n program_end" where
  "tab_example net fl k =
     (case client_dial net (tf_address fl) (tf_username fl) (tf_password fl) of
        (Returns (Some err), l) \<Rightarrow> (Returns (program_fatal ''could not dial'' err), l)
      | (Returns None, Some l) \<Rightarrow> map_prod id Some (tab_rounds k (tf_properties fl) l)
      | (Returns None, None) \<Rightarrow> (Panics nil_deref, None)
      | (Panics m, l) \<Rightarrow> (Panics m, l)
      | (Blocks, l) \<Rightarrow> (Blocks, l))"

subsection \<open>Calls on a dialled client\<close>

text \<open>A client that has logged in and is open.\<close>

definition open_link :: "'n \<Rightarrow> 'n link \<Rightarrow> bool" where
  "open_link n l \<longleftrightarrow> lrwc l = n \<and> \<not> closing (lclient l) \<and> \<not> wlocked (cw (lclient l))"

definition sound_result :: "reply option \<Rightarrow> goerr option \<Rightarrow> bool" where
  "sound_result r e \<longleftrightarrow>
     (case r of None \<Rightarrow> e \<noteq> None | Some rep \<Rightarrow> typed_reply rep \<and> (e = None \<longrightarrow> done_sen rep \<noteq> None))"

lemma sync_loop_sound:
  assumes "sync_loop empty_reply None s = ((r, e), s')"
  shows "sound_result r e"
proof (cases r)
  case None
  with sync_loop_result [OF assms] show ?thesis by (auto simp: sound_result_def)
next
  case (Some rep)
  with assms sync_loop_has_done typed_sync_loop [OF _ typed_empty] show ?thesis
    by (fastforce simp: sound_result_def)
qed

lemma run_sync_sound:
  assumes "\<not> wlocked (cw c)"
  shows "\<exists>r e c'. run_sync ws c = (Returns (r, e), c') \<and> sound_result r e \<and> \<not> wlocked (cw c')"
proof -
  obtain r e c' where c: "run_sync ws c = (Returns (r, e), c')" "\<not> wlocked (cw c')"
    using sync_client.replies [OF assms] by blast
  then have "sync_exchange ws (c\<lparr>cw := (cw c)\<lparr>wlocked := True\<rparr>\<rparr>) = ((r, e), c')"
    using assms by (auto simp: run_sync_def begin_sentence_def split: prod.splits)
  then consider "r = None" "e \<noteq> None" | s s' where "sync_loop empty_reply None s = ((r, e), s')"
    by (auto simp: sync_exchange_def split: option.splits prod.splits)
  then have "sound_result r e" by cases (auto simp: sound_result_def dest: sync_loop_sound [unfolded sound_result_def])
  with c show ?thesis by blast
qed

lemma link_run_sound:
  assumes "open_link n l"
  shows "\<exists>r e l'. link_run ws l = (Returns (r, e), l') \<and> sound_result r e \<and> open_link n l'"
proof -
  obtain r e c' where "run_sync ws (lclient l) = (Returns (r, e), c')" "sound_result r e" "\<not> wlocked (cw c')"
    using run_sync_sound [of "lclient l" ws] assms by (auto simp: open_link_def)
  with assms run_sync_closing show ?thesis by (auto simp: link_run_def open_link_def)
qed

lemma example_call_sound:
  assumes "open_link n l"
  shows "\<exists>r e l'. example_call i j fl l = (Returns (r, e), l') \<and> sound_result r e
    \<and> lrwc l' = n \<and> \<not> closing (lclient l')"
proof (cases "rf_async fl")
  case True
  let ?w = "cw (lclient l)" and ?src = "cr (lclient l)"
  let ?s = "(wire_init ?w ?src)\<lparr>aw_client := start_async (aw_client (wire_init ?w ?src))\<rparr>"
  have "\<not> wlocked ?w" using assms by (simp add: open_link_def)
  then have "wreaches ?w ?src (wire_init ?w ?src)" by (rule wreaches.wreaches_init)
  then have r: "wreaches ?w ?src ?s"
    using wreaches.wreaches_next [of ?w ?src "wire_init ?w ?src" "WLocal EvAsync" ?s] by simp
  have a: "aasync (aw_client ?s)" "awriter (aw_client ?s) = None" "\<not> aclosing (aw_client ?s)"
    by (simp_all add: wire_init_def async_init_def start_async_def)
  obtain r e s' where c: "async_call i j (split_byte CHR '' '' (rf_command fl)) ?s = (Returns (r, e), s')"
    "sound_result r e"
    using call_sound [OF r a, of i j "split_byte CHR '' '' (rf_command fl)"]
    by (fastforce simp: sound_result_def split: option.splits)
  with True assms show ?thesis by (auto simp: example_call_def open_link_def Let_def)
next
  case False
  with link_run_sound [OF assms, of "split_byte CHR '' '' (rf_command fl)"] show ?thesis
    by (auto simp: example_call_def open_link_def)
qed

lemma new_client_and_login_open:
  "\<exists>e l. new_client_and_login net (c, s, n) user password = (Returns e, l) \<and> (e = None \<longrightarrow> open_link n l)"
  using new_client_and_login_result [of net c s n user password]
  by (auto simp: open_link_def split: option.splits)

lemma dial_context_open:
  "\<exists>e l. dial_context net ctx address user password = (Returns e, l)
     \<and> (e = None \<longrightarrow> (\<exists>c s n l0. tcp_dial net ctx address = Inr (c, s, n) \<and> l = Some l0 \<and> open_link n l0))"
proof (cases "tcp_dial net ctx address")
  case (Inr rwc)
  obtain c s n where "rwc = (c, s, n)" by (cases rwc)
  with Inr new_client_and_login_open [of net c s n user password] show ?thesis
    by (auto simp: dial_context_def)
qed (simp add: dial_context_def)

lemma dial_tls_context_open:
  "\<exists>e l. dial_tls_context net ctx address user password tls = (Returns e, l)
     \<and> (e = None \<longrightarrow> (\<exists>c s n l0. tls_dial net tls ctx address = Inr (c, s, n) \<and> l = Some l0 \<and> open_link n l0))"
proof (cases "tls_dial net tls ctx address")
  case (Inr rwc)
  obtain c s n where "rwc = (c, s, n)" by (cases rwc)
  with Inr new_client_and_login_open [of net c s n user password] show ?thesis
    by (auto simp: dial_tls_context_def)
qed (simp add: dial_tls_context_def)

definition example_connection ::
  "('x, 't, 'n) network \<Rightarrow> 't \<Rightarrow> run_flags \<Rightarrow> goerr + (conn \<times> stream \<times> 'n)" where
  "example_connection net nil_config fl =
     (if rf_tls fl then tls_dial net nil_config Background (rf_address fl)
      else tcp_dial net Background (rf_address fl))"

lemma example_dial_open:
  "\<exists>e l. example_dial net nil_config fl = (Returns e, l)
     \<and> (e = None \<longrightarrow> (\<exists>c s n l0. example_connection net nil_config fl = Inr (c, s, n) \<and> l = Some l0 \<and> open_link n l0))"
  using dial_context_open [of net Background "rf_address fl" "rf_username fl" "rf_password fl"]
    dial_tls_context_open [of net Background "rf_address fl" "rf_username fl" "rf_password fl" nil_config]
  by (auto simp: example_dial_def example_connection_def dial_tls_def client_dial_def)

subsection \<open>Tables\<close>

lemma tab_rounds_end:
  assumes "open_link n l"
  shows "\<exists>evs l'. tab_rounds k properties l = (Returns evs, l') \<and> open_link n l'"
  using assms
proof (induction k arbitrary: l)
  case (Suc k)
  obtain r e l1 where c: "link_run (tab_query properties) l = (Returns (r, e), l1)" "sound_result r e" "open_link n l1"
    using link_run_sound [OF Suc.prems] by blast
  show ?case
  proof (cases e)
    case None
    with c(2) obtain rep where "r = Some rep" by (auto simp: sound_result_def split: option.splits)
    with None c(1) Suc.IH [OF c(3)] show ?thesis by auto
  next
    case (Some err)
    with c show ?thesis by (cases r) simp_all
  qed
qed simp

text \<open>An answer: data sentences and their \<open>!done\<close>.\<close>

definition table_answer :: "sentence list \<Rightarrow> bool" where
  "table_answer sens \<longleftrightarrow>
     sens \<noteq> [] \<and> sen_word (last sens) = ''!done'' \<and> (\<forall>sen \<in> set (butlast sens). sen_word sen = ''!re'')"

lemma yields_append: "yields s (xs @ ys) s' \<longleftrightarrow> (\<exists>s1. yields s xs s1 \<and> yields s1 ys s')"
  by (induction xs arbitrary: s) (auto split: prod.splits sum.splits)

lemma sync_loop_answer:
  assumes "table_answer sens" "yields s sens s'"
  shows "\<exists>rep. sync_loop empty_reply None s = ((Some rep, None), s') \<and> re_sens rep = butlast sens"
proof -
  obtain qs fin where sens: "sens = qs @ [fin]" "sen_word fin = ''!done''" "\<forall>sen \<in> set qs. sen_word sen = ''!re''"
    using assms(1) by (cases sens rule: rev_cases) (auto simp: table_answer_def)
  then obtain s1 where y: "yields s qs s1" "read_sentence s1 = (Inr fin, s')"
    using assms(2) by (auto simp: yields_snoc)
  have qs: "list_all quiet qs" "rows_of qs = qs"
    using sens(3) by (auto simp: list_all_iff quiet_words rows_of_def intro: filter_True)
  have "sync_loop empty_reply None s = sync_loop (empty_reply\<lparr>re_sens := qs\<rparr>) None s1"
    using sync_loop_passing [OF y(1) quiet_passing [OF qs(1)], of empty_reply None] qs
    by (simp add: quiet_no_trap empty_reply_def)
  also have "\<dots> = ((Some (empty_reply\<lparr>re_sens := qs, done_sen := Some fin\<rparr>), None), s')"
    using sync_loop_done [OF y(2) sens(2)] by simp
  finally show ?thesis using sens(1) by simp
qed

lemma tab_rounds_tables:
  assumes "list_all table_answer answers" "yields (cr (lclient l)) (concat answers) s'"
    and "healthy (cw (lclient l))" "\<not> wlocked (cw (lclient l))"
  shows "\<exists>l'. tab_rounds (length answers) properties l
      = (Returns (concat (map (\<lambda>sens. tab_table properties (butlast sens)) answers)), l')
    \<and> wire (cw (lclient l')) = wire (cw (lclient l))
        @ concat (replicate (length answers) (sentence_bytes (tab_query properties)))"
  using assms
proof (induction answers arbitrary: l)
  case (Cons sens answers)
  then obtain s1 where y: "yields (cr (lclient l)) sens s1" "yields s1 (concat answers) s'"
    by (auto simp: yields_append)
  obtain rep where rep: "sync_loop empty_reply None (cr (lclient l)) = ((Some rep, None), s1)" "re_sens rep = butlast sens"
    using sync_loop_answer [OF _ y(1)] Cons.prems(1) by auto
  obtain c' where c': "run_sync (tab_query properties) (lclient l) = (Returns (Some rep, None), c')" "cr c' = s1"
    "healthy (cw c')" "\<not> wlocked (cw c')"
    "wire (cw c') = wire (cw (lclient l)) @ sentence_bytes (tab_query properties)"
    using run_sync_sends [OF Cons.prems(3,4), of "tab_query properties"] rep(1) by auto
  have "\<exists>l'. tab_rounds (length answers) properties (l\<lparr>lclient := c'\<rparr>)
      = (Returns (concat (map (\<lambda>sens. tab_table properties (butlast sens)) answers)), l')
    \<and> wire (cw (lclient l')) = wire (cw c')
        @ concat (replicate (length answers) (sentence_bytes (tab_query properties)))"
    using Cons.IH [of "l\<lparr>lclient := c'\<rparr>"] Cons.prems(1) y(2) c' by simp
  with c' rep show ?case by (auto simp: link_run_def)
qed simp

subsection \<open>Properties\<close>

text \<open>\<open>examples/run\<close> comes to an end over every network with finite streams of bytes, in both modes and whatever
the device answers: it logs one error and exits with status 2, or it logs one complete, typed reply and has then
closed its connection exactly once.\<close>

lemma run_example_ends:
  "\<exists>evs l. run_example net nil_config fl i j = (Returns evs, l)
     \<and> ((\<exists>message err. evs = program_fatal message err)
       \<or> (\<exists>rep c s n l0. evs = [LogResults (Some rep)] \<and> typed_reply rep \<and> done_sen rep \<noteq> None
            \<and> example_connection net nil_config fl = Inr (c, s, n) \<and> l = Some l0
            \<and> closing (lclient l0) \<and> lrwc l0 = snd (close_handle net n)))"
proof -
  obtain e l where d: "example_dial net nil_config fl = (Returns e, l)"
    "e = None \<Longrightarrow> \<exists>c s n l0. example_connection net nil_config fl = Inr (c, s, n) \<and> l = Some l0 \<and> open_link n l0"
    using example_dial_open [of net nil_config fl] by blast
  show ?thesis
  proof (cases e)
    case (Some err)
    with d show ?thesis by (auto simp: run_example_def)
  next
    case None
    with d obtain c s n l0 where l0: "example_connection net nil_config fl = Inr (c, s, n)" "l = Some l0" "open_link n l0"
      by blast
    obtain r e' l' where c: "example_call i j fl l0 = (Returns (r, e'), l')" "sound_result r e'"
      "lrwc l' = n" "\<not> closing (lclient l')"
      using example_call_sound [OF l0(3)] by blast
    show ?thesis
    proof (cases e')
      case (Some err)
      with None d l0 c show ?thesis by (auto simp: run_example_def)
    next
      case e': None
      with c(2) obtain rep where "r = Some rep" "typed_reply rep" "done_sen rep \<noteq> None"
        by (auto simp: sound_result_def split: option.splits)
      with e' None d l0 c show ?thesis by (auto simp: run_example_def client_close_first)
    qed
  qed
qed

text \<open>\<open>examples/tab\<close> prints what the device answers: over a sound connection every round sends the same query and
prints one table, a line for every data sentence with the requested properties in order.\<close>

lemma tab_prints_answers:
  assumes "list_all table_answer answers" "yields (cr (lclient l)) (concat answers) s'"
    and "healthy (cw (lclient l))" "\<not> wlocked (cw (lclient l))"
  shows "\<exists>l'. tab_rounds (length answers) properties l
      = (Returns (concat (map (\<lambda>sens. tab_table properties (butlast sens)) answers)), l')
    \<and> wire (cw (lclient l')) = wire (cw (lclient l))
        @ concat (replicate (length answers) (sentence_bytes (tab_query properties)))"
  using tab_rounds_tables [OF assms] .

lemma tab_prints_answers_witness:
  "fst (tab_rounds 1 ''name,mtu'' (new_link \<lparr>sent = [], room = None, cerr = IoEOF\<rparr>
       \<lparr>pending = sentence_bytes [''!re'', ''=mtu=1500'', ''=name=e1''] @ sentence_bytes [''!done''], fin = IoEOF\<rparr> ()))
     = Returns [Printed (''e1'' @ [CHR 0x09]), Printed (''1500'' @ [CHR 0x09]), Printed [CHR 0x0A], Printed [CHR 0x0A]]"
proof -
  let ?l = "new_link \<lparr>sent = [], room = None, cerr = IoEOF\<rparr>
       \<lparr>pending = sentence_bytes [''!re'', ''=mtu=1500'', ''=name=e1''] @ sentence_bytes [''!done''], fin = IoEOF\<rparr> ()"
  let ?re = "\<lparr>sen_word = ''!re'', sen_tag = [], sen_list = [(''mtu'', ''1500''), (''name'', ''e1'')],
      sen_map = [(''mtu'', ''1500''), (''name'', ''e1'')]\<rparr>"
  let ?as = "[[?re, new_sentence\<lparr>sen_word := ''!done''\<rparr>]]"
  have "yields (cr (lclient ?l)) (concat ?as) \<lparr>pending = [], fin = IoEOF\<rparr>" by code_simp
  moreover have "list_all table_answer ?as" by (simp add: table_answer_def)
  moreover have "healthy (cw (lclient ?l))" "\<not> wlocked (cw (lclient ?l))"
    by (simp_all add: new_link_def new_client_def new_writer_def healthy_def)
  ultimately obtain l' where "tab_rounds (length ?as) ''name,mtu'' ?l
      = (Returns (concat (map (\<lambda>sens. tab_table ''name,mtu'' (butlast sens)) ?as)), l')"
    using tab_prints_answers by blast
  moreover have "tab_table ''name,mtu'' [?re]
      = [Printed (''e1'' @ [CHR 0x09]), Printed (''1500'' @ [CHR 0x09]), Printed [CHR 0x0A], Printed [CHR 0x0A]]"
    by code_simp
  ultimately show ?thesis by simp
qed

text \<open>The program never ends by itself and never panics: after any number of rounds it goes on or has exited with
status 2.\<close>

lemma tab_example_returns: "\<exists>evs l. tab_example net fl k = (Returns evs, l)"
proof -
  obtain e l where d: "client_dial net (tf_address fl) (tf_username fl) (tf_password fl) = (Returns e, l)"
    "e = None \<Longrightarrow> \<exists>n l0. l = Some l0 \<and> open_link n l0"
    using dial_context_open [of net Background "tf_address fl" "tf_username fl" "tf_password fl"]
    by (auto simp: client_dial_def)
  show ?thesis
  proof (cases e)
    case None
    with d obtain n l0 where "l = Some l0" "open_link n l0" by blast
    with d(1) None tab_rounds_end [of n l0 k "tf_properties fl"] show ?thesis by (auto simp: tab_example_def)
  qed (use d in \<open>simp add: tab_example_def\<close>)
qed

end
