(* ===== verification/Example_Listen.thy ===== *)
theory Example_Listen
  imports Example_Taps Example_Programs
begin

text \<open>
  The program \<open>examples/listen\<close>: its dial, then the goroutine that ranges over the listener's channel (in
  implicit mode \<open>main\<close> itself), the one that cancels the command after a while, the one that waits for
  the listener's context (\<open>listen.go\<close>), \<open>main\<close>, and the client's loop.  Once the process exits no goroutine
  takes a step.
\<close>

subsection \<open>The state\<close>

datatype listen_event = Update string | Failure string goerr

text \<open>
  \<open>CRange\<close> is the loop over the channel, left (\<open>CLeft\<close>) because the channel was closed or because the context
  was done; \<open>KWrite\<close> and \<open>WWrite\<close> hold the tag of a cancellation that waits for the writer, \<open>KWait\<close> the tag of
  the cancel call and whether its context was done first; \<open>MExit\<close> what \<open>Close\<close> has returned.
\<close>

datatype consumer = CStart | CHold | CRange | CLeft bool | COver bool
datatype canceller = KOff | KSleep | KHold string | KWrite string string | KWait string bool | KOver
datatype waiter = WOff | WWait | WWrite string | WOver
datatype main_pc = MStart | MWork | MClose | MExit "goerr option"

record listen_prog =
  lp_wire :: awire
  lp_events :: "listen_event list"
  lp_consumer :: consumer
  lp_canceller :: canceller
  lp_waiter :: waiter
  lp_main :: main_pc
  lp_tag :: string
  lp_taken :: nat
  lp_done :: bool
  lp_status :: "nat option"

record listen_mode =
  lm_explicit :: bool
  lm_words :: "string list"
  lm_show :: "sentence \<Rightarrow> string"

definition listen_start :: "listen_mode \<Rightarrow> awire \<Rightarrow> listen_prog" where
  "listen_start m w =
     \<lparr>lp_wire = w, lp_events = [], lp_consumer = CStart, lp_canceller = KOff, lp_waiter = WOff,
      lp_main = (if lm_explicit m then MStart else MWork), lp_tag = [], lp_taken = 0, lp_done = False,
      lp_status = None\<rparr>"

definition lp_wstep :: "wevent \<Rightarrow> listen_prog \<Rightarrow> listen_prog option" where
  "lp_wstep e s = map_option (\<lambda>w. s\<lparr>lp_wire := w\<rparr>) (wstep e (lp_wire s))"

definition listen_fatal :: "string \<Rightarrow> goerr \<Rightarrow> listen_prog \<Rightarrow> listen_prog" where
  "listen_fatal message err s = s\<lparr>lp_events := lp_events s @ [Failure message err], lp_status := Some 2\<rparr>"

subsection \<open>The consumer\<close>

text \<open>\<open>ListenArgsContext\<close> starts the asynchronous mode unless \<open>explicitAsync\<close> has; the queue size is 100.\<close>

definition lp_listen_begin :: "listen_mode \<Rightarrow> nat \<Rightarrow> listen_prog \<Rightarrow> listen_prog option" where
  "lp_listen_begin m k s =
     (if lp_consumer s = CStart \<and> lp_main s \<noteq> MStart
      then Option.bind (lp_wstep (WLocal EvAsync) s) (\<lambda>s1.
             map_option (\<lambda>s2. s2\<lparr>lp_consumer := CHold\<rparr>) (lp_wstep (WListenBegin (lm_words m) k 100 True) s1))
      else None)"

definition lp_listen_commit :: "nat \<Rightarrow> listen_prog \<Rightarrow> listen_prog option" where
  "lp_listen_commit k s =
     (case (lp_consumer s, holder_tag (awriter (aw_client (lp_wire s)))) of
        (CHold, Some t) \<Rightarrow>
          map_option (\<lambda>s1.
              if tap (lp_wire s1) t = None
              then listen_fatal ''could not listen'' (call_error (lp_wire s1)) s1
              else s1\<lparr>lp_consumer := CRange, lp_canceller := KSleep, lp_waiter := WWait, lp_tag := t\<rparr>)
            (lp_wstep (WListenCommit k) s)
      | _ \<Rightarrow> None)"

text \<open>The range over the channel: wait for a sentence, log it, leave.\<close>

definition lp_waits :: "listen_prog \<Rightarrow> string \<Rightarrow> bool" where
  "lp_waits s t \<longleftrightarrow> lp_consumer s = CRange \<and> t = lp_tag s \<and> tap_waits (lp_wire s) t (lp_taken s)"

definition lp_receive :: "listen_prog \<Rightarrow> listen_prog option" where
  "lp_receive s = (if lp_waits s (lp_tag s) then lp_wstep (WLocal (EvReceive (lp_tag s))) s else None)"

definition lp_update :: "listen_mode \<Rightarrow> listen_prog \<Rightarrow> listen_prog option" where
  "lp_update m s =
     (case (lp_consumer s, tap_next (lp_wire s) (lp_tag s) (lp_taken s)) of
        (CRange, Some sen) \<Rightarrow>
          Some (s\<lparr>lp_events := lp_events s @ [Update (lm_show m sen)], lp_taken := lp_taken s + 1\<rparr>)
      | _ \<Rightarrow> None)"

definition lp_closed :: "listen_prog \<Rightarrow> listen_prog option" where
  "lp_closed s =
     (if lp_consumer s = CRange \<and> tap_closed (lp_wire s) (lp_tag s) (lp_taken s)
      then Some (s\<lparr>lp_consumer := CLeft True\<rparr>) else None)"

text \<open>The context: in implicit mode the loop over the channel is left, in explicit mode \<open>main\<close> returns.\<close>

definition lp_ctx_done :: "listen_mode \<Rightarrow> listen_prog \<Rightarrow> listen_prog option" where
  "lp_ctx_done m s =
     (if \<not> lp_done s then None
      else if lm_explicit m then (if lp_main s = MWork then Some (s\<lparr>lp_main := MClose\<rparr>) else None)
      else (if lp_waits s (lp_tag s) then Some (s\<lparr>lp_consumer := CLeft False\<rparr>) else None))"

definition lp_check_err :: "listen_mode \<Rightarrow> listen_prog \<Rightarrow> listen_prog option" where
  "lp_check_err m s =
     (case lp_consumer s of
        CLeft b \<Rightarrow>
          (case tap_err (lp_wire s) (lp_tag s) of
             Some err \<Rightarrow> Some (listen_fatal ''received an error'' err s)
           | None \<Rightarrow> Some (s\<lparr>lp_consumer := COver b, lp_main := (if lm_explicit m then lp_main s else MClose)\<rparr>))
      | _ \<Rightarrow> None)"

subsection \<open>The canceller\<close>

definition cancel_failure :: "listen_mode \<Rightarrow> string" where
  "cancel_failure m = (if lm_explicit m then ''could not cancel context'' else ''could not cancel'')"

definition lp_cancel_begin :: "nat \<Rightarrow> listen_prog \<Rightarrow> listen_prog option" where
  "lp_cancel_begin k s =
     (if lp_canceller s = KSleep
      then Option.bind (lp_wstep (WRunBegin (cancel_words (lp_tag s)) k) s) (\<lambda>s1.
             map_option (\<lambda>t. s1\<lparr>lp_canceller := KHold t\<rparr>) (holder_tag (awriter (aw_client (lp_wire s1)))))
      else None)"

definition lp_cancel_commit :: "listen_mode \<Rightarrow> nat \<Rightarrow> listen_prog \<Rightarrow> listen_prog option" where
  "lp_cancel_commit m k s =
     (case lp_canceller s of
        KHold t \<Rightarrow>
          map_option (\<lambda>s1.
              if tap (lp_wire s1) t = None
              then listen_fatal (cancel_failure m)
                     (if atags (aw_client (lp_wire s)) = None then ErrAsyncLoopEnded else call_error (lp_wire s1)) s1
              else s1\<lparr>lp_canceller := KWait t False\<rparr>)
            (lp_wstep (WRunCommit k) s)
      | _ \<Rightarrow> None)"

text \<open>Only \<open>CancelContext\<close> minds its context: it sends a cancellation of its own and waits on.\<close>

definition next_cancel_tag :: "listen_prog \<Rightarrow> string" where
  "next_cancel_tag s = tag_of CHR ''c'' (anext (aw_client (lp_wire s)) + 1)"

definition loop_ended :: "listen_prog \<Rightarrow> bool" where
  "loop_ended s \<longleftrightarrow> atags (aw_client (lp_wire s)) = None"

definition lp_cancel_ctx :: "listen_mode \<Rightarrow> listen_prog \<Rightarrow> listen_prog option" where
  "lp_cancel_ctx m s =
     (case lp_canceller s of
        KWait t ctx \<Rightarrow>
          if \<not> ctx \<and> lm_explicit m \<and> lp_done s
          then map_option (\<lambda>s1. s1\<lparr>lp_canceller := (if loop_ended s then KWait t True else KWrite t (next_cancel_tag s))\<rparr>)
                 (lp_wstep (WCancelTag t) s)
          else None
      | _ \<Rightarrow> None)"

definition lp_cancel_ctx_write :: "nat \<Rightarrow> listen_prog \<Rightarrow> listen_prog option" where
  "lp_cancel_ctx_write k s =
     (case lp_canceller s of
        KWrite t c \<Rightarrow> map_option (\<lambda>s1. s1\<lparr>lp_canceller := KWait t True\<rparr>) (lp_wstep (WCancelWrite c k) s)
      | _ \<Rightarrow> None)"

definition lp_cancel_return :: "listen_mode \<Rightarrow> listen_prog \<Rightarrow> listen_prog option" where
  "lp_cancel_return m s =
     (case lp_canceller s of
        KWait t ctx \<Rightarrow>
          (case tap (lp_wire s) t of
             None \<Rightarrow> None
           | Some p \<Rightarrow>
               if \<not> pclosed p then None
               else (case snd (run_result (if ctx then Some CtxCanceled else None) p) of
                       Some err \<Rightarrow> Some (listen_fatal (cancel_failure m) err s)
                     | None \<Rightarrow> Some (s\<lparr>lp_canceller := KOver, lp_done := (lp_done s \<or> lm_explicit m)\<rparr>)))
      | _ \<Rightarrow> None)"

subsection \<open>The listener's context, main and the loop\<close>

definition lp_waiter_stop :: "listen_prog \<Rightarrow> listen_prog option" where
  "lp_waiter_stop s =
     (case (lp_waiter s, tap (lp_wire s) (lp_tag s)) of
        (WWait, Some p) \<Rightarrow> if pstop p = Some True then Some (s\<lparr>lp_waiter := WOver\<rparr>) else None
      | _ \<Rightarrow> None)"

definition lp_waiter_tag :: "listen_prog \<Rightarrow> listen_prog option" where
  "lp_waiter_tag s =
     (if lp_waiter s = WWait \<and> lp_done s
      then map_option (\<lambda>s1. s1\<lparr>lp_waiter := (if loop_ended s then WOver else WWrite (next_cancel_tag s))\<rparr>)
             (lp_wstep (WCancelTag (lp_tag s)) s)
      else None)"

definition lp_waiter_write :: "nat \<Rightarrow> listen_prog \<Rightarrow> listen_prog option" where
  "lp_waiter_write k s =
     (case lp_waiter s of
        WWrite c \<Rightarrow> map_option (\<lambda>s1. s1\<lparr>lp_waiter := WOver\<rparr>) (lp_wstep (WCancelWrite c k) s)
      | _ \<Rightarrow> None)"

text \<open>\<open>explicitAsync\<close>: \<open>Async\<close>, and the error channel it returned once the loop has reported.\<close>

definition lp_async :: "listen_prog \<Rightarrow> listen_prog option" where
  "lp_async s =
     (if lp_main s = MStart
      then map_option (\<lambda>s1. s1\<lparr>lp_main := MWork\<rparr>) (lp_wstep (WLocal EvAsync) s) else None)"

definition lp_async_error :: "listen_mode \<Rightarrow> listen_prog \<Rightarrow> listen_prog option" where
  "lp_async_error m s =
     (if lm_explicit m \<and> lp_main s = MWork
      then (case loop_report (aw_client (lp_wire s)) \<lparr>esent = [], eclosed = False\<rparr> of
              None \<Rightarrow> None
            | Some ch \<Rightarrow>
                (case esent ch of
                   err # _ \<Rightarrow> Some (listen_fatal ''received an error'' err s)
                 | [] \<Rightarrow> Some (s\<lparr>lp_main := MClose, lp_done := True\<rparr>)))
      else None)"

text \<open>
  \<open>main\<close> closes the client, and the goroutines go on until the process exits; the deferred \<open>Close\<close> in between finds
  the client closed and reports nothing.
\<close>

definition lp_close :: "goerr option \<Rightarrow> listen_prog \<Rightarrow> listen_prog option" where
  "lp_close close_err s =
     (if lp_main s = MClose
      then map_option (\<lambda>s1. s1\<lparr>lp_main := MExit close_err\<rparr>) (lp_wstep (WLocal EvClose) s)
      else None)"

definition lp_exit :: "listen_prog \<Rightarrow> listen_prog option" where
  "lp_exit s =
     (case lp_main s of
        MExit (Some err) \<Rightarrow> Some (listen_fatal ''could not close client'' err s)
      | MExit None \<Rightarrow> Some (s\<lparr>lp_status := Some 0\<rparr>)
      | _ \<Rightarrow> None)"

definition lp_loop :: "wevent \<Rightarrow> listen_prog \<Rightarrow> listen_prog option" where
  "lp_loop e s = (if may_step (lp_waits s) e (lp_wire s) then lp_wstep e s else None)"

subsection \<open>Runs\<close>

datatype lp_event =
    LpListenBegin nat | LpListenCommit nat | LpReceive | LpUpdate | LpClosed | LpCtxDone | LpCheckErr
  | LpCancelBegin nat | LpCancelCommit nat | LpCancelCtx | LpCancelCtxWrite nat | LpCancelReturn
  | LpWaiterStop | LpWaiterTag | LpWaiterWrite nat
  | LpAsync | LpAsyncError | LpInterrupt | LpClose "goerr option" | LpExit | LpLoop wevent

fun lp_move :: "listen_mode \<Rightarrow> lp_event \<Rightarrow> listen_prog \<Rightarrow> listen_prog option" where
  "lp_move m (LpListenBegin k) s = lp_listen_begin m k s"
| "lp_move m (LpListenCommit k) s = lp_listen_commit k s"
| "lp_move m LpReceive s = lp_receive s"
| "lp_move m LpUpdate s = lp_update m s"
| "lp_move m LpClosed s = lp_closed s"
| "lp_move m LpCtxDone s = lp_ctx_done m s"
| "lp_move m LpCheckErr s = lp_check_err m s"
| "lp_move m (LpCancelBegin k) s = lp_cancel_begin k s"
| "lp_move m (LpCancelCommit k) s = lp_cancel_commit m k s"
| "lp_move m LpCancelCtx s = lp_cancel_ctx m s"
| "lp_move m (LpCancelCtxWrite k) s = lp_cancel_ctx_write k s"
| "lp_move m LpCancelReturn s = lp_cancel_return m s"
| "lp_move m LpWaiterStop s = lp_waiter_stop s"
| "lp_move m LpWaiterTag s = lp_waiter_tag s"
| "lp_move m (LpWaiterWrite k) s = lp_waiter_write k s"
| "lp_move m LpAsync s = lp_async s"
| "lp_move m LpAsyncError s = lp_async_error m s"
| "lp_move m LpInterrupt s = Some (s\<lparr>lp_done := True\<rparr>)"
| "lp_move m (LpClose e) s = lp_close e s"
| "lp_move m LpExit s = lp_exit s"
| "lp_move m (LpLoop e) s = lp_loop e s"

definition lp_step :: "listen_mode \<Rightarrow> lp_event \<Rightarrow> listen_prog \<Rightarrow> listen_prog option" where
  "lp_step m e s = (if lp_status s = None then lp_move m e s else None)"

inductive lp_reach :: "listen_mode \<Rightarrow> writer \<Rightarrow> stream \<Rightarrow> listen_prog \<Rightarrow> bool" for m w0 src where
  lp_reach_start: "\<not> wlocked w0 \<Longrightarrow> lp_reach m w0 src (listen_start m (wire_init w0 src))"
| lp_reach_step: "lp_reach m w0 src s \<Longrightarrow> lp_step m e s = Some s' \<Longrightarrow> lp_reach m w0 src s'"

fun lp_run :: "listen_mode \<Rightarrow> lp_event list \<Rightarrow> listen_prog \<Rightarrow> listen_prog option" where
  "lp_run m [] s = Some s"
| "lp_run m (e # es) s = (case lp_step m e s of None \<Rightarrow> None | Some s' \<Rightarrow> lp_run m es s')"

text \<open>\<open>main\<close> up to the choice of the mode; \<open>ctx\<close> is the context that an interrupt cancels.\<close>

definition listen_dial ::
  "('x, 't, 'n) network \<Rightarrow> 't \<Rightarrow> 'x dctx \<Rightarrow> run_flags \<Rightarrow> goerr option outcome \<times> 'n link option" where
  "listen_dial net nil_config ctx fl =
     (if rf_tls fl
      then dial_tls_context net ctx (rf_address fl) (rf_username fl) (rf_password fl) nil_config
      else dial_context net ctx (rf_address fl) (rf_username fl) (rf_password fl))"

definition listen_mode_of :: "(string \<Rightarrow> string) \<Rightarrow> run_flags \<Rightarrow> listen_mode" where
  "listen_mode_of q fl =
     \<lparr>lm_explicit = rf_async fl, lm_words = split_byte CHR '' '' (rf_command fl), lm_show = sentence_string q\<rparr>"

definition listen_main ::
  "('x, 't, 'n) network \<Rightarrow> 't \<Rightarrow> 'x dctx \<Rightarrow> run_flags
     \<Rightarrow> (listen_event list \<times> nat + listen_prog) outcome \<times> 'n link option" where
  "listen_main net nil_config ctx fl =
     (case listen_dial net nil_config ctx fl of
        (Returns (Some err), l) \<Rightarrow> (Returns (Inl ([Failure ''could not dial'' err], 2)), l)
      | (Returns None, Some l) \<Rightarrow>
          (Returns (Inr (listen_start (listen_mode_of (quoted net) fl) (wire_init (cw (lclient l)) (cr (lclient l))))), Some l)
      | (Returns None, None) \<Rightarrow> (Panics nil_deref, None)
      | (Panics m, l) \<Rightarrow> (Panics m, l)
      | (Blocks, l) \<Rightarrow> (Blocks, l))"

text \<open>The dial fails with one line and status 2, or the program above starts on the dialled client.\<close>

lemma listen_main_starts:
  "\<exists>r l. listen_main net nil_config ctx fl = (Returns r, l)
     \<and> (case r of Inl x \<Rightarrow> \<exists>err. x = ([Failure ''could not dial'' err], 2)
        | Inr s \<Rightarrow> \<exists>w0 src. lp_reach (listen_mode_of (quoted net) fl) w0 src s)"
proof -
  obtain e l where d: "listen_dial net nil_config ctx fl = (Returns e, l)"
    "e = None \<longrightarrow> (\<exists>n l0. l = Some l0 \<and> open_link n l0)"
    using dial_context_open [of net ctx "rf_address fl" "rf_username fl" "rf_password fl"]
      dial_tls_context_open [of net ctx "rf_address fl" "rf_username fl" "rf_password fl" nil_config]
    by (cases "rf_tls fl") (auto simp: listen_dial_def)
  show ?thesis
  proof (cases e)
    case None
    with d obtain n l0 where "l = Some l0" "open_link n l0" by blast
    with d(1) None lp_reach.lp_reach_start [of "cw (lclient l0)" "listen_mode_of (quoted net) fl" "cr (lclient l0)"]
    show ?thesis by (auto simp: listen_main_def open_link_def)
  qed (use d in \<open>simp add: listen_main_def\<close>)
qed

lemma lp_reach_run: "lp_reach m w0 src s \<Longrightarrow> lp_run m es s = Some s' \<Longrightarrow> lp_reach m w0 src s'"
  by (induction es arbitrary: s) (auto split: option.splits intro: lp_reach.lp_reach_step)

subsection \<open>Invariants\<close>

definition lp_updates :: "listen_prog \<Rightarrow> string list" where
  "lp_updates s = concat (map (\<lambda>e. case e of Update x \<Rightarrow> [x] | Failure m err \<Rightarrow> []) (lp_events s))"

definition early :: "listen_prog \<Rightarrow> bool" where
  "early s \<longleftrightarrow> lp_consumer s = CStart \<or> lp_consumer s = CHold"

definition lp_early :: "listen_prog \<Rightarrow> bool" where
  "lp_early s \<longleftrightarrow>
     lp_canceller s = KOff \<and> lp_waiter s = WOff \<and> lp_taken s = 0 \<and> lp_updates s = []
     \<and> (lp_consumer s = CHold \<and> lp_status s = None \<longrightarrow>
          (\<exists>t. awriter (aw_client (lp_wire s)) = Some (HListen t 100 (Some False))))"

definition lp_late :: "listen_mode \<Rightarrow> listen_prog \<Rightarrow> bool" where
  "lp_late m s \<longleftrightarrow>
     tap_ok (lm_show m) (lp_wire s) (lp_tag s) (lp_taken s) (lp_updates s)
     \<and> (lp_consumer s = CLeft True \<or> lp_consumer s = COver True \<longrightarrow> tap_closed (lp_wire s) (lp_tag s) (lp_taken s))
     \<and> (lp_consumer s = COver True \<longrightarrow> tap_done (lp_wire s) (lp_tag s))"

definition lp_inv :: "listen_mode \<Rightarrow> listen_prog \<Rightarrow> bool" where
  "lp_inv m s \<longleftrightarrow> (if early s then lp_early s else lp_late m s)"

text \<open>A step that leaves the consumer alone, on the wire or beside it.\<close>

definition wire_moves :: "listen_prog \<Rightarrow> listen_prog \<Rightarrow> bool" where
  "wire_moves s s' \<longleftrightarrow> lp_wire s' = lp_wire s \<or> (\<exists>e. wstep e (lp_wire s) = Some (lp_wire s'))"

lemma lp_inv_frame:
  assumes "lp_inv m s" "wreaches w0 src (lp_wire s)" "wire_moves s s'" "lp_status s = None"
    and "lp_consumer s' = lp_consumer s" "lp_taken s' = lp_taken s" "lp_tag s' = lp_tag s" "lp_updates s' = lp_updates s"
    and "early s \<Longrightarrow> lp_canceller s' = lp_canceller s \<and> lp_waiter s' = lp_waiter s
      \<and> (lp_status s' = None \<longrightarrow> awriter (aw_client (lp_wire s')) = awriter (aw_client (lp_wire s)))"
  shows "lp_inv m s'"
proof (cases "early s")
  case True
  moreover from this assms(5) have "early s'" by (simp add: early_def)
  ultimately show ?thesis using assms(1,4-9) by (auto simp: lp_inv_def lp_early_def)
next
  case False
  then have l: "lp_late m s" "\<not> early s'" using assms(1,5) by (auto simp: lp_inv_def early_def)
  have "lp_late m s'"
  proof (cases "lp_wire s' = lp_wire s")
    case True
    with l assms(5-8) show ?thesis by (simp add: lp_late_def)
  next
    case False
    then obtain e where e: "wstep e (lp_wire s) = Some (lp_wire s')" using assms(3) by (auto simp: wire_moves_def)
    with l(1) assms(2,5-8) show ?thesis
      by (auto simp: lp_late_def intro: tap_ok_step tap_closed_step tap_done_step)
  qed
  with l(2) show ?thesis by (simp add: lp_inv_def)
qed

lemma lp_updates_simps [simp]:
  "lp_updates (s\<lparr>lp_wire := w\<rparr>) = lp_updates s" "lp_updates (s\<lparr>lp_consumer := c\<rparr>) = lp_updates s"
  "lp_updates (s\<lparr>lp_canceller := k\<rparr>) = lp_updates s" "lp_updates (s\<lparr>lp_waiter := wt\<rparr>) = lp_updates s"
  "lp_updates (s\<lparr>lp_main := mp\<rparr>) = lp_updates s" "lp_updates (s\<lparr>lp_tag := t\<rparr>) = lp_updates s"
  "lp_updates (s\<lparr>lp_taken := n\<rparr>) = lp_updates s" "lp_updates (s\<lparr>lp_done := b\<rparr>) = lp_updates s"
  "lp_updates (s\<lparr>lp_status := st\<rparr>) = lp_updates s"
  "lp_updates (s\<lparr>lp_events := lp_events s @ [Failure m err]\<rparr>) = lp_updates s"
  "lp_updates (s\<lparr>lp_events := lp_events s @ [Update x]\<rparr>) = lp_updates s @ [x]"
  by (simp_all add: lp_updates_def)

lemma lp_wstep_elim:
  assumes "lp_wstep e s = Some s'"
  obtains w where "wstep e (lp_wire s) = Some w" "s' = s\<lparr>lp_wire := w\<rparr>"
  using assms by (auto simp: lp_wstep_def)

lemma listen_fatal_fields [simp]:
  "lp_wire (listen_fatal msg err s) = lp_wire s" "lp_consumer (listen_fatal msg err s) = lp_consumer s"
  "lp_taken (listen_fatal msg err s) = lp_taken s" "lp_tag (listen_fatal msg err s) = lp_tag s"
  "lp_updates (listen_fatal msg err s) = lp_updates s" "lp_canceller (listen_fatal msg err s) = lp_canceller s"
  "lp_waiter (listen_fatal msg err s) = lp_waiter s" "lp_status (listen_fatal msg err s) = Some 2"
  by (simp_all add: listen_fatal_def)

lemma lp_inv_fatal: "lp_inv m s \<Longrightarrow> lp_inv m (listen_fatal message err s)"
  by (auto simp: lp_inv_def early_def lp_early_def lp_late_def)

lemma listen_begin_inv:
  assumes "lp_inv m s" "wreaches w0 src (lp_wire s)" "lp_status s = None" "lp_listen_begin m k s = Some s'"
  shows "lp_inv m s' \<and> wreaches w0 src (lp_wire s')"
proof -
  have c: "lp_consumer s = CStart" using assms(4) by (auto simp: lp_listen_begin_def split: if_splits)
  with assms(4) obtain s1 s2 where s1: "lp_wstep (WLocal EvAsync) s = Some s1"
    "lp_wstep (WListenBegin (lm_words m) k 100 True) s1 = Some s2" "s' = s2\<lparr>lp_consumer := CHold\<rparr>"
    by (auto simp: lp_listen_begin_def bind_eq_Some_conv split: if_splits)
  obtain w1 where w1: "wstep (WLocal EvAsync) (lp_wire s) = Some w1" "s1 = s\<lparr>lp_wire := w1\<rparr>"
    using s1(1) by (rule lp_wstep_elim)
  obtain w2 where "wstep (WListenBegin (lm_words m) k 100 True) (lp_wire s1) = Some w2" "s2 = s1\<lparr>lp_wire := w2\<rparr>"
    using s1(2) by (rule lp_wstep_elim)
  with w1(2) have w2: "wstep (WListenBegin (lm_words m) k 100 True) w1 = Some w2" "s' = s\<lparr>lp_wire := w2, lp_consumer := CHold\<rparr>"
    using s1(3) by simp_all
  have "\<exists>t. awriter (aw_client w2) = Some (HListen t 100 (Some False))" using w2(1) by (rule listen_begin_holds)
  moreover have "lp_early s" using assms(1) c by (simp add: lp_inv_def early_def)
  moreover have "wreaches w0 src w2"
    using assms(2) w1(1) w2(1) by (blast intro: wreaches.wreaches_next)
  ultimately show ?thesis
    using assms(1,3) w2(2) by (auto simp: lp_inv_def early_def lp_early_def)
qed

lemma listen_commit_inv:
  assumes "lp_inv m s" "wreaches w0 src (lp_wire s)" "lp_status s = None" "lp_listen_commit k s = Some s'"
  shows "lp_inv m s' \<and> wreaches w0 src (lp_wire s')"
proof -
  have c: "lp_consumer s = CHold"
    using assms(4) by (auto simp: lp_listen_commit_def split: consumer.splits option.splits)
  with assms(1) have e: "lp_early s" by (simp add: lp_inv_def early_def)
  with c assms(3) obtain t where h: "awriter (aw_client (lp_wire s)) = Some (HListen t 100 (Some False))"
    by (auto simp: lp_early_def)
  with c assms(4) obtain s1 where s1: "lp_wstep (WListenCommit k) s = Some s1"
    "s' = (if tap (lp_wire s1) t = None then listen_fatal ''could not listen'' (call_error (lp_wire s1)) s1
       else s1\<lparr>lp_consumer := CRange, lp_canceller := KSleep, lp_waiter := WWait, lp_tag := t\<rparr>)"
    by (auto simp: lp_listen_commit_def)
  obtain w where w: "wstep (WListenCommit k) (lp_wire s) = Some w" "s1 = s\<lparr>lp_wire := w\<rparr>"
    using s1(1) by (rule lp_wstep_elim)
  have r: "wreaches w0 src w" using assms(2) w(1) by (rule wreaches.wreaches_next)
  show ?thesis
  proof (cases "tap w t")
    case None
    with s1(2) w(2) have "s' = listen_fatal ''could not listen'' (call_error w) (s\<lparr>lp_wire := w\<rparr>)" by simp
    with e c r show ?thesis by (auto simp: lp_inv_def early_def lp_early_def)
  next
    case (Some p)
    then have "tap_ok (lm_show m) w t 0 []" using tap_ok_new [OF assms(2) w(1) h] by simp
    moreover have "s' = s\<lparr>lp_wire := w, lp_consumer := CRange, lp_canceller := KSleep, lp_waiter := WWait, lp_tag := t\<rparr>"
      using s1(2) w(2) Some by simp
    ultimately show ?thesis
      using e r by (auto simp: lp_inv_def early_def lp_early_def lp_late_def)
  qed
qed

text \<open>The steps of the other goroutines.\<close>

lemma other_inv:
  assumes "lp_inv m s" "wreaches w0 src (lp_wire s)" "lp_status s = None" "lp_wstep e s = Some s1"
    and "\<not> early s \<or> awriter (aw_client (lp_wire s1)) = awriter (aw_client (lp_wire s))"
    and "lp_wire s' = lp_wire s1" "lp_consumer s' = lp_consumer s1" "lp_taken s' = lp_taken s1" "lp_tag s' = lp_tag s1"
      "lp_updates s' = lp_updates s1"
    and "early s \<longrightarrow> lp_canceller s' = lp_canceller s1 \<and> lp_waiter s' = lp_waiter s1"
  shows "lp_inv m s' \<and> wreaches w0 src (lp_wire s')"
proof -
  obtain w where w: "wstep e (lp_wire s) = Some w" "s1 = s\<lparr>lp_wire := w\<rparr>" using assms(4) by (rule lp_wstep_elim)
  have "wreaches w0 src w" using assms(2) w(1) by (rule wreaches.wreaches_next)
  moreover have "lp_inv m s'"
    using assms(5-11) w
    by (intro lp_inv_frame [OF assms(1,2) _ assms(3)]) (auto simp: wire_moves_def)
  ultimately show ?thesis using assms(6) w(2) by simp
qed

lemma not_early: "lp_inv m s \<Longrightarrow> lp_canceller s \<noteq> KOff \<or> lp_waiter s \<noteq> WOff \<Longrightarrow> \<not> early s"
  by (auto simp: lp_inv_def lp_early_def split: if_splits)

lemma lp_still: "lp_inv m s \<Longrightarrow> lp_wire s' = lp_wire s \<Longrightarrow> lp_consumer s' = lp_consumer s \<Longrightarrow> lp_taken s' = lp_taken s \<Longrightarrow>
    lp_tag s' = lp_tag s \<Longrightarrow> lp_updates s' = lp_updates s \<Longrightarrow> lp_status s' = lp_status s \<Longrightarrow>
    (early s \<longrightarrow> lp_canceller s' = lp_canceller s \<and> lp_waiter s' = lp_waiter s) \<Longrightarrow> lp_inv m s'"
  by (auto simp: lp_inv_def early_def lp_early_def lp_late_def)

lemma canceller_inv:
  assumes "lp_inv m s" "wreaches w0 src (lp_wire s)" "lp_status s = None"
    and "lp_cancel_begin k s = Some s' \<or> lp_cancel_commit m k s = Some s' \<or> lp_cancel_ctx m s = Some s'
      \<or> lp_cancel_ctx_write k s = Some s' \<or> lp_cancel_return m s = Some s'"
  shows "lp_inv m s' \<and> wreaches w0 src (lp_wire s')"
proof -
  have l: "\<not> early s"
    using assms(4) by (intro not_early [OF assms(1)])
      (auto simp: lp_cancel_begin_def lp_cancel_commit_def lp_cancel_ctx_def lp_cancel_ctx_write_def lp_cancel_return_def
        split: if_splits canceller.splits)
  note other = other_inv [OF assms(1-3) _ disjI1 [OF l]]
  from assms(4) consider (starts) "lp_cancel_begin k s = Some s'" | (commit) "lp_cancel_commit m k s = Some s'"
    | (ctx) "lp_cancel_ctx m s = Some s'" | (writes) "lp_cancel_ctx_write k s = Some s'"
    | (ret) "lp_cancel_return m s = Some s'" by blast
  then show ?thesis
  proof cases
    case starts
    then obtain s1 t where "lp_wstep (WRunBegin (cancel_words (lp_tag s)) k) s = Some s1" "s' = s1\<lparr>lp_canceller := KHold t\<rparr>"
      by (auto simp: lp_cancel_begin_def bind_eq_Some_conv split: if_splits)
    then show ?thesis by (intro other) (use l in auto)
  next
    case commit
    then obtain s1 b err t where s1: "lp_wstep (WRunCommit k) s = Some s1"
      "s' = (if b then listen_fatal (cancel_failure m) err s1 else s1\<lparr>lp_canceller := KWait t False\<rparr>)"
      by (auto simp: lp_cancel_commit_def split: canceller.splits)
    show ?thesis by (rule other [OF s1(1)]) (use l s1(2) in auto)
  next
    case ctx
    then obtain s1 t c where "lp_wstep (WCancelTag t) s = Some s1" "s' = s1\<lparr>lp_canceller := c\<rparr>"
      by (auto simp: lp_cancel_ctx_def split: canceller.splits if_splits)
    then show ?thesis by (intro other) (use l in auto)
  next
    case writes
    then obtain s1 t c where "lp_wstep (WCancelWrite t k) s = Some s1" "s' = s1\<lparr>lp_canceller := c\<rparr>"
      by (auto simp: lp_cancel_ctx_write_def split: canceller.splits)
    then show ?thesis by (intro other) (use l in auto)
  next
    case ret
    then have "(\<exists>msg err. s' = listen_fatal msg err s) \<or> (\<exists>c b. s' = s\<lparr>lp_canceller := c, lp_done := b\<rparr>)"
      by (auto simp: lp_cancel_return_def split: canceller.splits option.splits if_splits)
    with assms(1,2) l show ?thesis by (auto intro: lp_inv_fatal lp_still)
  qed
qed

lemma waiter_inv:
  assumes "lp_inv m s" "wreaches w0 src (lp_wire s)" "lp_status s = None"
    and "lp_waiter_stop s = Some s' \<or> lp_waiter_tag s = Some s' \<or> lp_waiter_write k s = Some s'"
  shows "lp_inv m s' \<and> wreaches w0 src (lp_wire s')"
proof -
  have l: "\<not> early s"
    using assms(4) by (intro not_early [OF assms(1)])
      (auto simp: lp_waiter_stop_def lp_waiter_tag_def lp_waiter_write_def split: if_splits waiter.splits)
  note other = other_inv [OF assms(1-3) _ disjI1 [OF l]]
  from assms(4) consider (stop) "lp_waiter_stop s = Some s'" | (tag) "lp_waiter_tag s = Some s'"
    | (writes) "lp_waiter_write k s = Some s'" by blast
  then show ?thesis
  proof cases
    case stop
    then have "s' = s\<lparr>lp_waiter := WOver\<rparr>" by (auto simp: lp_waiter_stop_def split: waiter.splits option.splits if_splits)
    with assms(1,2) l show ?thesis by (auto intro: lp_still)
  next
    case tag
    then obtain s1 c where "lp_wstep (WCancelTag (lp_tag s)) s = Some s1" "s' = s1\<lparr>lp_waiter := c\<rparr>"
      by (auto simp: lp_waiter_tag_def split: if_splits)
    then show ?thesis by (intro other) (use l in auto)
  next
    case writes
    then obtain s1 t where "lp_wstep (WCancelWrite t k) s = Some s1" "s' = s1\<lparr>lp_waiter := WOver\<rparr>"
      by (auto simp: lp_waiter_write_def split: waiter.splits)
    then show ?thesis by (intro other) (use l in auto)
  qed
qed

text \<open>The steps of the consumer.\<close>

lemma consumer_inv:
  assumes "lp_inv m s" "wreaches w0 src (lp_wire s)" "lp_status s = None"
    and "lp_receive s = Some s' \<or> lp_update m s = Some s' \<or> lp_closed s = Some s' \<or> lp_check_err m s = Some s'"
  shows "lp_inv m s' \<and> wreaches w0 src (lp_wire s')"
proof -
  have l: "\<not> early s"
    using assms(4)
    by (auto simp: early_def lp_receive_def lp_waits_def lp_update_def lp_closed_def lp_check_err_def
        split: if_splits consumer.splits option.splits)
  then have late: "lp_late m s" using assms(1) by (simp add: lp_inv_def)
  from assms(4) consider (rec) "lp_receive s = Some s'" | (upd) "lp_update m s = Some s'" | (cl) "lp_closed s = Some s'"
    | (chk) "lp_check_err m s = Some s'" by blast
  then show ?thesis
  proof cases
    case rec
    then have "lp_wstep (WLocal (EvReceive (lp_tag s))) s = Some s'" by (auto simp: lp_receive_def split: if_splits)
    then show ?thesis by (rule other_inv [OF assms(1-3)]) (use l in auto)
  next
    case upd
    then obtain sen where sen: "lp_consumer s = CRange" "tap_next (lp_wire s) (lp_tag s) (lp_taken s) = Some sen"
      "s' = s\<lparr>lp_events := lp_events s @ [Update (lm_show m sen)], lp_taken := lp_taken s + 1\<rparr>"
      by (auto simp: lp_update_def split: consumer.splits option.splits)
    with late tap_ok_next [OF _ sen(2)] have "lp_late m s'" by (auto simp: lp_late_def)
    with sen assms(2) show ?thesis by (simp add: lp_inv_def early_def)
  next
    case cl
    then have "s' = s\<lparr>lp_consumer := CLeft True\<rparr>" "tap_closed (lp_wire s) (lp_tag s) (lp_taken s)"
      by (auto simp: lp_closed_def split: if_splits)
    with late assms(2) show ?thesis by (simp add: lp_inv_def early_def lp_late_def)
  next
    case chk
    then obtain b where b: "lp_consumer s = CLeft b" by (auto simp: lp_check_err_def split: consumer.splits)
    show ?thesis
    proof (cases "tap_err (lp_wire s) (lp_tag s)")
      case None
      with chk b have s': "\<exists>mp. s' = s\<lparr>lp_consumer := COver b, lp_main := mp\<rparr>" by (auto simp: lp_check_err_def)
      have "b \<Longrightarrow> tap_done (lp_wire s) (lp_tag s)"
        using late b tap_closed_done [OF assms(2) _ None] by (cases b) (auto simp: lp_late_def)
      with s' late b assms(2) show ?thesis by (cases b) (auto simp: lp_inv_def early_def lp_late_def)
    next
      case (Some err)
      with chk b have "s' = listen_fatal ''received an error'' err s" by (auto simp: lp_check_err_def)
      with assms(1,2) lp_inv_fatal show ?thesis by simp
    qed
  qed
qed

lemma lp_step_inv:
  assumes "lp_inv m s" "wreaches w0 src (lp_wire s)" "lp_step m e s = Some s'"
  shows "lp_inv m s' \<and> wreaches w0 src (lp_wire s')"
proof -
  have st: "lp_status s = None" and mv: "lp_move m e s = Some s'"
    using assms(3) by (simp_all add: lp_step_def split: if_splits)
  note other = other_inv [OF assms(1,2) st]
  show ?thesis
  proof (cases e)
    case (LpListenBegin k)
    with mv listen_begin_inv [OF assms(1,2) st] show ?thesis by simp
  next
    case (LpListenCommit k)
    with mv listen_commit_inv [OF assms(1,2) st] show ?thesis by simp
  next
    case LpCtxDone
    with mv have "(\<exists>mp. s' = s\<lparr>lp_main := mp\<rparr>) \<or> lp_consumer s = CRange \<and> s' = s\<lparr>lp_consumer := CLeft False\<rparr>"
      by (auto simp: lp_ctx_done_def lp_waits_def split: if_splits)
    then show ?thesis
    proof
      assume "\<exists>mp. s' = s\<lparr>lp_main := mp\<rparr>"
      with assms(1,2) show ?thesis by (auto intro: lp_still)
    next
      assume "lp_consumer s = CRange \<and> s' = s\<lparr>lp_consumer := CLeft False\<rparr>"
      with assms(1,2) show ?thesis by (auto simp: lp_inv_def early_def lp_late_def)
    qed
  next
    case LpAsync
    with mv obtain s1 where s1: "lp_wstep (WLocal EvAsync) s = Some s1" "s' = s1\<lparr>lp_main := MWork\<rparr>"
      by (auto simp: lp_async_def split: if_splits)
    then have "awriter (aw_client (lp_wire s1)) = awriter (aw_client (lp_wire s))"
      by (auto simp: lp_wstep_def start_async_def)
    with s1 show ?thesis by (intro other [OF s1(1)]) auto
  next
    case LpAsyncError
    with mv have "(\<exists>msg err. s' = listen_fatal msg err s) \<or> s' = s\<lparr>lp_main := MClose, lp_done := True\<rparr>"
      by (auto simp: lp_async_error_def split: if_splits option.splits list.splits)
    with assms(1,2) show ?thesis by (auto intro: lp_inv_fatal lp_still)
  next
    case LpInterrupt
    with mv assms(1,2) show ?thesis by (auto intro: lp_still)
  next
    case (LpClose x)
    with mv obtain s1 where s1: "lp_wstep (WLocal EvClose) s = Some s1" "s' = s1\<lparr>lp_main := MExit x\<rparr>"
      by (auto simp: lp_close_def split: if_splits)
    then have "awriter (aw_client (lp_wire s1)) = awriter (aw_client (lp_wire s))" by (auto simp: lp_wstep_def)
    with s1 show ?thesis by (intro other [OF s1(1)]) auto
  next
    case LpExit
    with mv have "(\<exists>msg err. s' = listen_fatal msg err s) \<or> s' = s\<lparr>lp_status := Some 0\<rparr>"
      by (auto simp: lp_exit_def split: main_pc.splits option.splits)
    then show ?thesis
    proof
      assume "s' = s\<lparr>lp_status := Some 0\<rparr>"
      with assms(1,2) show ?thesis by (auto simp: lp_inv_def early_def lp_early_def lp_late_def)
    qed (use assms(1,2) in \<open>auto intro: lp_inv_fatal\<close>)
  next
    case (LpLoop ev)
    with mv have l: "loop_wevent ev" "lp_wstep ev s = Some s'" by (auto simp: lp_loop_def may_step_def split: if_splits)
    then obtain w where w: "wstep ev (lp_wire s) = Some w" "s' = s\<lparr>lp_wire := w\<rparr>" by (auto elim: lp_wstep_elim)
    with loop_wevent_writer [OF l(1) w(1)] w(2) show ?thesis by (intro other [OF l(2)]) auto
  qed (use mv consumer_inv [OF assms(1,2) st, of s'] canceller_inv [OF assms(1,2) st] waiter_inv [OF assms(1,2) st] in auto)
qed

lemma lp_reach_inv: "lp_reach m w0 src s \<Longrightarrow> lp_inv m s \<and> wreaches w0 src (lp_wire s)"
proof (induction rule: lp_reach.induct)
  case lp_reach_start
  then show ?case
    by (auto simp: lp_inv_def early_def lp_early_def listen_start_def lp_updates_def wire_init_def async_init_def
        intro: wreaches.wreaches_init [unfolded wire_init_def async_init_def])
next
  case (lp_reach_step s e s')
  then show ?case using lp_step_inv [of m s w0 src e s'] by simp
qed

subsection \<open>Properties\<close>

definition sample_mode :: listen_mode where
  "sample_mode = \<lparr>lm_explicit = False, lm_words = [''/log/listen''], lm_show = sen_word\<rparr>"

definition sample_answer :: stream where
  "sample_answer =
     \<lparr>pending = sentence_bytes [''!re'', ''.tag=l1''] @ sentence_bytes [''!done'', ''.tag=l1''], fin = IoEOF\<rparr>"

definition sample_listen :: "lp_event list" where
  "sample_listen =
     [LpListenBegin 9, LpListenCommit 9, LpLoop WRead, LpLoop WLookup, LpLoop (WLocal (EvProcess False)), LpReceive,
      LpUpdate, LpLoop WRead, LpLoop WLookup, LpLoop (WLocal (EvProcess False)), LpLoop (WLocal EvDelete),
      LpLoop (WLocal EvCloseReply), LpClosed, LpCheckErr, LpClose None, LpExit]"

lemma sample_listen_reach:
  assumes "case lp_run sample_mode es (listen_start sample_mode (wire_init (new_writer \<lparr>sent = [], room = None, cerr = IoEOF\<rparr>) sample_answer))
      of None \<Rightarrow> False | Some s \<Rightarrow> P s"
  obtains s where "lp_reach sample_mode (new_writer \<lparr>sent = [], room = None, cerr = IoEOF\<rparr>) sample_answer s" "P s"
proof -
  let ?w = "new_writer \<lparr>sent = [], room = None, cerr = IoEOF\<rparr>"
  have "lp_reach sample_mode ?w sample_answer (listen_start sample_mode (wire_init ?w sample_answer))"
    by (rule lp_reach.lp_reach_start) (simp add: new_writer_def)
  from lp_reach_run [OF this] assms that show thesis by (auto split: option.splits)
qed

text \<open>C33: \<open>examples/listen\<close> logs its listener faithfully, in implicit and in explicit mode, whatever is cancelled,
interrupted or answered: at every moment what it has logged is, in order, the first data sentences with the
listener's tag; when it has left the channel without an error, it has logged all of them and the listener has
its final sentence, unless the program is closing its client.\<close>

theorem listen_example_logs:
  assumes "lp_reach m w0 src s"
  shows "(\<exists>k. lp_updates s = map (lm_show m) (take k (rows_of (conversation (lp_tag s) (aw_client (lp_wire s))))))
    \<and> (lp_consumer s = COver True \<longrightarrow>
         lp_updates s = map (lm_show m) (rows_of (conversation (lp_tag s) (aw_client (lp_wire s))))
         \<and> (\<exists>p. tap (lp_wire s) (lp_tag s) = Some p \<and> perr p = None
               \<and> (done_sen (preply p) \<noteq> None \<or> aclosing (aw_client (lp_wire s)))))"
proof -
  have inv: "lp_inv m s" and r: "wreaches w0 src (lp_wire s)" using lp_reach_inv [OF assms] by simp_all
  show ?thesis
  proof (cases "early s")
    case True
    with inv have "lp_updates s = []" "lp_consumer s \<noteq> COver True"
      by (auto simp: lp_inv_def lp_early_def early_def)
    then show ?thesis by (auto intro: exI [of _ 0])
  next
    case False
    with inv have l: "lp_late m s" by (simp add: lp_inv_def)
    then have ok: "tap_ok (lm_show m) (lp_wire s) (lp_tag s) (lp_taken s) (lp_updates s)" by (simp add: lp_late_def)
    with l tap_rows_shown [OF r ok] show ?thesis by (auto simp: lp_late_def tap_done_def)
  qed
qed

lemma listen_example_logs_witness:
  "\<exists>s. lp_reach sample_mode (new_writer \<lparr>sent = [], room = None, cerr = IoEOF\<rparr>) sample_answer s
     \<and> lp_status s = Some 0 \<and> lp_updates s = [''!re'']
     \<and> lp_updates s = map sen_word (rows_of (conversation ''l1'' (aw_client (lp_wire s))))"
proof -
  have "case lp_run sample_mode sample_listen
      (listen_start sample_mode (wire_init (new_writer \<lparr>sent = [], room = None, cerr = IoEOF\<rparr>) sample_answer))
      of None \<Rightarrow> False | Some s \<Rightarrow> lp_status s = Some 0 \<and> lp_updates s = [''!re''] \<and> lp_tag s = ''l1'' \<and> lp_consumer s = COver True"
    by code_simp
  then obtain s where s: "lp_reach sample_mode (new_writer \<lparr>sent = [], room = None, cerr = IoEOF\<rparr>) sample_answer s"
    "lp_status s = Some 0 \<and> lp_updates s = [''!re''] \<and> lp_tag s = ''l1'' \<and> lp_consumer s = COver True"
    by (rule sample_listen_reach)
  from listen_example_logs [OF s(1)] s show ?thesis by (auto simp: sample_mode_def)
qed

end
