(* ===== verification/Example_Multi.thy ===== *)
theory Example_Multi
  imports Example_Taps Example_Programs
begin

text \<open>
  The program \<open>examples/multi_listen\<close>: two listeners on one connection, the first of which is cancelled when its
  context expires.  Streams are numbered 1 and 2 as in the program's output.
\<close>

subsection \<open>The state\<close>

datatype multi_event =
    Line string | Received nat nat | EndedStream nat nat "goerr option" | Problem string goerr

datatype stream_reader = RNone | RReady | RRange | ROver "goerr option"
datatype stream_waiter = SOff | SWait | SWrite string | SOver
datatype multi_main = MmDialled | MmHold nat | MmNext | MmBoth | MmWaiting | MmLast | MmReturn | MmClosed

record stream_state =
  st_tag :: string
  st_count :: nat
  st_reader :: stream_reader
  st_waiter :: stream_waiter
  st_ctx_done :: bool

record multi_prog =
  mp_wire :: awire
  mp_out :: "multi_event list"
  mp_main :: multi_main
  mp_stream :: "nat \<Rightarrow> stream_state"
  mp_interrupted :: bool
  mp_status :: "nat option"

definition no_stream :: stream_state where
  "no_stream = \<lparr>st_tag = [], st_count = 0, st_reader = RNone, st_waiter = SOff, st_ctx_done = False\<rparr>"

definition multi_start :: "awire \<Rightarrow> multi_prog" where
  "multi_start w =
     \<lparr>mp_wire = w, mp_out = [], mp_main = MmDialled, mp_stream = (\<lambda>i. no_stream), mp_interrupted = False,
      mp_status = None\<rparr>"

definition multi_dial ::
  "('x, 't, 'n) network \<Rightarrow> 'x dctx \<Rightarrow> string \<Rightarrow> string \<Rightarrow> string
     \<Rightarrow> (multi_event list \<times> nat + multi_prog) outcome \<times> 'n link option" where
  "multi_dial net ctx address user password =
     (case dial_context net ctx address user password of
        (Returns (Some err), l) \<Rightarrow> (Returns (Inl ([Problem ''dial failed'' err], 1)), l)
      | (Returns None, Some l) \<Rightarrow>
          (Returns (Inr (multi_start (wire_init (cw (lclient l)) (cr (lclient l))))), Some l)
      | (Returns None, None) \<Rightarrow> (Panics nil_deref, None)
      | (Panics m, l) \<Rightarrow> (Panics m, l)
      | (Blocks, l) \<Rightarrow> (Blocks, l))"

subsection \<open>Starting the listeners\<close>

definition monitor_words :: "string list" where
  "monitor_words = [''/interface/monitor-traffic'', ''=interface=ether1'']"

definition mp_wstep :: "wevent \<Rightarrow> multi_prog \<Rightarrow> multi_prog option" where
  "mp_wstep e s = map_option (\<lambda>w. s\<lparr>mp_wire := w\<rparr>) (wstep e (mp_wire s))"

definition mp_set :: "nat \<Rightarrow> stream_state \<Rightarrow> multi_prog \<Rightarrow> multi_prog" where
  "mp_set i st s = s\<lparr>mp_stream := (mp_stream s)(i := st)\<rparr>"

definition mp_say :: "multi_event list \<Rightarrow> multi_prog \<Rightarrow> multi_prog" where
  "mp_say es s = s\<lparr>mp_out := mp_out s @ es\<rparr>"

definition listen_problem :: "nat \<Rightarrow> string" where
  "listen_problem i = (if i = 1 then ''listen1 failed'' else ''listen2 failed'')"

text \<open>\<open>ListenContext\<close> with the queue size 100, for stream 1 and then for stream 2.\<close>

definition mp_listen_begin :: "nat \<Rightarrow> nat \<Rightarrow> multi_prog \<Rightarrow> multi_prog option" where
  "mp_listen_begin i k s =
     (if i = 1 \<and> mp_main s = MmDialled \<or> i = 2 \<and> mp_main s = MmNext
      then Option.bind (mp_wstep (WLocal EvAsync) s) (\<lambda>s1.
             map_option (\<lambda>s2. s2\<lparr>mp_main := MmHold i\<rparr>) (mp_wstep (WListenBegin monitor_words k 100 True) s1))
      else None)"

definition mp_listen_commit :: "nat \<Rightarrow> multi_prog \<Rightarrow> multi_prog option" where
  "mp_listen_commit k s =
     (case (mp_main s, holder_tag (awriter (aw_client (mp_wire s)))) of
        (MmHold i, Some t) \<Rightarrow>
          map_option (\<lambda>s1.
              if tap (mp_wire s1) t = None
              then (mp_say [Problem (listen_problem i) (call_error (mp_wire s1))] s1)\<lparr>mp_status := Some 1\<rparr>
              else (mp_set i ((mp_stream s i)\<lparr>st_tag := t, st_reader := RReady, st_waiter := SWait\<rparr>) s1)
                     \<lparr>mp_main := (if i = 1 then MmNext else MmBoth)\<rparr>)
            (mp_wstep (WListenCommit k) s)
      | _ \<Rightarrow> None)"

text \<open>The readers are started once both listeners are.\<close>

definition mp_readers :: "multi_prog \<Rightarrow> multi_prog option" where
  "mp_readers s =
     (if mp_main s = MmBoth
      then Some ((mp_say [Line ''=== 2 streams started. Stream1 will be cancelled in 5s ==='',
               Line ''=== If fix works: stream2 keeps running after stream1 dies ==='', Line []]
             (mp_set 1 ((mp_stream s 1)\<lparr>st_reader := RRange\<rparr>)
               (mp_set 2 ((mp_stream s 2)\<lparr>st_reader := RRange\<rparr>) s)))\<lparr>mp_main := MmWaiting\<rparr>)
      else None)"

subsection \<open>Readers\<close>

definition mp_reads :: "multi_prog \<Rightarrow> nat \<Rightarrow> bool" where
  "mp_reads s i \<longleftrightarrow> st_reader (mp_stream s i) = RRange"

definition stream_waits :: "multi_prog \<Rightarrow> nat \<Rightarrow> string \<Rightarrow> bool" where
  "stream_waits s i t \<longleftrightarrow>
     mp_reads s i \<and> t = st_tag (mp_stream s i) \<and> tap_waits (mp_wire s) t (st_count (mp_stream s i))"

definition mp_receive :: "nat \<Rightarrow> multi_prog \<Rightarrow> multi_prog option" where
  "mp_receive i s =
     (let t = st_tag (mp_stream s i) in
      if stream_waits s i t then mp_wstep (WLocal (EvReceive t)) s else None)"

definition mp_count :: "nat \<Rightarrow> multi_prog \<Rightarrow> multi_prog option" where
  "mp_count i s =
     (let st = mp_stream s i; n = st_count st + 1 in
      if mp_reads s i \<and> tap_next (mp_wire s) (st_tag st) (st_count st) \<noteq> None
      then Some (mp_say [Received i n] (mp_set i (st\<lparr>st_count := n\<rparr>) s)) else None)"

definition mp_ended :: "nat \<Rightarrow> multi_prog \<Rightarrow> multi_prog option" where
  "mp_ended i s =
     (let st = mp_stream s i; err = tap_err (mp_wire s) (st_tag st) in
      if mp_reads s i \<and> tap_closed (mp_wire s) (st_tag st) (st_count st)
      then Some (mp_say [EndedStream i (st_count st) err] (mp_set i (st\<lparr>st_reader := ROver err\<rparr>) s)) else None)"

subsection \<open>Contexts, main and the loop\<close>

text \<open>The first context expires; an interrupt ends both.\<close>

definition mp_expire :: "multi_prog \<Rightarrow> multi_prog" where
  "mp_expire s = mp_set 1 ((mp_stream s 1)\<lparr>st_ctx_done := True\<rparr>) s"

definition mp_interrupt :: "multi_prog \<Rightarrow> multi_prog" where
  "mp_interrupt s =
     (mp_set 2 ((mp_stream s 2)\<lparr>st_ctx_done := True\<rparr>) (mp_expire s))\<lparr>mp_interrupted := True\<rparr>"

definition mp_waiter_stop :: "nat \<Rightarrow> multi_prog \<Rightarrow> multi_prog option" where
  "mp_waiter_stop i s =
     (case (st_waiter (mp_stream s i), tap (mp_wire s) (st_tag (mp_stream s i))) of
        (SWait, Some p) \<Rightarrow>
          if pstop p = Some True then Some (mp_set i ((mp_stream s i)\<lparr>st_waiter := SOver\<rparr>) s) else None
      | _ \<Rightarrow> None)"

definition mp_waiter_tag :: "nat \<Rightarrow> multi_prog \<Rightarrow> multi_prog option" where
  "mp_waiter_tag i s =
     (let st = mp_stream s i; a = aw_client (mp_wire s) in
      if st_waiter st = SWait \<and> st_ctx_done st
      then map_option (mp_set i (st\<lparr>st_waiter := (if atags a = None then SOver else SWrite (tag_of CHR ''c'' (anext a + 1)))\<rparr>))
             (mp_wstep (WCancelTag (st_tag st)) s)
      else None)"

definition mp_waiter_write :: "nat \<Rightarrow> nat \<Rightarrow> multi_prog \<Rightarrow> multi_prog option" where
  "mp_waiter_write i k s =
     (case st_waiter (mp_stream s i) of
        SWrite c \<Rightarrow> map_option (mp_set i ((mp_stream s i)\<lparr>st_waiter := SOver\<rparr>)) (mp_wstep (WCancelWrite c k) s)
      | _ \<Rightarrow> None)"

text \<open>\<open>main\<close> waits for the first context, then for the interrupt or for eight more seconds; its return runs
the deferred \<open>Close\<close>, whose error is dropped, and ends the program.\<close>

definition mp_first_over :: "multi_prog \<Rightarrow> multi_prog option" where
  "mp_first_over s =
     (if mp_main s = MmWaiting \<and> st_ctx_done (mp_stream s 1)
      then Some ((mp_say [Line [], Line ''>>> stream1 context CANCELLED (5s timeout) <<<'',
               Line (''>>> Waiting 8 more seconds '' @ [CHR 0xE2, CHR 0x80, CHR 0x94] @ '' stream2 should keep receiving data <<<''), Line []] s)\<lparr>mp_main := MmLast\<rparr>)
      else None)"

definition mp_return :: "bool \<Rightarrow> multi_prog \<Rightarrow> multi_prog option" where
  "mp_return elapsed s =
     (if mp_main s = MmLast \<and> (elapsed \<or> mp_interrupted s)
      then Some ((mp_say
               (if elapsed then [Line [], Line ''=== SUCCESS: stream2 survived 8s after stream1 was cancelled! ===''] 
                else [Line [], Line ''=== interrupted ==='']) s)\<lparr>mp_main := MmReturn\<rparr>)
      else None)"

definition mp_close :: "multi_prog \<Rightarrow> multi_prog option" where
  "mp_close s =
     (if mp_main s = MmReturn
      then map_option (\<lambda>s1. s1\<lparr>mp_main := MmClosed\<rparr>) (mp_wstep (WLocal EvClose) s) else None)"

definition mp_exit :: "multi_prog \<Rightarrow> multi_prog option" where
  "mp_exit s = (if mp_main s = MmClosed then Some (s\<lparr>mp_status := Some 0\<rparr>) else None)"

definition mp_loop :: "wevent \<Rightarrow> multi_prog \<Rightarrow> multi_prog option" where
  "mp_loop e s =
     (if may_step (\<lambda>t. stream_waits s 1 t \<or> stream_waits s 2 t) e (mp_wire s) then mp_wstep e s else None)"

subsection \<open>Runs\<close>

datatype mp_event =
    MpListenBegin nat nat | MpListenCommit nat | MpReaders | MpReceive nat | MpCount nat | MpEnded nat
  | MpExpire | MpInterrupt | MpWaiterStop nat | MpWaiterTag nat | MpWaiterWrite nat nat
  | MpFirstOver | MpReturn bool | MpClose | MpExit | MpLoop wevent

fun mp_move :: "mp_event \<Rightarrow> multi_prog \<Rightarrow> multi_prog option" where
  "mp_move (MpListenBegin i k) s = mp_listen_begin i k s"
| "mp_move (MpListenCommit k) s = mp_listen_commit k s"
| "mp_move MpReaders s = mp_readers s"
| "mp_move (MpReceive i) s = mp_receive i s"
| "mp_move (MpCount i) s = mp_count i s"
| "mp_move (MpEnded i) s = mp_ended i s"
| "mp_move MpExpire s = Some (mp_expire s)"
| "mp_move MpInterrupt s = Some (mp_interrupt s)"
| "mp_move (MpWaiterStop i) s = mp_waiter_stop i s"
| "mp_move (MpWaiterTag i) s = mp_waiter_tag i s"
| "mp_move (MpWaiterWrite i k) s = mp_waiter_write i k s"
| "mp_move MpFirstOver s = mp_first_over s"
| "mp_move (MpReturn b) s = mp_return b s"
| "mp_move MpClose s = mp_close s"
| "mp_move MpExit s = mp_exit s"
| "mp_move (MpLoop e) s = mp_loop e s"

definition mp_step :: "mp_event \<Rightarrow> multi_prog \<Rightarrow> multi_prog option" where
  "mp_step e s = (if mp_status s = None then mp_move e s else None)"

inductive mp_reach :: "writer \<Rightarrow> stream \<Rightarrow> multi_prog \<Rightarrow> bool" for w0 src where
  mp_reach_start: "\<not> wlocked w0 \<Longrightarrow> mp_reach w0 src (multi_start (wire_init w0 src))"
| mp_reach_step: "mp_reach w0 src s \<Longrightarrow> mp_step e s = Some s' \<Longrightarrow> mp_reach w0 src s'"

fun mp_run :: "mp_event list \<Rightarrow> multi_prog \<Rightarrow> multi_prog option" where
  "mp_run [] s = Some s"
| "mp_run (e # es) s = (case mp_step e s of None \<Rightarrow> None | Some s' \<Rightarrow> mp_run es s')"

lemma mp_reach_run: "mp_reach w0 src s \<Longrightarrow> mp_run es s = Some s' \<Longrightarrow> mp_reach w0 src s'"
  by (induction es arbitrary: s) (auto split: option.splits intro: mp_reach.mp_reach_step)

subsection \<open>Invariants\<close>

definition multi_stream_ok :: "awire \<Rightarrow> stream_state \<Rightarrow> bool" where
  "multi_stream_ok w st \<longleftrightarrow>
     (case st_reader st of
        RNone \<Rightarrow> st_waiter st = SOff \<and> st_count st = 0
      | ROver e \<Rightarrow> tap_ok (\<lambda>x. ()) w (st_tag st) (st_count st) (replicate (st_count st) ())
          \<and> tap_closed w (st_tag st) (st_count st) \<and> tap_err w (st_tag st) = e
      | _ \<Rightarrow> tap_ok (\<lambda>x. ()) w (st_tag st) (st_count st) (replicate (st_count st) ()))"

definition main_ok :: "multi_prog \<Rightarrow> bool" where
  "main_ok s \<longleftrightarrow>
     (case mp_main s of
        MmDialled \<Rightarrow> \<forall>i. st_reader (mp_stream s i) = RNone
      | MmHold i \<Rightarrow> (\<forall>j \<ge> i. st_reader (mp_stream s j) = RNone) \<and> (i = 1 \<or> i = 2)
          \<and> (i = 2 \<longrightarrow> st_reader (mp_stream s 1) = RReady)
          \<and> (mp_status s = None \<longrightarrow> (\<exists>t. awriter (aw_client (mp_wire s)) = Some (HListen t 100 (Some False))))
      | MmNext \<Rightarrow> (\<forall>j \<ge> 2. st_reader (mp_stream s j) = RNone) \<and> st_reader (mp_stream s 1) = RReady
      | MmBoth \<Rightarrow> st_reader (mp_stream s 1) = RReady \<and> st_reader (mp_stream s 2) = RReady
      | _ \<Rightarrow> True)"

definition said_ok :: "multi_prog \<Rightarrow> bool" where
  "said_ok s \<longleftrightarrow>
     (\<forall>i n e. EndedStream i n e \<in> set (mp_out s) \<longrightarrow> st_reader (mp_stream s i) = ROver e \<and> st_count (mp_stream s i) = n)
     \<and> (\<forall>i. filter (\<lambda>x. \<exists>n. x = Received i n) (mp_out s) = map (Received i) [1 ..< Suc (st_count (mp_stream s i))])"

definition mp_inv :: "multi_prog \<Rightarrow> bool" where
  "mp_inv s \<longleftrightarrow> (\<forall>i. multi_stream_ok (mp_wire s) (mp_stream s i)) \<and> main_ok s \<and> said_ok s"

lemma multi_stream_step:
  assumes "multi_stream_ok w st" "wreaches w0 src w" "wstep e w = Some w'"
  shows "multi_stream_ok w' st"
  using assms tap_ok_step [OF _ assms(2,3)] tap_closed_step [OF _ assms(2,3)] tap_err_step [OF _ assms(2,3)]
  unfolding multi_stream_ok_def by (cases "st_reader st") auto

lemma mp_wstep_elim:
  assumes "mp_wstep e s = Some s'"
  obtains w where "wstep e (mp_wire s) = Some w" "s' = s\<lparr>mp_wire := w\<rparr>"
  using assms by (auto simp: mp_wstep_def)

text \<open>A step on the wire that leaves the streams, or changes one of them without its reader, tag and count.\<close>

definition like :: "stream_state \<Rightarrow> stream_state \<Rightarrow> bool" where
  "like st st' \<longleftrightarrow> st_reader st' = st_reader st \<and> st_tag st' = st_tag st \<and> st_count st' = st_count st
     \<and> (st_reader st = RNone \<longrightarrow> st_waiter st' = st_waiter st)"

lemma like_ok: "like st st' \<Longrightarrow> multi_stream_ok w st \<Longrightarrow> multi_stream_ok w st'"
  unfolding multi_stream_ok_def like_def by (cases "st_reader st") auto

lemma mp_frame:
  assumes "mp_inv s" "mp_status s = None" "wreaches w0 src (mp_wire s)" "mp_wstep e s = Some s1"
    and "mp_wire s' = mp_wire s1" "mp_out s' = mp_out s1" "mp_main s' = mp_main s1" "\<And>i. like (mp_stream s i) (mp_stream s' i)"
    and "awriter (aw_client (mp_wire s)) \<noteq> None \<Longrightarrow> awriter (aw_client (mp_wire s1)) = awriter (aw_client (mp_wire s))"
  shows "mp_inv s' \<and> wreaches w0 src (mp_wire s')"
proof -
  obtain w where w: "wstep e (mp_wire s) = Some w" "s1 = s\<lparr>mp_wire := w\<rparr>" using assms(4) by (rule mp_wstep_elim)
  have r: "wreaches w0 src w" using assms(3) w(1) by (rule wreaches.wreaches_next)
  have "multi_stream_ok w (mp_stream s' i)" for i
    using assms(1) like_ok [OF assms(8)] multi_stream_step [OF _ assms(3) w(1)] by (simp add: mp_inv_def)
  moreover have "main_ok s'"
    using assms(1,2,5,7,8,9) w(2) by (auto simp: mp_inv_def main_ok_def like_def split: multi_main.splits)
  moreover have "said_ok s'"
    using assms(1,6,8) w(2) by (auto simp: mp_inv_def said_ok_def like_def)
  ultimately show ?thesis using r assms(5) w(2) by (simp add: mp_inv_def)
qed

lemma mp_beside:
  assumes "mp_inv s" "mp_wire s' = mp_wire s" "mp_out s' = mp_out s" "mp_main s' = mp_main s" "mp_status s' = mp_status s"
    and "\<And>i. like (mp_stream s i) (mp_stream s' i)"
  shows "mp_inv s'"
proof -
  have "multi_stream_ok (mp_wire s) (mp_stream s' i)" for i
    using assms(1) like_ok [OF assms(6)] by (simp add: mp_inv_def)
  moreover have "main_ok s'" using assms by (auto simp: mp_inv_def main_ok_def like_def split: multi_main.splits)
  moreover have "said_ok s'" using assms by (auto simp: mp_inv_def said_ok_def like_def)
  ultimately show ?thesis using assms(2) by (simp add: mp_inv_def)
qed

lemma like_refl [simp]: "like st st"
  by (simp add: like_def)

lemma mp_inv_wire:
  assumes "mp_inv s" "wreaches w0 src (mp_wire s)" "wstep e (mp_wire s) = Some w"
  shows "multi_stream_ok w (mp_stream s i)"
  using assms(1) multi_stream_step [OF _ assms(2,3)] by (simp add: mp_inv_def)

lemma mp_listen_begin_inv:
  assumes "mp_inv s" "mp_status s = None" "wreaches w0 src (mp_wire s)" "mp_listen_begin i k s = Some s'"
  shows "mp_inv s' \<and> wreaches w0 src (mp_wire s')"
proof -
  from assms(4) have i: "i = 1 \<and> mp_main s = MmDialled \<or> i = 2 \<and> mp_main s = MmNext"
    by (auto simp: mp_listen_begin_def split: if_splits)
  with assms(4) obtain s1 s2 where s1: "mp_wstep (WLocal EvAsync) s = Some s1"
    "mp_wstep (WListenBegin monitor_words k 100 True) s1 = Some s2" "s' = s2\<lparr>mp_main := MmHold i\<rparr>"
    by (auto simp: mp_listen_begin_def bind_eq_Some_conv split: if_splits)
  obtain w1 where w1: "wstep (WLocal EvAsync) (mp_wire s) = Some w1" "s1 = s\<lparr>mp_wire := w1\<rparr>"
    using s1(1) by (rule mp_wstep_elim)
  obtain w2 where "wstep (WListenBegin monitor_words k 100 True) (mp_wire s1) = Some w2" "s2 = s1\<lparr>mp_wire := w2\<rparr>"
    using s1(2) by (rule mp_wstep_elim)
  with w1(2) s1(3) have w2: "wstep (WListenBegin monitor_words k 100 True) w1 = Some w2"
    "s' = s\<lparr>mp_wire := w2, mp_main := MmHold i\<rparr>" by simp_all
  have r1: "wreaches w0 src w1" using assms(3) w1(1) by (rule wreaches.wreaches_next)
  have r2: "wreaches w0 src w2" using r1 w2(1) by (rule wreaches.wreaches_next)
  have "multi_stream_ok w2 (mp_stream s j)" for j
    using mp_inv_wire [OF assms(1,3) w1(1)] multi_stream_step [OF _ r1 w2(1)] by simp
  moreover have "main_ok s'"
    using assms(1) i listen_begin_holds [OF w2(1)] by (auto simp: w2(2) mp_inv_def main_ok_def)
  moreover have "said_ok s'" using assms(1) by (simp add: w2(2) mp_inv_def said_ok_def)
  ultimately show ?thesis using r2 by (simp add: w2(2) mp_inv_def)
qed

lemma mp_say_fields [simp]:
  "mp_wire (mp_say es s) = mp_wire s" "mp_main (mp_say es s) = mp_main s" "mp_stream (mp_say es s) = mp_stream s"
  "mp_status (mp_say es s) = mp_status s" "mp_out (mp_say es s) = mp_out s @ es"
  by (simp_all add: mp_say_def)

lemma mp_set_fields [simp]:
  "mp_wire (mp_set i st s) = mp_wire s" "mp_main (mp_set i st s) = mp_main s"
  "mp_stream (mp_set i st s) = (mp_stream s)(i := st)" "mp_status (mp_set i st s) = mp_status s"
  "mp_out (mp_set i st s) = mp_out s"
  by (simp_all add: mp_set_def)

text \<open>What is printed besides the streams' own lines.\<close>

definition aside_line :: "multi_event \<Rightarrow> bool" where
  "aside_line x = (case x of Line y \<Rightarrow> True | Problem y e \<Rightarrow> True | _ \<Rightarrow> False)"

lemma said_ok_aside:
  assumes "said_ok s" "mp_out s' = mp_out s @ es" "list_all aside_line es"
    and "\<And>i. st_count (mp_stream s' i) = st_count (mp_stream s i)"
    and "\<And>i e. st_reader (mp_stream s i) = ROver e \<Longrightarrow> st_reader (mp_stream s' i) = ROver e"
  shows "said_ok s'"
proof -
  have "EndedStream i n e \<notin> set es" "Received i n \<notin> set es" for i n e
    using assms(3) by (auto simp: list_all_iff aside_line_def)
  moreover from this have "filter (\<lambda>x. \<exists>n. x = Received i n) es = []" for i by (auto simp: filter_empty_conv)
  ultimately show ?thesis using assms(1,2,4,5) by (auto simp: said_ok_def)
qed

text \<open>Changes of one stream.\<close>

lemma stream_listens:
  "tap_ok (\<lambda>x. ()) w t 0 [] \<Longrightarrow> st_count st = 0 \<Longrightarrow>
     multi_stream_ok w (st\<lparr>st_tag := t, st_reader := RReady, st_waiter := SWait\<rparr>)"
  by (simp add: multi_stream_ok_def)

lemma stream_ranges:
  "multi_stream_ok w st \<Longrightarrow> st_reader st = RReady \<Longrightarrow> multi_stream_ok w (st\<lparr>st_reader := RRange\<rparr>)"
  by (simp add: multi_stream_ok_def)

lemma stream_counts:
  assumes "multi_stream_ok w st" "st_reader st = RRange" "tap_next w (st_tag st) (st_count st) = Some sen"
  shows "multi_stream_ok w (st\<lparr>st_count := Suc (st_count st)\<rparr>)"
  using assms(1,2) tap_ok_next [OF _ assms(3), of "\<lambda>x. ()" "replicate (st_count st) ()"]
  by (simp add: multi_stream_ok_def replicate_append_same)

lemma stream_ends:
  assumes "multi_stream_ok w st" "st_reader st = RRange" "tap_closed w (st_tag st) (st_count st)"
  shows "multi_stream_ok w (st\<lparr>st_reader := ROver (tap_err w (st_tag st))\<rparr>)"
  using assms by (simp add: multi_stream_ok_def)

lemma mp_listen_commit_inv:
  assumes "mp_inv s" "mp_status s = None" "wreaches w0 src (mp_wire s)" "mp_listen_commit k s = Some s'"
  shows "mp_inv s' \<and> wreaches w0 src (mp_wire s')"
proof -
  obtain i where i: "mp_main s = MmHold i"
    using assms(4) by (auto simp: mp_listen_commit_def split: multi_main.splits)
  with assms(1,2) obtain t where h: "awriter (aw_client (mp_wire s)) = Some (HListen t 100 (Some False))"
    and m: "\<forall>j \<ge> i. st_reader (mp_stream s j) = RNone" "i = 1 \<or> i = 2" "i = 2 \<longrightarrow> st_reader (mp_stream s 1) = RReady"
    by (auto simp: mp_inv_def main_ok_def)
  obtain s1 where s1a: "mp_wstep (WListenCommit k) s = Some s1"
    using h i assms(4) by (cases "mp_wstep (WListenCommit k) s") (simp_all add: mp_listen_commit_def)
  have "Some s' = Some (if tap (mp_wire s1) t = None then (mp_say [Problem (listen_problem i) (call_error (mp_wire s1))] s1)\<lparr>mp_status := Some 1\<rparr>
       else (mp_set i ((mp_stream s i)\<lparr>st_tag := t, st_reader := RReady, st_waiter := SWait\<rparr>) s1)
              \<lparr>mp_main := (if i = 1 then MmNext else MmBoth)\<rparr>)"
    unfolding assms(4) [symmetric] by (simp add: mp_listen_commit_def h i s1a)
  then have s1b: "s' = (if tap (mp_wire s1) t = None then (mp_say [Problem (listen_problem i) (call_error (mp_wire s1))] s1)\<lparr>mp_status := Some 1\<rparr>
       else (mp_set i ((mp_stream s i)\<lparr>st_tag := t, st_reader := RReady, st_waiter := SWait\<rparr>) s1)
              \<lparr>mp_main := (if i = 1 then MmNext else MmBoth)\<rparr>)"
    by simp
  note s1 = s1a s1b
  obtain w where w: "wstep (WListenCommit k) (mp_wire s) = Some w" "s1 = s\<lparr>mp_wire := w\<rparr>"
    using s1(1) by (rule mp_wstep_elim)
  have r: "wreaches w0 src w" using assms(3) w(1) by (rule wreaches.wreaches_next)
  note streams = mp_inv_wire [OF assms(1,3) w(1)]
  have "st_count (mp_stream s i) = 0"
    using assms(1) m(1) by (auto simp: mp_inv_def multi_stream_ok_def split: stream_reader.splits)
  show ?thesis
  proof (cases "tap w t")
    case None
    with s1(2) w(2) have s': "s' = (mp_say [Problem (listen_problem i) (call_error w)] (s\<lparr>mp_wire := w\<rparr>))\<lparr>mp_status := Some 1\<rparr>" by simp
    have "said_ok s'"
      using assms(1) by (intro said_ok_aside [of s s' "[Problem (listen_problem i) (call_error w)]"])
        (simp_all add: s' mp_inv_def aside_line_def)
    moreover have "main_ok s'" using i m by (simp add: s' main_ok_def)
    ultimately show ?thesis using r streams by (simp add: s' mp_inv_def)
  next
    case (Some p)
    then have "tap_ok (\<lambda>x. ()) w t 0 []" using tap_ok_new [OF assms(3) w(1) h] by simp
    moreover have s': "s' = (mp_set i ((mp_stream s i)\<lparr>st_tag := t, st_reader := RReady, st_waiter := SWait\<rparr>) (s\<lparr>mp_wire := w\<rparr>))
              \<lparr>mp_main := (if i = 1 then MmNext else MmBoth)\<rparr>"
      using s1(2) w(2) Some by simp
    ultimately have "multi_stream_ok w (mp_stream s' j)" for j
      using streams stream_listens [OF _ \<open>st_count (mp_stream s i) = 0\<close>] by simp
    moreover have "main_ok s'"
    proof (cases "i = 1")
      case True
      with m s' show ?thesis by (simp add: main_ok_def)
    next
      case False
      with m s' show ?thesis by (simp add: main_ok_def)
    qed
    moreover have "said_ok s'"
      using assms(1) m(1) by (intro said_ok_aside [of s s' "[]"]) (auto simp: s' mp_inv_def)
    ultimately show ?thesis using r by (simp add: s' mp_inv_def)
  qed
qed

lemma mp_readers_inv:
  assumes "mp_inv s" "mp_readers s = Some s'"
  shows "mp_inv s' \<and> mp_wire s' = mp_wire s"
proof -
  have m: "mp_main s = MmBoth" using assms(2) by (auto simp: mp_readers_def split: if_splits)
  with assms(2) obtain es where s': "s' = (mp_say es (mp_set 1 ((mp_stream s 1)\<lparr>st_reader := RRange\<rparr>)
      (mp_set 2 ((mp_stream s 2)\<lparr>st_reader := RRange\<rparr>) s)))\<lparr>mp_main := MmWaiting\<rparr>" "list_all aside_line es"
    by (auto simp: mp_readers_def aside_line_def)
  from m assms(1) have rd: "st_reader (mp_stream s 1) = RReady" "st_reader (mp_stream s 2) = RReady"
    by (simp_all add: mp_inv_def main_ok_def)
  have "multi_stream_ok (mp_wire s) (mp_stream s j)" for j using assms(1) by (simp add: mp_inv_def)
  with rd stream_ranges have "multi_stream_ok (mp_wire s) (mp_stream s' j)" for j by (simp add: s'(1))
  moreover have "said_ok s'"
    using assms(1) rd s'(2) by (intro said_ok_aside [of s s' es]) (auto simp: s'(1) mp_inv_def)
  moreover have "main_ok s'" by (simp add: s'(1) main_ok_def)
  ultimately show ?thesis by (simp add: s'(1) mp_inv_def)
qed

lemma mp_count_inv:
  assumes "mp_inv s" "mp_count i s = Some s'"
  shows "mp_inv s' \<and> mp_wire s' = mp_wire s"
proof -
  let ?st = "mp_stream s i"
  obtain sen where c: "st_reader ?st = RRange" "tap_next (mp_wire s) (st_tag ?st) (st_count ?st) = Some sen"
    "s' = mp_say [Received i (st_count ?st + 1)] (mp_set i (?st\<lparr>st_count := st_count ?st + 1\<rparr>) s)"
    using assms(2) by (auto simp: mp_count_def mp_reads_def Let_def split: if_splits)
  have "multi_stream_ok (mp_wire s) (mp_stream s j)" for j using assms(1) by (simp add: mp_inv_def)
  with stream_counts [OF _ c(1,2)] have "multi_stream_ok (mp_wire s) (mp_stream s' j)" for j by (simp add: c(3))
  moreover have "main_ok s'"
    using assms(1) c(1) by (auto simp: c(3) mp_inv_def main_ok_def split: multi_main.splits)
  moreover have "said_ok s'"
    using assms(1) c(1) by (auto simp: c(3) mp_inv_def said_ok_def)
  ultimately show ?thesis by (simp add: c(3) mp_inv_def)
qed

lemma mp_ended_inv:
  assumes "mp_inv s" "mp_ended i s = Some s'"
  shows "mp_inv s' \<and> mp_wire s' = mp_wire s"
proof -
  let ?st = "mp_stream s i" let ?err = "tap_err (mp_wire s) (st_tag ?st)"
  have c: "st_reader ?st = RRange" "tap_closed (mp_wire s) (st_tag ?st) (st_count ?st)"
    "s' = mp_say [EndedStream i (st_count ?st) ?err] (mp_set i (?st\<lparr>st_reader := ROver ?err\<rparr>) s)"
    using assms(2) by (auto simp: mp_ended_def mp_reads_def Let_def split: if_splits)
  have "multi_stream_ok (mp_wire s) (mp_stream s j)" for j using assms(1) by (simp add: mp_inv_def)
  with stream_ends [OF _ c(1,2)] have "multi_stream_ok (mp_wire s) (mp_stream s' j)" for j by (simp add: c(3))
  moreover have "main_ok s'"
    using assms(1) c(1) by (auto simp: c(3) mp_inv_def main_ok_def split: multi_main.splits)
  moreover have "said_ok s'"
    using assms(1) c(1) by (auto simp: c(3) mp_inv_def said_ok_def)
  ultimately show ?thesis by (simp add: c(3) mp_inv_def)
qed

lemma mp_waiter_inv:
  assumes "mp_inv s" "mp_status s = None" "wreaches w0 src (mp_wire s)"
    and "mp_waiter_stop i s = Some s' \<or> mp_waiter_tag i s = Some s' \<or> mp_waiter_write i k s = Some s'"
  shows "mp_inv s' \<and> wreaches w0 src (mp_wire s')"
proof -
  have "multi_stream_ok (mp_wire s) (mp_stream s i)" using assms(1) by (simp add: mp_inv_def)
  then have off: "st_reader (mp_stream s i) = RNone \<Longrightarrow> st_waiter (mp_stream s i) = SOff"
    by (simp add: multi_stream_ok_def)
  have like: "like (mp_stream s j) (((mp_stream s)(i := (mp_stream s i)\<lparr>st_waiter := x\<rparr>)) j)"
    if "st_waiter (mp_stream s i) \<noteq> SOff" for x j
    using off that by (auto simp: like_def)
  from assms(4) consider (stop) "mp_waiter_stop i s = Some s'" | (tag) "mp_waiter_tag i s = Some s'"
    | (writes) "mp_waiter_write i k s = Some s'" by blast
  then show ?thesis
  proof cases
    case stop
    then have "st_waiter (mp_stream s i) = SWait" "s' = mp_set i ((mp_stream s i)\<lparr>st_waiter := SOver\<rparr>) s"
      by (auto simp: mp_waiter_stop_def split: stream_waiter.splits option.splits if_splits)
    with assms(3) like mp_beside [OF assms(1), of s'] show ?thesis by (simp del: fun_upd_apply)
  next
    case tag
    then obtain s1 x where x: "st_waiter (mp_stream s i) = SWait" "mp_wstep (WCancelTag (st_tag (mp_stream s i))) s = Some s1"
      "s' = mp_set i ((mp_stream s i)\<lparr>st_waiter := x\<rparr>) s1"
      by (auto simp: mp_waiter_tag_def Let_def split: if_splits)
    obtain w where w: "wstep (WCancelTag (st_tag (mp_stream s i))) (mp_wire s) = Some w" "s1 = s\<lparr>mp_wire := w\<rparr>"
      using x(2) by (rule mp_wstep_elim)
    show ?thesis
      by (rule mp_frame [OF assms(1-3) x(2)])
        (use x(1,3) w(2) like cancel_tag_writer [OF w(1)] in \<open>simp_all del: fun_upd_apply\<close>)
  next
    case writes
    then obtain s1 c where x: "st_waiter (mp_stream s i) = SWrite c" "mp_wstep (WCancelWrite c k) s = Some s1"
      "s' = mp_set i ((mp_stream s i)\<lparr>st_waiter := SOver\<rparr>) s1"
      by (auto simp: mp_waiter_write_def split: stream_waiter.splits)
    obtain w where w: "wstep (WCancelWrite c k) (mp_wire s) = Some w" "s1 = s\<lparr>mp_wire := w\<rparr>"
      using x(2) by (rule mp_wstep_elim)
    show ?thesis
      by (rule mp_frame [OF assms(1-3) x(2)])
        (use x(1,3) w(2) like cancel_write_writer [OF w(1)] in \<open>simp_all del: fun_upd_apply\<close>)
  qed
qed

lemma mp_says_inv:
  assumes "mp_inv s" "s' = (mp_say es s)\<lparr>mp_main := m\<rparr>" "list_all aside_line es" "m = MmLast \<or> m = MmReturn"
  shows "mp_inv s'"
proof -
  have "said_ok s'" using assms by (intro said_ok_aside [of s s' es]) (simp_all add: mp_inv_def)
  moreover have "main_ok s'" using assms(2,4) by (auto simp: main_ok_def)
  ultimately show ?thesis using assms(1,2) by (simp add: mp_inv_def)
qed

lemma mp_step_inv:
  assumes "mp_inv s" "wreaches w0 src (mp_wire s)" "mp_step e s = Some s'"
  shows "mp_inv s' \<and> wreaches w0 src (mp_wire s')"
proof -
  have st: "mp_status s = None" and mv: "mp_move e s = Some s'"
    using assms(3) by (simp_all add: mp_step_def split: if_splits)
  note frame = mp_frame [OF assms(1) st assms(2)]
  show ?thesis
  proof (cases e)
    case (MpListenBegin i k)
    with mv mp_listen_begin_inv [OF assms(1) st assms(2)] show ?thesis by simp
  next
    case (MpListenCommit k)
    with mv mp_listen_commit_inv [OF assms(1) st assms(2)] show ?thesis by simp
  next
    case MpReaders
    with mv mp_readers_inv [OF assms(1)] assms(2) show ?thesis by simp
  next
    case (MpReceive i)
    with mv have r: "mp_wstep (WLocal (EvReceive (st_tag (mp_stream s i)))) s = Some s'"
      by (auto simp: mp_receive_def Let_def split: if_splits)
    obtain w where w: "wstep (WLocal (EvReceive (st_tag (mp_stream s i)))) (mp_wire s) = Some w" "s' = s\<lparr>mp_wire := w\<rparr>"
      using r by (rule mp_wstep_elim)
    from w(1) have "awriter (aw_client w) = awriter (aw_client (mp_wire s))"
      by (auto simp: receive_def set_proc_def split: option.splits list.splits)
    with w(2) show ?thesis by (intro frame [OF r]) simp_all
  next
    case (MpCount i)
    with mv mp_count_inv [OF assms(1)] assms(2) show ?thesis by simp
  next
    case (MpEnded i)
    with mv mp_ended_inv [OF assms(1)] assms(2) show ?thesis by simp
  next
    case MpExpire
    with mv have "s' = mp_set 1 ((mp_stream s 1)\<lparr>st_ctx_done := True\<rparr>) s" by (simp add: mp_expire_def)
    with assms(2) show ?thesis by (auto intro!: mp_beside [OF assms(1)] simp: like_def)
  next
    case MpInterrupt
    with mv have "s' = (mp_set 2 ((mp_stream s 2)\<lparr>st_ctx_done := True\<rparr>)
        (mp_set 1 ((mp_stream s 1)\<lparr>st_ctx_done := True\<rparr>) s))\<lparr>mp_interrupted := True\<rparr>"
      by (simp add: mp_interrupt_def mp_expire_def)
    with assms(2) show ?thesis by (auto intro!: mp_beside [OF assms(1)] simp: like_def)
  next
    case MpFirstOver
    with mv obtain es where "s' = (mp_say es s)\<lparr>mp_main := MmLast\<rparr>" "list_all aside_line es"
      by (auto simp: mp_first_over_def aside_line_def split: if_splits)
    with mp_says_inv [OF assms(1)] assms(2) show ?thesis by simp
  next
    case (MpReturn b)
    with mv obtain es where "s' = (mp_say es s)\<lparr>mp_main := MmReturn\<rparr>" "list_all aside_line es"
      by (auto simp: mp_return_def aside_line_def split: if_splits)
    with mp_says_inv [OF assms(1)] assms(2) show ?thesis by simp
  next
    case MpClose
    with mv obtain s1 where s1: "mp_wstep (WLocal EvClose) s = Some s1" "s' = s1\<lparr>mp_main := MmClosed\<rparr>"
      by (auto simp: mp_close_def split: if_splits)
    obtain w where w: "wstep (WLocal EvClose) (mp_wire s) = Some w" "s1 = s\<lparr>mp_wire := w\<rparr>"
      using s1(1) by (rule mp_wstep_elim)
    have r: "wreaches w0 src w" using assms(2) w(1) by (rule wreaches.wreaches_next)
    have "said_ok s'" using assms(1) s1(2) w(2) by (intro said_ok_aside [of s s' "[]"]) (simp_all add: mp_inv_def)
    moreover have "main_ok s'" using s1(2) w(2) by (simp add: main_ok_def)
    ultimately show ?thesis using r mp_inv_wire [OF assms(1,2) w(1)] s1(2) w(2) by (simp add: mp_inv_def)
  next
    case MpExit
    with mv have m: "mp_main s = MmClosed" "s' = s\<lparr>mp_status := Some 0\<rparr>" by (auto simp: mp_exit_def split: if_splits)
    with assms(1,2) show ?thesis by (simp add: mp_inv_def main_ok_def said_ok_def)
  next
    case (MpLoop ev)
    with mv have l: "loop_wevent ev" "mp_wstep ev s = Some s'" by (auto simp: mp_loop_def may_step_def split: if_splits)
    then obtain w where w: "wstep ev (mp_wire s) = Some w" "s' = s\<lparr>mp_wire := w\<rparr>" by (auto elim: mp_wstep_elim)
    with loop_wevent_writer [OF l(1) w(1)] show ?thesis by (intro frame [OF l(2)]) simp_all
  qed (use mv mp_waiter_inv [OF assms(1) st assms(2)] in auto)
qed

lemma mp_reach_inv: "mp_reach w0 src s \<Longrightarrow> mp_inv s \<and> wreaches w0 src (mp_wire s)"
proof (induction rule: mp_reach.induct)
  case mp_reach_start
  then show ?case
    by (simp add: mp_inv_def multi_start_def multi_stream_ok_def no_stream_def main_ok_def said_ok_def wreaches.wreaches_init)
next
  case (mp_reach_step s e s')
  then show ?case using mp_step_inv [of s w0 src e s'] by simp
qed

subsection \<open>Cancellations\<close>

text \<open>
  A tag that may be cancelled: that of a started stream whose context is done.  Everything the program sends is a
  request of one of its listeners or the cancellation of such a tag.
\<close>

definition stream_started :: "multi_prog \<Rightarrow> nat \<Rightarrow> bool" where
  "stream_started s i \<longleftrightarrow> st_reader (mp_stream s i) \<noteq> RNone"

definition cancel_due :: "multi_prog \<Rightarrow> string \<Rightarrow> bool" where
  "cancel_due s t \<longleftrightarrow> (\<exists>i. stream_started s i \<and> t = st_tag (mp_stream s i) \<and> st_ctx_done (mp_stream s i))"

definition cancels_ok :: "multi_prog \<Rightarrow> bool" where
  "cancels_ok s \<longleftrightarrow>
     (\<forall>c t. (c, t) \<in> set (aw_cancels (mp_wire s)) \<longrightarrow> cancel_due s t)
     \<and> (\<forall>c ws. (c, ws) \<in> set (aw_sent (mp_wire s)) \<longrightarrow>
          ws = tagged monitor_words c \<or> (\<exists>t. ws = cancel_sentence t c \<and> cancel_due s t))
     \<and> (\<forall>t. holder_tag (awriter (aw_client (mp_wire s))) = Some t \<longrightarrow> aw_open (mp_wire s) = tagged monitor_words t)"

definition streams_ok :: "multi_prog \<Rightarrow> bool" where
  "streams_ok s \<longleftrightarrow>
     (\<forall>i. st_ctx_done (mp_stream s i) \<longrightarrow> i = 1 \<or> i = 2 \<and> mp_interrupted s)
     \<and> (\<forall>i j. i \<noteq> j \<longrightarrow> stream_started s i \<longrightarrow> stream_started s j \<longrightarrow> st_tag (mp_stream s i) \<noteq> st_tag (mp_stream s j))"

text \<open>Streams start, and their contexts end, for ever.\<close>

definition stream_keeps :: "stream_state \<Rightarrow> stream_state \<Rightarrow> bool" where
  "stream_keeps st st' \<longleftrightarrow>
     st_tag st' = st_tag st \<and> (st_reader st' = RNone \<longleftrightarrow> st_reader st = RNone) \<and> st_ctx_done st' = st_ctx_done st"

lemma cancel_due_mono:
  assumes "cancel_due s t"
    and "\<And>i. stream_started s i \<Longrightarrow> stream_started s' i \<and> st_tag (mp_stream s' i) = st_tag (mp_stream s i)
      \<and> (st_ctx_done (mp_stream s i) \<longrightarrow> st_ctx_done (mp_stream s' i))"
  shows "cancel_due s' t"
  using assms unfolding cancel_due_def by metis

lemma cancels_ok_grow:
  assumes "cancels_ok s" "\<And>t. cancel_due s t \<Longrightarrow> cancel_due s' t"
    and "aw_sent (mp_wire s') = aw_sent (mp_wire s)" "aw_cancels (mp_wire s') = aw_cancels (mp_wire s)"
    and "\<And>t. holder_tag (awriter (aw_client (mp_wire s'))) = Some t \<Longrightarrow> aw_open (mp_wire s') = tagged monitor_words t"
  shows "cancels_ok s'"
  using assms unfolding cancels_ok_def by metis

lemma streams_same:
  assumes "\<And>i. stream_keeps (mp_stream s i) (mp_stream s' i)" "mp_interrupted s' = mp_interrupted s"
  shows "streams_ok s' = streams_ok s" and "cancel_due s' t = cancel_due s t"
  using assms by (simp_all add: streams_ok_def cancel_due_def stream_started_def stream_keeps_def)

lemma same_streams:
  assumes "cancels_ok s \<and> streams_ok s" "\<And>i. stream_keeps (mp_stream s i) (mp_stream s' i)" "mp_interrupted s' = mp_interrupted s"
    and "aw_sent (mp_wire s') = aw_sent (mp_wire s)" "aw_cancels (mp_wire s') = aw_cancels (mp_wire s)"
    and "aw_open (mp_wire s') = aw_open (mp_wire s)" "awriter (aw_client (mp_wire s')) = awriter (aw_client (mp_wire s))"
  shows "cancels_ok s' \<and> streams_ok s'"
  using assms streams_same [OF assms(2,3)] by (simp add: cancels_ok_def)

lemma stream_keeps_refl [simp]: "stream_keeps st st"
  by (simp add: stream_keeps_def)

text \<open>The steps of the loop and of readers send nothing and cancel nothing.\<close>

lemma silent_step:
  assumes "loop_wevent e \<or> (\<exists>ev. e = WLocal ev)" "wstep e w = Some w'"
  shows "aw_sent w' = aw_sent w \<and> aw_cancels w' = aw_cancels w \<and> aw_open w' = aw_open w
    \<and> awriter (aw_client w') = awriter (aw_client w)"
proof (cases e)
  case WRead
  with assms(2) show ?thesis by (auto simp: wire_read_def loop_read_def split: prod.splits if_splits)
next
  case (WReadCut n)
  with assms(2) show ?thesis by (auto simp: wire_read_cut_def loop_read_def split: prod.splits if_splits sum.splits)
next
  case WLookup
  with assms(2) show ?thesis by (auto simp: wire_lookup_def loop_lookup_def split: loop_pc.splits)
next
  case (WLocal ev)
  with assms(2) obtain a where "local_event ev" "astep ev (aw_client w) = Some a" "w' = w\<lparr>aw_client := a\<rparr>"
    by (auto split: if_splits)
  with local_writer show ?thesis by simp
qed (use assms(1) in simp_all)

lemma silent_prog:
  assumes "cancels_ok s \<and> streams_ok s" "mp_wstep e s = Some s1" "loop_wevent e \<or> (\<exists>ev. e = WLocal ev)"
    and "mp_wire s' = mp_wire s1" "mp_interrupted s' = mp_interrupted s1" "\<And>i. stream_keeps (mp_stream s1 i) (mp_stream s' i)"
  shows "cancels_ok s' \<and> streams_ok s'"
proof -
  obtain w where w: "wstep e (mp_wire s) = Some w" "s1 = s\<lparr>mp_wire := w\<rparr>" using assms(2) by (rule mp_wstep_elim)
  from silent_step [OF assms(3) w(1)] w(2) assms(4-6) show ?thesis by (intro same_streams [OF assms(1)]) simp_all
qed

lemma listen_begin_cancels:
  assumes "cancels_ok s \<and> streams_ok s" "mp_listen_begin i k s = Some s'"
  shows "cancels_ok s' \<and> streams_ok s'"
proof -
  obtain s1 s2 where s1: "mp_wstep (WLocal EvAsync) s = Some s1"
    "mp_wstep (WListenBegin monitor_words k 100 True) s1 = Some s2" "s' = s2\<lparr>mp_main := MmHold i\<rparr>"
    using assms(2) by (auto simp: mp_listen_begin_def bind_eq_Some_conv split: if_splits)
  have ok: "cancels_ok s1 \<and> streams_ok s1" by (rule silent_prog [OF assms(1) s1(1)]) simp_all
  obtain w where w: "wstep (WListenBegin monitor_words k 100 True) (mp_wire s1) = Some w" "s2 = s1\<lparr>mp_wire := w\<rparr>"
    using s1(2) by (rule mp_wstep_elim)
  then have "aw_sent w = aw_sent (mp_wire s1)" "aw_cancels w = aw_cancels (mp_wire s1)"
    "\<And>t. holder_tag (awriter (aw_client w)) = Some t \<Longrightarrow> aw_open w = tagged monitor_words t"
    by (auto simp: wire_begin_def Let_def split: option.splits if_splits)
  moreover have "streams_ok s' = streams_ok s1" "\<And>t. cancel_due s' t = cancel_due s1 t"
    using s1(3) w(2) by (auto intro!: streams_same)
  ultimately show ?thesis
    using ok s1(3) w(2) cancels_ok_grow [of s1 s'] by simp
qed

lemma listen_commit_cancels:
  assumes "cancels_ok s \<and> streams_ok s" "mp_inv s" "mp_status s = None" "wreaches w0 src (mp_wire s)"
    and "mp_listen_commit k s = Some s'"
  shows "cancels_ok s' \<and> streams_ok s'"
proof -
  obtain i where i: "mp_main s = MmHold i"
    using assms(5) by (auto simp: mp_listen_commit_def split: multi_main.splits)
  with assms(2,3) obtain t where h: "awriter (aw_client (mp_wire s)) = Some (HListen t 100 (Some False))"
    and m: "st_reader (mp_stream s i) = RNone"
    by (auto simp: mp_inv_def main_ok_def)
  obtain s1 where s1: "mp_wstep (WListenCommit k) s = Some s1"
    using h i assms(5) by (cases "mp_wstep (WListenCommit k) s") (simp_all add: mp_listen_commit_def)
  obtain w where w: "wstep (WListenCommit k) (mp_wire s) = Some w" "s1 = s\<lparr>mp_wire := w\<rparr>"
    using s1 by (rule mp_wstep_elim)
  obtain e w' a where e: "listen_commit e (aw_client (mp_wire s)) = Some a" "w = wire_ended t (e, w') a (mp_wire s)"
    using w(1) h by (auto simp: wire_listen_commit_def Let_def split: if_splits) (metis prod.collapse)
  then have free: "holder_tag (awriter (aw_client w)) = None"
    using h by (auto simp: listen_commit_def register_def wire_ended_def split: if_splits)
  have open_words: "aw_open (mp_wire s) = tagged monitor_words t" using assms(1) h by (simp add: cancels_ok_def)
  have sent: "(c, ws) \<in> set (aw_sent w) \<Longrightarrow> (c, ws) \<in> set (aw_sent (mp_wire s)) \<or> ws = tagged monitor_words c" for c ws
    using e(2) open_words by (auto simp: wire_ended_def split: if_splits)
  have cs: "aw_cancels w = aw_cancels (mp_wire s)" using e(2) by (simp add: wire_ended_def)
  have s': "mp_wire s' = w" "mp_interrupted s' = mp_interrupted s"
    "mp_stream s' = mp_stream s
      \<or> mp_stream s' = (mp_stream s)(i := (mp_stream s i)\<lparr>st_tag := t, st_reader := RReady, st_waiter := SWait\<rparr>)"
    using assms(5) h i s1 w(2) by (auto simp: mp_listen_commit_def mp_say_def mp_set_def split: if_splits)
  have mono: "cancel_due s' u" if "cancel_due s u" for u
    by (rule cancel_due_mono [OF that]) (use s'(3) m in \<open>auto simp: stream_started_def split: if_splits\<close>)
  have "cancels_ok s'"
    using assms(1) mono free s'(1) cs sent unfolding cancels_ok_def by (metis option.distinct(1))
  moreover have "t \<noteq> st_tag (mp_stream s j)" if "stream_started s j" for j
  proof -
    have "tap (mp_wire s) (st_tag (mp_stream s j)) \<noteq> None"
      using assms(2) [unfolded mp_inv_def, THEN conjunct1, rule_format, of j] that
      by (cases "st_reader (mp_stream s j)") (auto simp: multi_stream_ok_def stream_started_def tap_ok_def)
    moreover have "aprocs (aw_client (mp_wire s)) t = None" using holder_new [OF wreaches_ainv [OF assms(4)]] h by simp
    ultimately show ?thesis by (auto simp: tap_def)
  qed
  then have "streams_ok s'"
    using assms(1) s'(2,3) m by (auto simp: streams_ok_def stream_started_def split: if_splits) blast+
  ultimately show ?thesis ..
qed

lemma wire_cancel_tag_fields:
  "aw_sent (wire_cancel_tag t w) = aw_sent w" "aw_open (wire_cancel_tag t w) = aw_open w"
  "set (aw_cancels (wire_cancel_tag t w)) \<subseteq> insert (tag_of CHR ''c'' (anext (aw_client w) + 1), t) (set (aw_cancels w))"
  by (auto simp: wire_cancel_tag_def Let_def)

lemma waiter_tag_cancels:
  assumes "cancels_ok s \<and> streams_ok s" "mp_inv s" "mp_waiter_tag i s = Some s'"
  shows "cancels_ok s' \<and> streams_ok s'"
proof -
  obtain s1 x where x: "st_waiter (mp_stream s i) = SWait" "st_ctx_done (mp_stream s i)"
    "mp_wstep (WCancelTag (st_tag (mp_stream s i))) s = Some s1" "s' = mp_set i ((mp_stream s i)\<lparr>st_waiter := x\<rparr>) s1"
    using assms(3) by (auto simp: mp_waiter_tag_def Let_def split: if_splits)
  obtain w where w: "wstep (WCancelTag (st_tag (mp_stream s i))) (mp_wire s) = Some w" "s1 = s\<lparr>mp_wire := w\<rparr>"
    using x(3) by (rule mp_wstep_elim)
  have "stream_started s i"
    using assms(2) x(1) by (auto simp: mp_inv_def multi_stream_ok_def stream_started_def split: stream_reader.splits)
  with x(2) have due: "cancel_due s (st_tag (mp_stream s i))" by (auto simp: cancel_due_def)
  have same: "streams_ok s' = streams_ok s" "\<And>t. cancel_due s' t = cancel_due s t"
    using x(4) w(2) by (auto intro!: streams_same simp: mp_set_def stream_keeps_def)
  have w': "mp_wire s' = w" "w = wire_cancel_tag (st_tag (mp_stream s i)) (mp_wire s)" using x(4) w by (simp_all add: mp_set_def)
  have "aw_sent (mp_wire s') = aw_sent (mp_wire s)" "aw_open (mp_wire s') = aw_open (mp_wire s)"
    by (simp_all add: w' wire_cancel_tag_fields)
  moreover have "awriter (aw_client (mp_wire s')) = awriter (aw_client (mp_wire s))"
    using cancel_tag_writer [OF w(1)] w'(1) by simp
  moreover have "(c, u) \<in> set (aw_cancels (mp_wire s)) \<or> u = st_tag (mp_stream s i)"
    if "(c, u) \<in> set (aw_cancels (mp_wire s'))" for c u
    using that wire_cancel_tag_fields(3) [of "st_tag (mp_stream s i)" "mp_wire s"] by (auto simp: w')
  ultimately show ?thesis using assms(1) due same unfolding cancels_ok_def by metis
qed

lemma waiter_write_cancels:
  assumes "cancels_ok s \<and> streams_ok s" "mp_waiter_write i k s = Some s'"
  shows "cancels_ok s' \<and> streams_ok s'"
proof -
  obtain s1 c where x: "mp_wstep (WCancelWrite c k) s = Some s1" "s' = mp_set i ((mp_stream s i)\<lparr>st_waiter := SOver\<rparr>) s1"
    using assms(2) by (auto simp: mp_waiter_write_def split: stream_waiter.splits)
  obtain w where w: "wstep (WCancelWrite c k) (mp_wire s) = Some w" "s1 = s\<lparr>mp_wire := w\<rparr>"
    using x(1) by (rule mp_wstep_elim)
  have same: "streams_ok s' = streams_ok s" "\<And>t. cancel_due s' t = cancel_due s t"
    using x(2) w(2) by (auto intro!: streams_same simp: mp_set_def stream_keeps_def)
  have "wire_cancel_write c k (mp_wire s) = Some w" using w(1) by simp
  then obtain target a and e :: "goerr option" and w' where e: "map_of (aw_cancels (mp_wire s)) c = Some target" "cancel_write c (aw_client (mp_wire s)) = Some a"
    "w = (mp_wire s)\<lparr>aw_client := a, aw_out := w', aw_cancels := filter (\<lambda>p. fst p \<noteq> c) (aw_cancels (mp_wire s)),
       aw_sent := (if e = None then aw_sent (mp_wire s) @ [(c, cancel_sentence target c)] else aw_sent (mp_wire s))\<rparr>"
    by (rule wire_cancel_shape) (rule that; assumption)
  have "cancel_due s target" using assms(1) map_of_SomeD [OF e(1)] by (auto simp: cancels_ok_def)
  moreover have "holder_tag (awriter a) = None" using e(2) by (auto simp: cancel_write_def split: if_splits)
  moreover have "mp_wire s' = w" using x(2) w(2) by (simp add: mp_set_def)
  ultimately show ?thesis using assms(1) same e(3) by (auto simp: cancels_ok_def split: if_splits)
qed

lemma mp_step_cancels:
  assumes "cancels_ok s \<and> streams_ok s" "mp_inv s" "wreaches w0 src (mp_wire s)" "mp_step e s = Some s'"
  shows "cancels_ok s' \<and> streams_ok s'"
proof -
  have st: "mp_status s = None" and mv: "mp_move e s = Some s'"
    using assms(4) by (simp_all add: mp_step_def split: if_splits)
  note same = same_streams [OF assms(1)]
  show ?thesis
  proof (cases e)
    case (MpListenBegin i k)
    with mv listen_begin_cancels [OF assms(1)] show ?thesis by simp
  next
    case (MpListenCommit k)
    with mv listen_commit_cancels [OF assms(1,2) st assms(3)] show ?thesis by simp
  next
    case MpReaders
    with mv assms(2) show ?thesis
      by (intro same) (auto simp: mp_readers_def mp_say_def mp_set_def stream_keeps_def mp_inv_def main_ok_def split: if_splits)
  next
    case (MpReceive i)
    with mv have r: "mp_wstep (WLocal (EvReceive (st_tag (mp_stream s i)))) s = Some s'"
      by (auto simp: mp_receive_def Let_def split: if_splits)
    show ?thesis by (rule silent_prog [OF assms(1) r]) simp_all
  next
    case (MpCount i)
    with mv show ?thesis
      by (intro same) (auto simp: mp_count_def mp_say_def mp_set_def stream_keeps_def Let_def split: if_splits)
  next
    case (MpEnded i)
    with mv show ?thesis
      by (intro same) (auto simp: mp_ended_def mp_say_def mp_set_def mp_reads_def stream_keeps_def Let_def split: if_splits)
  next
    case MpExpire
    with mv have s': "s' = mp_expire s" by simp
    have "cancels_ok s'"
      using assms(1) by (intro cancels_ok_grow [of s s'])
        (auto simp: s' mp_expire_def mp_set_def cancels_ok_def stream_started_def intro: cancel_due_mono)
    moreover have "streams_ok s'"
      using assms(1) by (auto simp: s' streams_ok_def mp_expire_def mp_set_def stream_started_def)
    ultimately show ?thesis ..
  next
    case MpInterrupt
    with mv have s': "s' = mp_interrupt s" by simp
    have "cancels_ok s'"
      using assms(1) by (intro cancels_ok_grow [of s s'])
        (auto simp: s' mp_interrupt_def mp_expire_def mp_set_def cancels_ok_def stream_started_def intro: cancel_due_mono)
    moreover have "streams_ok s'"
      using assms(1) by (auto simp: s' streams_ok_def mp_interrupt_def mp_expire_def mp_set_def stream_started_def)
    ultimately show ?thesis ..
  next
    case (MpWaiterStop i)
    with mv show ?thesis
      by (intro same) (auto simp: mp_waiter_stop_def mp_set_def stream_keeps_def split: stream_waiter.splits option.splits if_splits)
  next
    case (MpWaiterTag i)
    with mv waiter_tag_cancels [OF assms(1,2)] show ?thesis by simp
  next
    case (MpWaiterWrite i k)
    with mv waiter_write_cancels [OF assms(1)] show ?thesis by simp
  next
    case MpFirstOver
    with mv show ?thesis by (intro same) (auto simp: mp_first_over_def mp_say_def split: if_splits)
  next
    case (MpReturn b)
    with mv show ?thesis by (intro same) (auto simp: mp_return_def mp_say_def split: if_splits)
  next
    case MpClose
    with mv obtain s1 where s1: "mp_wstep (WLocal EvClose) s = Some s1" "s' = s1\<lparr>mp_main := MmClosed\<rparr>"
      by (auto simp: mp_close_def split: if_splits)
    show ?thesis by (rule silent_prog [OF assms(1) s1(1)]) (simp_all add: s1(2))
  next
    case MpExit
    with mv show ?thesis by (intro same) (auto simp: mp_exit_def split: if_splits)
  next
    case (MpLoop ev)
    with mv have l: "loop_wevent ev" "mp_wstep ev s = Some s'" by (auto simp: mp_loop_def may_step_def split: if_splits)
    show ?thesis by (rule silent_prog [OF assms(1) l(2)]) (simp_all add: l(1))
  qed
qed

lemma mp_reach_cancels: "mp_reach w0 src s \<Longrightarrow> cancels_ok s \<and> streams_ok s"
proof (induction rule: mp_reach.induct)
  case mp_reach_start
  then show ?case
    by (simp add: cancels_ok_def streams_ok_def multi_start_def no_stream_def stream_started_def wire_init_def async_init_def)
next
  case (mp_reach_step s e s')
  then show ?case using mp_step_cancels [of s w0 src e s'] mp_reach_inv [of w0 src s] by blast
qed

text \<open>A stream that has printed its end was ended by a sentence of its own.\<close>

lemma ended_by_own_sentence:
  assumes "mp_reach w0 src s" "EndedStream i n err \<in> set (mp_out s)" "\<forall>e. apc (aw_client (mp_wire s)) \<noteq> LEnded e"
  shows "\<exists>qs sen sets. conversation (st_tag (mp_stream s i)) (aw_client (mp_wire s)) = qs @ [sen] \<and> list_all quiet qs
    \<and> sen_tag sen = st_tag (mp_stream s i) \<and> listen_verdict sen = (True, err, sets) \<and> n = length (rows_of qs)"
proof -
  have inv: "mp_inv s" and r: "wreaches w0 src (mp_wire s)" using mp_reach_inv [OF assms(1)] by simp_all
  let ?t = "st_tag (mp_stream s i)" and ?a = "aw_client (mp_wire s)"
  from inv assms(2) have st: "st_reader (mp_stream s i) = ROver err" "st_count (mp_stream s i) = n"
    by (auto simp: mp_inv_def said_ok_def)
  have "multi_stream_ok (mp_wire s) (mp_stream s i)" using inv by (simp add: mp_inv_def)
  with st have c: "tap_ok (\<lambda>x. ()) (mp_wire s) ?t n (replicate n ())" "tap_closed (mp_wire s) ?t n" "tap_err (mp_wire s) ?t = err"
    by (simp_all add: multi_stream_ok_def)
  then obtain p where p: "aprocs ?a ?t = Some p" "pkind p \<noteq> KRun" "pclosed p" "perr p = err" "pqueue p = []"
    "n = length (preceived p)"
    by (auto simp: tap_ok_def tap_closed_def tap_err_def tap_def split: option.splits)
  have "\<forall>e. \<not> leaving (apc ?a) ?t e"
    using wreaches_ainv [OF r] p(1,3) by (auto simp: leaving_def ainv_def inv_pc_def inv_closed_def inv_open_def)
  moreover have "hears (apc ?a) ?t (conversation ?t ?a) p"
    using areach_hears [OF wreaches_client [OF r] p(1,2)] .
  ultimately have "ended_by (conversation ?t ?a) err (done_sen (preply p))"
    using p(3,4) assms(3) by (simp add: hears_def)
  then obtain qs sen sets where e: "conversation ?t ?a = qs @ [sen]" "list_all quiet qs" "\<not> quiet sen"
    "listen_verdict sen = (True, err, sets)" by (auto simp: ended_by_def)
  obtain cap where "pkind p = KListen cap" using p(2) by (cases "pkind p") auto
  then have "preceived p = rows_of (conversation ?t ?a)" using tap_rows(2) [OF r, of ?t p cap] p(1,5) by (simp add: tap_def)
  then have "n = length (rows_of qs)" using e(1,3) p(6) by (simp add: rows_of_def quiet_words)
  moreover have "sen \<in> set (conversation ?t ?a)" by (simp add: e(1))
  then have "sen_tag sen = ?t" by (simp add: conversation_def)
  ultimately show ?thesis using e by blast
qed

subsection \<open>Properties\<close>

definition sample_multi_answer :: stream where
  "sample_multi_answer =
     \<lparr>pending = sentence_bytes [''!re'', ''.tag=l1''] @ sentence_bytes [''!re'', ''.tag=l2'']
        @ sentence_bytes [''!trap'', ''.tag=l1'', ''=category=2''] @ sentence_bytes [''!re'', ''.tag=l2''], fin = IoEOF\<rparr>"

definition sample_multi :: "mp_event list" where
  "sample_multi =
     [MpListenBegin 1 9, MpListenCommit 9, MpListenBegin 2 9, MpListenCommit 9, MpReaders,
      MpLoop WRead, MpLoop WLookup, MpLoop (WLocal (EvProcess False)), MpReceive 1, MpCount 1,
      MpLoop WRead, MpLoop WLookup, MpLoop (WLocal (EvProcess True)), MpCount 2, MpExpire, MpFirstOver,
      MpWaiterTag 1, MpWaiterWrite 1 9, MpLoop WRead, MpLoop WLookup, MpLoop (WLocal (EvProcess False)),
      MpLoop (WLocal EvDelete), MpLoop (WLocal EvCloseReply), MpEnded 1,
      MpLoop WRead, MpLoop WLookup, MpLoop (WLocal (EvProcess False)), MpReceive 2, MpCount 2]"

text \<open>C34: In \<open>examples/multi_listen\<close> cancelling one stream leaves the other alone.  The streams have different tags; all the
program ever sends are the requests of its listeners and cancellations of the tag of a stream whose own context is done: of
stream 1 after its timeout or an interrupt, of stream 2 only after an interrupt.  And while the loop runs, a stream that has
printed its end was ended by a final sentence of its own, it has counted every data sentence before that one, and the error
it printed is that sentence's.\<close>

theorem multi_listen_independent:
  assumes "mp_reach w0 src s"
  shows "(\<forall>i j. i \<noteq> j \<and> stream_started s i \<and> stream_started s j \<longrightarrow> st_tag (mp_stream s i) \<noteq> st_tag (mp_stream s j))
    \<and> (\<forall>(c, ws) \<in> set (aw_sent (mp_wire s)). ws = tagged monitor_words c
         \<or> stream_started s 1 \<and> st_ctx_done (mp_stream s 1) \<and> ws = cancel_sentence (st_tag (mp_stream s 1)) c
         \<or> stream_started s 2 \<and> mp_interrupted s \<and> ws = cancel_sentence (st_tag (mp_stream s 2)) c)
    \<and> (\<forall>i n err. EndedStream i n err \<in> set (mp_out s) \<and> (\<forall>e. apc (aw_client (mp_wire s)) \<noteq> LEnded e) \<longrightarrow>
         (\<exists>qs sen sets. conversation (st_tag (mp_stream s i)) (aw_client (mp_wire s)) = qs @ [sen] \<and> list_all quiet qs
            \<and> sen_tag sen = st_tag (mp_stream s i) \<and> listen_verdict sen = (True, err, sets) \<and> n = length (rows_of qs)))"
proof (intro conjI)
  have ok: "cancels_ok s" "streams_ok s" using mp_reach_cancels [OF assms] by simp_all
  then show "\<forall>i j. i \<noteq> j \<and> stream_started s i \<and> stream_started s j \<longrightarrow> st_tag (mp_stream s i) \<noteq> st_tag (mp_stream s j)"
    by (simp add: streams_ok_def)
  show "\<forall>(c, ws) \<in> set (aw_sent (mp_wire s)). ws = tagged monitor_words c
         \<or> stream_started s 1 \<and> st_ctx_done (mp_stream s 1) \<and> ws = cancel_sentence (st_tag (mp_stream s 1)) c
         \<or> stream_started s 2 \<and> mp_interrupted s \<and> ws = cancel_sentence (st_tag (mp_stream s 2)) c"
  proof
    fix x
    assume x: "x \<in> set (aw_sent (mp_wire s))"
    obtain c ws where cw: "x = (c, ws)" by (cases x)
    have "ws = tagged monitor_words c \<or> (\<exists>t. ws = cancel_sentence t c \<and> cancel_due s t)"
      using ok(1) x cw by (simp add: cancels_ok_def)
    moreover have "i = 1 \<or> i = 2 \<and> mp_interrupted s" if "st_ctx_done (mp_stream s i)" for i
      using ok(2) that by (simp add: streams_ok_def)
    ultimately have "ws = tagged monitor_words c
         \<or> stream_started s 1 \<and> st_ctx_done (mp_stream s 1) \<and> ws = cancel_sentence (st_tag (mp_stream s 1)) c
         \<or> stream_started s 2 \<and> mp_interrupted s \<and> ws = cancel_sentence (st_tag (mp_stream s 2)) c"
      unfolding cancel_due_def by metis
    with cw show "case x of (c, ws) \<Rightarrow> ws = tagged monitor_words c
         \<or> stream_started s 1 \<and> st_ctx_done (mp_stream s 1) \<and> ws = cancel_sentence (st_tag (mp_stream s 1)) c
         \<or> stream_started s 2 \<and> mp_interrupted s \<and> ws = cancel_sentence (st_tag (mp_stream s 2)) c"
      by simp
  qed
qed (use ended_by_own_sentence [OF assms] in blast)

lemma multi_listen_independent_witness:
  "\<exists>s qs sen. mp_run sample_multi (multi_start (wire_init (new_writer \<lparr>sent = [], room = None, cerr = IoEOF\<rparr>) sample_multi_answer)) = Some s
     \<and> EndedStream 1 1 None \<in> set (mp_out s) \<and> Received 2 2 \<in> set (mp_out s)
     \<and> conversation ''l1'' (aw_client (mp_wire s)) = qs @ [sen] \<and> length (rows_of qs) = 1"
proof -
  let ?w = "new_writer \<lparr>sent = [], room = None, cerr = IoEOF\<rparr>"
  let ?P = "\<lambda>s. apc (aw_client (mp_wire s)) = LRead \<and> list_ex ((=) (EndedStream 1 1 None)) (mp_out s)
    \<and> list_ex ((=) (Received 2 2)) (mp_out s) \<and> st_tag (mp_stream s 1) = ''l1''"
  have "case mp_run sample_multi (multi_start (wire_init ?w sample_multi_answer)) of None \<Rightarrow> False | Some s \<Rightarrow> ?P s"
    by code_simp
  then obtain s where s: "mp_run sample_multi (multi_start (wire_init ?w sample_multi_answer)) = Some s" "?P s"
    by (cases "mp_run sample_multi (multi_start (wire_init ?w sample_multi_answer))") simp_all
  have "mp_reach ?w sample_multi_answer (multi_start (wire_init ?w sample_multi_answer))"
    by (rule mp_reach.mp_reach_start) (simp add: new_writer_def)
  from mp_reach_run [OF this s(1)] have r: "mp_reach ?w sample_multi_answer s" .
  have "EndedStream 1 1 None \<in> set (mp_out s)" "\<forall>e. apc (aw_client (mp_wire s)) \<noteq> LEnded e"
    using s(2) by (auto simp: list_ex_iff)
  then obtain qs sen where "conversation (st_tag (mp_stream s 1)) (aw_client (mp_wire s)) = qs @ [sen]" "1 = length (rows_of qs)"
    using multi_listen_independent [OF r] by meson
  with s show ?thesis by (auto simp: list_ex_iff)
qed

text \<open>
  The last line is printed when the time is over, whatever has become of the second stream: here the device has ended
  it before the first one was cancelled.
\<close>

definition sample_survivor :: "mp_event list" where
  "sample_survivor =
     [MpListenBegin 1 9, MpListenCommit 9, MpListenBegin 2 9, MpListenCommit 9, MpReaders,
      MpLoop WRead, MpLoop WLookup, MpLoop (WLocal (EvProcess False)), MpLoop (WLocal EvDelete),
      MpLoop (WLocal EvCloseReply), MpEnded 2, MpExpire, MpFirstOver, MpReturn True]"

lemma success_line_without_survivor:
  "case mp_run sample_survivor (multi_start (wire_init (new_writer \<lparr>sent = [], room = None, cerr = IoEOF\<rparr>)
       \<lparr>pending = sentence_bytes [''!done'', ''.tag=l2''], fin = IoEOF\<rparr>)) of
     None \<Rightarrow> False
   | Some s \<Rightarrow> list_ex ((=) (EndedStream 2 0 None)) (mp_out s)
       \<and> last (mp_out s) = Line ''=== SUCCESS: stream2 survived 8s after stream1 was cancelled! ===''"
  by code_simp

end
