(* ===== verification/Client_Log.thy ===== *)
theory Client_Log
  imports Async_Drive Client_Conn
begin

text \<open>
  The log of the client: \<open>SetLogHandler\<close> and \<open>logger\<close> of \<open>client.go\<close>, the handlers of \<open>logger.go\<close> as far as a
  logger looks at them, and what \<open>run.go\<close> and \<open>listen.go\<close> log.  The log is kept beside the client.
\<close>

subsection \<open>Handlers and records\<close>

text \<open>
  A handler is asked whether it takes a level, and then handed the record.  Levels are those of \<open>log/slog\<close>:
  \<open>Debug\<close> is -4 and \<open>Info\<close> 0.
\<close>

datatype log_value = LogWords "string list" | LogText string

record log_record =
  lr_level :: int
  lr_message :: string
  lr_key :: string
  lr_value :: log_value

record logging =
  lg_enabled :: "int \<Rightarrow> bool"
  lg_records :: "log_record list"

definition default_handler :: "int \<Rightarrow> bool" where
  "default_handler level \<longleftrightarrow> 0 \<le> level"

definition new_logging :: logging where
  "new_logging = \<lparr>lg_enabled = default_handler, lg_records = []\<rparr>"

definition set_log_handler :: "(int \<Rightarrow> bool) \<Rightarrow> logging \<Rightarrow> logging" where
  "set_log_handler enabled lg = lg\<lparr>lg_enabled := enabled\<rparr>"

definition log_debug :: "string \<Rightarrow> string \<Rightarrow> log_value \<Rightarrow> logging \<Rightarrow> logging" where
  "log_debug message key val lg =
     (if lg_enabled lg (-4)
      then lg\<lparr>lg_records := lg_records lg @ [\<lparr>lr_level = -4, lr_message = message, lr_key = key, lr_value = val\<rparr>]\<rparr>
      else lg)"

subsection \<open>What the client logs\<close>

text \<open>Every call logs its words before it takes the writer; in synchronous mode that is all.\<close>

definition logged_run :: "'c runner \<Rightarrow> (logging \<times> 'c) runner" where
  "logged_run run ws =
     (\<lambda>(lg, c). let lg' = log_debug ''RunArgsContext'' ''sentences'' (LogWords ws) lg; (r, c') = run ws c in (r, (lg', c')))"

text \<open>In asynchronous mode a call logs its tag when it has the writer, and so does a listener.\<close>

definition logged_async_call :: "nat \<Rightarrow> nat \<Rightarrow> (logging \<times> awire) runner" where
  "logged_async_call i j ws =
     (\<lambda>(lg, s). let lg1 = log_debug ''RunArgsContext'' ''sentences'' (LogWords ws) lg;
          lg2 = (case wstep (WRunBegin ws (whole ws)) (turns i s) of
                   None \<Rightarrow> lg1
                 | Some s1 \<Rightarrow> log_debug ''set tag'' ''tag'' (LogText (the (holder_tag (awriter (aw_client s1))))) lg1);
          (r, s') = async_call i j ws s
        in (r, (lg2, s')))"

definition logged_listen_begin :: "string list \<Rightarrow> nat \<Rightarrow> nat \<Rightarrow> bool \<Rightarrow> logging \<times> awire \<Rightarrow> (logging \<times> awire) option" where
  "logged_listen_begin ws k n with_ctx =
     (\<lambda>(lg, s). map_option (\<lambda>s1.
          (log_debug ''set listener tag'' ''tag'' (LogText (the (holder_tag (awriter (aw_client s1)))))
             (log_debug ''ListenArgsQueueContext'' ''sentences'' (LogWords ws) lg), s1))
        (wstep (WListenBegin ws k n with_ctx) s))"

subsection \<open>The log does not interfere\<close>

lemma log_debug_enabled [simp]: "lg_enabled (log_debug m k v lg) = lg_enabled lg"
  by (simp add: log_debug_def)

lemma logged_run_plain: "logged_run run ws (lg, c) = (r, (lg', c')) \<longleftrightarrow>
    run ws c = (r, c') \<and> lg' = log_debug ''RunArgsContext'' ''sentences'' (LogWords ws) lg"
  by (auto simp: logged_run_def split: prod.splits)

lemma logged_async_plain: "map_prod id snd (logged_async_call i j ws (lg, s)) = async_call i j ws s"
  by (simp add: logged_async_call_def Let_def split: prod.split)

text \<open>
  A session on a client in synchronous mode: calls, and changes of the handler.  The calls return what they return without a log,
  and the log holds the words of every call made while the handler took \<open>Debug\<close>.
\<close>

datatype client_op = OpRun "string list" | OpHandler "int \<Rightarrow> bool"

fun logged_session :: "'c runner \<Rightarrow> client_op list \<Rightarrow> (logging \<times> 'c) \<Rightarrow> run_outcome list \<times> (logging \<times> 'c)" where
  "logged_session run [] s = ([], s)"
| "logged_session run (OpRun ws # ops) s =
     (let (r, s1) = logged_run run ws s; (rs, s2) = logged_session run ops s1 in (r # rs, s2))"
| "logged_session run (OpHandler h # ops) s = logged_session run ops (set_log_handler h (fst s), snd s)"

fun plain_session :: "'c runner \<Rightarrow> client_op list \<Rightarrow> 'c \<Rightarrow> run_outcome list \<times> 'c" where
  "plain_session run [] c = ([], c)"
| "plain_session run (OpRun ws # ops) c = (let (r, c1) = run ws c; (rs, c2) = plain_session run ops c1 in (r # rs, c2))"
| "plain_session run (OpHandler h # ops) c = plain_session run ops c"

fun session_log :: "(int \<Rightarrow> bool) \<Rightarrow> client_op list \<Rightarrow> log_record list" where
  "session_log h [] = []"
| "session_log h (OpRun ws # ops) =
     (if h (-4) then [\<lparr>lr_level = -4, lr_message = ''RunArgsContext'', lr_key = ''sentences'', lr_value = LogWords ws\<rparr>] else [])
     @ session_log h ops"
| "session_log h (OpHandler h' # ops) = session_log h' ops"

lemma logged_session_exact:
  assumes "logged_session run ops (lg, c) = (rs, (lg', c'))"
  shows "plain_session run ops c = (rs, c') \<and> lg_records lg' = lg_records lg @ session_log (lg_enabled lg) ops"
  using assms
proof (induction ops arbitrary: lg c rs)
  case Nil
  then show ?case by simp
next
  case (Cons op ops)
  show ?case
  proof (cases op)
    case (OpRun ws)
    with Cons.prems obtain r lg1 c1 rs1 where s: "logged_run run ws (lg, c) = (r, (lg1, c1))"
      "logged_session run ops (lg1, c1) = (rs1, (lg', c'))" "rs = r # rs1"
      by (auto simp: Let_def split: prod.splits)
    then have "run ws c = (r, c1)" "lg1 = log_debug ''RunArgsContext'' ''sentences'' (LogWords ws) lg"
      by (simp_all add: logged_run_plain)
    with Cons.IH [OF s(2)] OpRun s(3) show ?thesis by (simp add: log_debug_def)
  next
    case (OpHandler h)
    with Cons.prems Cons.IH [of "set_log_handler h lg" c rs] show ?thesis by (simp add: set_log_handler_def)
  qed
qed

interpretation logged_client: replying "logged_run run_sync" "\<lambda>s. \<not> wlocked (cw (snd s))"
proof
  fix s :: "logging \<times> client" and ws
  assume "\<not> wlocked (cw (snd s))"
  then obtain r e c' where "run_sync ws (snd s) = (Returns (r, e), c')" "\<not> wlocked (cw c')"
    "e = None \<longrightarrow> (\<exists>rep sen. r = Some rep \<and> done_sen rep = Some sen)"
    using sync_client.replies by blast
  then show "\<exists>r e s'. logged_run run_sync ws s = (Returns (r, e), s') \<and> \<not> wlocked (cw (snd s'))
      \<and> (e = None \<longrightarrow> (\<exists>rep sen. r = Some rep \<and> done_sen rep = Some sen))"
    by (cases s) (auto simp: logged_run_plain)
qed

subsection \<open>Secrets\<close>

definition login_words :: "string \<Rightarrow> string \<Rightarrow> string list" where
  "login_words user password = [''/login'', ''=name='' @ user, ''=password='' @ password]"

text \<open>What one call logs: its words, and in asynchronous mode its tag when it has the writer.\<close>

definition debug_record :: "string \<Rightarrow> string \<Rightarrow> log_value \<Rightarrow> log_record" where
  "debug_record message key val = \<lparr>lr_level = -4, lr_message = message, lr_key = key, lr_value = val\<rparr>"

definition call_records :: "string list \<Rightarrow> string list \<Rightarrow> log_record list" where
  "call_records ws ts =
     debug_record ''RunArgsContext'' ''sentences'' (LogWords ws) # map (\<lambda>t. debug_record ''set tag'' ''tag'' (LogText t)) ts"

definition log_all :: "log_record list \<Rightarrow> logging \<Rightarrow> logging" where
  "log_all rs lg = (if lg_enabled lg (-4) then lg\<lparr>lg_records := lg_records lg @ rs\<rparr> else lg)"

lemma log_all_append: "log_all rs' (log_all rs lg) = log_all (rs @ rs') lg"
  by (simp add: log_all_def)

text \<open>A runner with a log: it is the runner, and logs the words of a call and at most \<open>n\<close> tags after them.\<close>

definition noting :: "nat \<Rightarrow> (logging \<times> 'c) runner \<Rightarrow> 'c runner \<Rightarrow> bool" where
  "noting n lrun run \<longleftrightarrow>
     (\<forall>ws lg c. \<exists>ts. length ts \<le> n
        \<and> lrun ws (lg, c) = (case run ws c of (r, c') \<Rightarrow> (r, (log_all (call_records ws ts) lg, c'))))"

lemma notingE:
  assumes "noting n lrun run" "run ws c = (r, c')"
  obtains ts where "length ts \<le> n" "lrun ws (lg, c) = (r, (log_all (call_records ws ts) lg, c'))"
  using assms(1) [unfolded noting_def, rule_format, of ws lg c] assms(2) by auto

lemma noting_sync: "noting 0 (logged_run run) run"
  by (auto simp: noting_def logged_run_def log_debug_def log_all_def call_records_def debug_record_def Let_def split: prod.split)

lemma noting_async: "noting 1 (logged_async_call i j) (async_call i j)"
  unfolding noting_def
proof (intro allI)
  fix ws lg s
  show "\<exists>ts. length ts \<le> 1 \<and> logged_async_call i j ws (lg, s)
      = (case async_call i j ws s of (r, s') \<Rightarrow> (r, (log_all (call_records ws ts) lg, s')))"
  proof (cases "wstep (WRunBegin ws (whole ws)) (turns i s)")
    case None
    then show ?thesis
      by (intro exI [of _ "[]"]) (auto simp: logged_async_call_def log_debug_def log_all_def call_records_def
        debug_record_def Let_def split: prod.split)
  next
    case (Some s1)
    then show ?thesis
      by (intro exI [of _ "[the (holder_tag (awriter (aw_client s1)))]"])
        (auto simp: logged_async_call_def log_debug_def log_all_def call_records_def debug_record_def Let_def
          simp del: wstep.simps split: prod.split)
  qed
qed

text \<open>
  What the login of a logging client leaves in the log when the handler takes \<open>Debug\<close>: its first sentence, the answer
  to a challenge when it gives one, each with at most \<open>n\<close> tags, and nothing else.
\<close>

definition login_logged :: "nat \<Rightarrow> string \<Rightarrow> string \<Rightarrow> log_record list \<Rightarrow> bool" where
  "login_logged n user password rs \<longleftrightarrow>
     (\<exists>ts answer. rs = call_records (login_words user password) ts @ answer \<and> length ts \<le> n
        \<and> (answer = [] \<or> (\<exists>x us. length us \<le> n
             \<and> answer = call_records [''/login'', ''=name='' @ user, ''=response='' @ x] us)))"

lemma login_notes:
  assumes "noting n lrun run" "login md5 lrun user password (lg, c) = (out, (lg', c'))"
  shows "login md5 run user password c = (out, c') \<and> (\<exists>rs. login_logged n user password rs \<and> lg' = log_all rs lg)"
proof -
  obtain o1 c1 where r1: "run (login_words user password) c = (o1, c1)" by force
  obtain ts where r2: "length ts \<le> n"
    "lrun (login_words user password) (lg, c) = (o1, (log_all (call_records (login_words user password) ts) lg, c1))"
    using notingE [OF assms(1) r1] .
  have quiet_log: "login_logged n user password (call_records (login_words user password) ts)"
    using r2(1) by (auto simp: login_logged_def)
  show ?thesis
  proof (cases "\<exists>sen ret cha r. o1 = Returns (Some r, None) \<and> done_sen r = Some sen
      \<and> map_of (sen_map sen) ''ret'' = Some ret \<and> hex_decode ret = Inr cha")
    case True
    then obtain sen ret cha r where d: "o1 = Returns (Some r, None)" "done_sen r = Some sen"
      "map_of (sen_map sen) ''ret'' = Some ret" "hex_decode ret = Inr cha" by blast
    let ?ws = "[''/login'', ''=name='' @ user, ''=response='' @ challenge_response md5 cha password]"
    let ?lg = "log_all (call_records (login_words user password) ts) lg"
    obtain o2 c2 where r3: "run ?ws c1 = (o2, c2)" by force
    obtain us where r4: "length us \<le> n" "lrun ?ws (?lg, c1) = (o2, (log_all (call_records ?ws us) ?lg, c2))"
      using notingE [OF assms(1) r3] .
    have "login_logged n user password (call_records (login_words user password) ts @ call_records ?ws us)"
      using r2(1) r4(1) unfolding login_logged_def by blast
    moreover have "login md5 run user password c = (out, c')
        \<and> lg' = log_all (call_records (login_words user password) ts @ call_records ?ws us) lg"
      using assms(2) d r1 r2(2) r3 r4(2)
      by (simp add: login_def login_words_def log_all_append split: outcome.splits prod.splits)
    ultimately show ?thesis by blast
  next
    case False
    with assms(2) r1 r2(2) have "login md5 run user password c = (out, c')
        \<and> lg' = log_all (call_records (login_words user password) ts) lg"
      by (auto simp: login_def login_words_def split: outcome.splits prod.splits option.splits sum.splits)
    with quiet_log show ?thesis by blast
  qed
qed


lemma login_log_sample:
  "case login (\<lambda>b. b) (logged_run run_sync) ''admin'' ''secret''
        (set_log_handler (\<lambda>level. True) new_logging,
         new_client \<lparr>sent = [], room = None, cerr = IoEOF\<rparr> \<lparr>pending = sentence_bytes [''!done''], fin = IoEOF\<rparr>) of
     (out, (lg', c')) \<Rightarrow> out = Returns None
       \<and> map lr_value (lg_records lg') = [LogWords [''/login'', ''=name=admin'', ''=password=secret'']]"
  by code_simp

text \<open>Dialling logs in before anybody can set a handler, so it logs nothing.\<close>

lemma dial_logs_nothing:
  assumes "login md5 (logged_run run) user password (new_logging, c) = (out, (lg', c'))"
  shows "lg_records lg' = []"
  using login_notes [OF noting_sync assms] by (auto simp: log_all_def new_logging_def default_handler_def)

end
