(* ===== verification/Example_Flags.thy ===== *)
theory Example_Flags
  imports Example_Listen Example_Multi Client_Log "HOL-Library.AList"
begin

text \<open>
  The command lines of the example programs: the flags each declares, how the \<open>flag\<close> package of the standard
  library reads a command line into them, and \<open>main\<close> of each program from its arguments on.
\<close>

subsection \<open>The flag package\<close>

datatype flag_value = FString string | FBool bool | FDuration int
type_synonym flag_table = "(string \<times> flag_value) list"
datatype flag_problem = FlagHelp | FlagSyntax string | FlagUndefined string | FlagNoArgument string | FlagInvalid string string

definition parse_bool :: "string \<Rightarrow> bool option" where
  "parse_bool x =
     (if x \<in> set [''1'', ''t'', ''T'', ''true'', ''TRUE'', ''True''] then Some True
      else if x \<in> set [''0'', ''f'', ''F'', ''false'', ''FALSE'', ''False''] then Some False
      else None)"

text \<open>Setting a flag keeps its type; \<open>dur\<close> is \<open>time.ParseDuration\<close>.\<close>

fun flag_set :: "(string \<Rightarrow> int option) \<Rightarrow> string \<Rightarrow> flag_value \<Rightarrow> flag_value option" where
  "flag_set dur x (FString y) = Some (FString x)"
| "flag_set dur x (FBool b) = map_option FBool (parse_bool x)"
| "flag_set dur x (FDuration d) = map_option FDuration (dur x)"

datatype flag_word = NotFlag | EndOfFlags | BadFlag | IsFlag string "string option"

text \<open>A name and what follows its first \<open>=\<close>, which is not looked for at the start of the name.\<close>

fun flag_parts :: "string \<Rightarrow> flag_word" where
  "flag_parts [] = BadFlag"
| "flag_parts (c # x) =
     (if c = CHR ''-'' \<or> c = CHR ''='' then BadFlag
      else IsFlag (c # takeWhile (\<lambda>b. b \<noteq> CHR ''='') x)
        (case dropWhile (\<lambda>b. b \<noteq> CHR ''='') x of [] \<Rightarrow> None | b # y \<Rightarrow> Some y))"

fun flag_word_of :: "string \<Rightarrow> flag_word" where
  "flag_word_of (a # b # x) =
     (if a \<noteq> CHR ''-'' then NotFlag
      else if b = CHR ''-'' then (if x = [] then EndOfFlags else flag_parts x)
      else flag_parts (b # x))"
| "flag_word_of x = NotFlag"

text \<open>\<open>FlagSet.Parse\<close>: the flags in order, a later one over an earlier, up to the first word that is no flag.\<close>

fun parse_flags ::
  "(string \<Rightarrow> int option) \<Rightarrow> string list \<Rightarrow> flag_table \<Rightarrow> flag_problem + (flag_table \<times> string list)" where
  "parse_flags dur [] tb = Inr (tb, [])"
| "parse_flags dur (s # args) tb =
     (case flag_word_of s of
        NotFlag \<Rightarrow> Inr (tb, s # args)
      | EndOfFlags \<Rightarrow> Inr (tb, args)
      | BadFlag \<Rightarrow> Inl (FlagSyntax s)
      | IsFlag name x \<Rightarrow>
          (case map_of tb name of
             None \<Rightarrow> Inl (if name = ''help'' \<or> name = ''h'' then FlagHelp else FlagUndefined name)
           | Some old \<Rightarrow>
               (case x of
                  Some y \<Rightarrow>
                    (case flag_set dur y old of
                       None \<Rightarrow> Inl (FlagInvalid name y)
                     | Some new \<Rightarrow> parse_flags dur args (AList.update name new tb))
                | None \<Rightarrow>
                    (case old of
                       FBool b \<Rightarrow> parse_flags dur args (AList.update name (FBool True) tb)
                     | _ \<Rightarrow>
                         (case args of
                            [] \<Rightarrow> Inl (FlagNoArgument name)
                          | y # args' \<Rightarrow>
                              (case flag_set dur y old of
                                 None \<Rightarrow> Inl (FlagInvalid name y)
                               | Some new \<Rightarrow> parse_flags dur args' (AList.update name new tb)))))))"

text \<open>
  \<open>flag.CommandLine\<close> is an \<open>ExitOnError\<close> set: \<open>Parse\<close> returns no error, it ends the process, after a call
  for help with status 0 and after any other problem with status 2.
\<close>

fun flag_exit :: "flag_problem \<Rightarrow> nat" where
  "flag_exit FlagHelp = 0"
| "flag_exit p = 2"

definition flag_string :: "flag_table \<Rightarrow> string \<Rightarrow> string" where
  "flag_string tb name = (case map_of tb name of Some (FString x) \<Rightarrow> x | _ \<Rightarrow> [])"

definition flag_bool :: "flag_table \<Rightarrow> string \<Rightarrow> bool" where
  "flag_bool tb name = (case map_of tb name of Some (FBool b) \<Rightarrow> b | _ \<Rightarrow> False)"

subsection \<open>The flags of the programs\<close>

definition run_flag_table :: flag_table where
  "run_flag_table =
     [(''debug'', FBool False),
      (''command'', FString ''/system/resource/print''),
      (''address'', FString ''127.0.0.1:8728''),
      (''username'', FString ''admin''),
      (''password'', FString ''admin''),
      (''async'', FBool False),
      (''tls'', FBool False)]"

definition tab_flag_table :: flag_table where
  "tab_flag_table =
     [(''debug'', FBool False),
      (''address'', FString ''192.168.0.1:8728''),
      (''username'', FString ''admin''),
      (''password'', FString ''admin''),
      (''properties'', FString ''name,rx-byte,tx-byte,rx-packet,tx-packet''),
      (''interval'', FDuration 1000000000)]"

definition listen_flag_table :: flag_table where
  "listen_flag_table =
     [(''debug'', FBool False),
      (''command'', FString ''/ip/firewall/address-list/listen''),
      (''address'', FString ''127.0.0.1:8728''),
      (''username'', FString ''admin''),
      (''password'', FString ''admin''),
      (''timeout'', FDuration 10000000000),
      (''async'', FBool False),
      (''tls'', FBool False)]"

definition multi_flag_table :: flag_table where
  "multi_flag_table =
     [(''address'', FString ''192.168.88.1:8728''), (''username'', FString ''admin''), (''password'', FString ''admin'')]"

definition run_flags_of :: "flag_table \<Rightarrow> run_flags" where
  "run_flags_of tb =
     \<lparr>rf_command = flag_string tb ''command'', rf_address = flag_string tb ''address'',
      rf_username = flag_string tb ''username'', rf_password = flag_string tb ''password'',
      rf_async = flag_bool tb ''async'', rf_tls = flag_bool tb ''tls''\<rparr>"

definition tab_flags_of :: "flag_table \<Rightarrow> tab_flags" where
  "tab_flags_of tb =
     \<lparr>tf_address = flag_string tb ''address'', tf_username = flag_string tb ''username'',
      tf_password = flag_string tb ''password'', tf_properties = flag_string tb ''properties''\<rparr>"

subsection \<open>From the arguments on\<close>

definition run_main ::
  "('x, 't, 'n) network \<Rightarrow> 't \<Rightarrow> (string \<Rightarrow> int option) \<Rightarrow> string list \<Rightarrow> nat \<Rightarrow> nat \<Rightarrow> 'n program_end" where
  "run_main net nil_config dur args i j =
     (case parse_flags dur args run_flag_table of
        Inl p \<Rightarrow> (Returns [Exits (flag_exit p)], None)
      | Inr (tb, rest) \<Rightarrow> run_example net nil_config (run_flags_of tb) i j)"

definition tab_main ::
  "('x, 't, 'n) network \<Rightarrow> (string \<Rightarrow> int option) \<Rightarrow> string list \<Rightarrow> nat \<Rightarrow> 'n program_end" where
  "tab_main net dur args k =
     (case parse_flags dur args tab_flag_table of
        Inl p \<Rightarrow> (Returns [Exits (flag_exit p)], None)
      | Inr (tb, rest) \<Rightarrow> tab_example net (tab_flags_of tb) k)"

definition listen_program ::
  "('x, 't, 'n) network \<Rightarrow> 't \<Rightarrow> 'x dctx \<Rightarrow> (string \<Rightarrow> int option) \<Rightarrow> string list
     \<Rightarrow> (listen_event list \<times> nat + listen_prog) outcome \<times> 'n link option" where
  "listen_program net nil_config ctx dur args =
     (case parse_flags dur args listen_flag_table of
        Inl p \<Rightarrow> (Returns (Inl ([], flag_exit p)), None)
      | Inr (tb, rest) \<Rightarrow> listen_main net nil_config ctx (run_flags_of tb))"

definition multi_program ::
  "('x, 't, 'n) network \<Rightarrow> 'x dctx \<Rightarrow> (string \<Rightarrow> int option) \<Rightarrow> string list
     \<Rightarrow> (multi_event list \<times> nat + multi_prog) outcome \<times> 'n link option" where
  "multi_program net ctx dur args =
     (case parse_flags dur args multi_flag_table of
        Inl p \<Rightarrow> (Returns (Inl ([], flag_exit p)), None)
      | Inr (tb, rest) \<Rightarrow>
          multi_dial net ctx (flag_string tb ''address'') (flag_string tb ''username'') (flag_string tb ''password''))"

text \<open>The handler of \<open>main\<close>, and what the client of \<open>examples/run\<close> logs to it, which it gets after the dial.\<close>

definition example_handler :: "flag_table \<Rightarrow> int \<Rightarrow> bool" where
  "example_handler tb level \<longleftrightarrow> (if flag_bool tb ''debug'' then -4 else 0) \<le> level"

definition logged_example_call :: "nat \<Rightarrow> nat \<Rightarrow> run_flags \<Rightarrow> logging \<times> 'n link \<Rightarrow> run_outcome \<times> logging" where
  "logged_example_call i j fl s =
     (let ws = split_byte CHR '' '' (rf_command fl); l = snd s in
      if rf_async fl
      then (let w = wire_init (cw (lclient l)) (cr (lclient l));
                (r, lg', w') = logged_async_call i j ws (fst s, w\<lparr>aw_client := start_async (aw_client w)\<rparr>) in
            (r, lg'))
      else (let (r, lg', l') = logged_run link_run ws s in (r, lg')))"

definition run_main_log ::
  "('x, 't, 'n) network \<Rightarrow> 't \<Rightarrow> (string \<Rightarrow> int option) \<Rightarrow> string list \<Rightarrow> nat \<Rightarrow> nat \<Rightarrow> log_record list" where
  "run_main_log net nil_config dur args i j =
     (case parse_flags dur args run_flag_table of
        Inl p \<Rightarrow> []
      | Inr (tb, rest) \<Rightarrow>
          (case example_dial net nil_config (run_flags_of tb) of
             (Returns None, Some l) \<Rightarrow>
               lg_records (snd (logged_example_call i j (run_flags_of tb)
                 (set_log_handler (example_handler tb) new_logging, l)))
           | _ \<Rightarrow> []))"

subsection \<open>What the flags guarantee\<close>

fun flag_type :: "flag_value \<Rightarrow> nat" where
  "flag_type (FString x) = 0"
| "flag_type (FBool b) = 1"
| "flag_type (FDuration d) = 2"

definition flag_types :: "flag_table \<Rightarrow> (string \<times> nat) list" where
  "flag_types tb = map (\<lambda>(name, v). (name, flag_type v)) tb"

lemma flag_set_type: "flag_set dur x old = Some new \<Longrightarrow> flag_type new = flag_type old"
  by (cases old) auto

lemma flag_types_update:
  "map_of tb name = Some old \<Longrightarrow> flag_type new = flag_type old \<Longrightarrow> flag_types (AList.update name new tb) = flag_types tb"
  by (induction tb) (auto simp: flag_types_def split: if_splits)

text \<open>Parsing never adds, drops or retypes a flag, so the accessors above always find theirs.\<close>

lemma parse_flags_step:
  assumes "parse_flags dur (s # args) tb = Inr r"
  shows "fst r = tb \<or> (\<exists>args' name old new. length args' \<le> length args \<and> map_of tb name = Some old
    \<and> flag_type new = flag_type old \<and> parse_flags dur args' (AList.update name new tb) = Inr r)"
proof (cases "flag_word_of s")
  case (IsFlag name x)
  with assms obtain old where old: "map_of tb name = Some old" by (auto split: option.splits)
  have "\<exists>args' new. length args' \<le> length args \<and> flag_type new = flag_type old
    \<and> parse_flags dur args' (AList.update name new tb) = Inr r"
  proof (cases "x = None \<and> (\<exists>b. old = FBool b)")
    case True
    with assms IsFlag old have "parse_flags dur args (AList.update name (FBool True) tb) = Inr r" by auto
    moreover have "flag_type (FBool True) = flag_type old" using True by auto
    ultimately show ?thesis by blast
  next
    case False
    have "\<exists>y args'. length args' \<le> length args \<and>
      (case flag_set dur y old of None \<Rightarrow> Inl (FlagInvalid name y)
        | Some new \<Rightarrow> parse_flags dur args' (AList.update name new tb)) = Inr r"
    proof (cases x)
      case None
      with assms IsFlag old False obtain y args' where "args = y # args'" by (cases args; cases old) auto
      with assms IsFlag old False None show ?thesis
        by (intro exI [of _ y] exI [of _ args']) (cases old; simp del: flag_set.simps)
    next
      case (Some y)
      with assms IsFlag old show ?thesis by (intro exI [of _ y] exI [of _ args]) (simp del: flag_set.simps)
    qed
    then obtain y args' where v: "length args' \<le> length args"
      "(case flag_set dur y old of None \<Rightarrow> Inl (FlagInvalid name y)
        | Some new \<Rightarrow> parse_flags dur args' (AList.update name new tb)) = Inr r" by blast
    then show ?thesis by (cases "flag_set dur y old") (auto dest: flag_set_type)
  qed
  with old show ?thesis by blast
qed (use assms in auto)

lemma parse_flags_types: "parse_flags dur args tb = Inr (tb', rest) \<Longrightarrow> flag_types tb' = flag_types tb"
proof (induction "length args" arbitrary: args tb rule: less_induct)
  case less
  show ?case
  proof (cases args)
    case (Cons s args1)
    then consider "tb' = tb" | args' name old new where "length args' \<le> length args1" "map_of tb name = Some old"
      "flag_type new = flag_type old" "parse_flags dur args' (AList.update name new tb) = Inr (tb', rest)"
      using parse_flags_step [of dur s args1 tb "(tb', rest)"] less.prems by auto
    then show ?thesis
    proof cases
      case 2
      with Cons less.hyps [of args' "AList.update name new tb"] show ?thesis by (simp add: flag_types_update)
    qed simp
  qed (use less.prems in simp)
qed

lemma flag_types_map_of: "map_of (flag_types tb) name = map_option flag_type (map_of tb name)"
  by (induction tb) (auto simp: flag_types_def)

lemma flag_type_iff:
  "flag_type v = 0 \<longleftrightarrow> (\<exists>x. v = FString x)" "flag_type v = Suc 0 \<longleftrightarrow> (\<exists>b. v = FBool b)"
  by (cases v; simp)+

lemma flag_lookup:
  assumes "parse_flags dur args tb = Inr (tb', rest)"
  shows "map_of tb name = Some (FString x) \<Longrightarrow> \<exists>y. map_of tb' name = Some (FString y)"
    and "map_of tb name = Some (FBool b) \<Longrightarrow> \<exists>b'. map_of tb' name = Some (FBool b')"
proof -
  have "map_option flag_type (map_of tb' name) = map_option flag_type (map_of tb name)"
    using parse_flags_types [OF assms] by (metis flag_types_map_of)
  then show "map_of tb name = Some (FString x) \<Longrightarrow> \<exists>y. map_of tb' name = Some (FString y)"
    "map_of tb name = Some (FBool b) \<Longrightarrow> \<exists>b'. map_of tb' name = Some (FBool b')"
    by (auto simp: flag_type_iff)
qed

text \<open>A call for help before any other word ends with status 0, and an undeclared flag with status 2.\<close>

lemma help_first: "map_of tb ''help'' = None \<Longrightarrow> parse_flags dur (''-help'' # args) tb = Inl FlagHelp"
  by simp

text \<open>The words of a command line that sets flags to values.\<close>

definition bool_word :: "bool \<Rightarrow> string" where
  "bool_word b = (if b then ''true'' else ''false'')"

lemma parse_bool_word [simp]: "parse_bool (bool_word b) = Some b"
  by (simp add: parse_bool_def bool_word_def)

definition flag_setting :: "string \<Rightarrow> string \<Rightarrow> string" where
  "flag_setting name x = CHR ''-'' # name @ CHR ''='' # x"

lemma flag_word_setting:
  assumes "name \<noteq> []" "hd name \<noteq> CHR ''-''" "CHR ''='' \<notin> set name"
  shows "flag_word_of (flag_setting name x) = IsFlag name (Some x)"
proof -
  obtain c y where n: "name = c # y" using assms(1) by (cases name) auto
  have "takeWhile (\<lambda>b. b \<noteq> CHR ''='') (y @ CHR ''='' # x) = y"
    "dropWhile (\<lambda>b. b \<noteq> CHR ''='') (y @ CHR ''='' # x) = CHR ''='' # x"
    using assms(3) n by (auto simp: takeWhile_append dropWhile_append)
  then show ?thesis using assms n by (auto simp: flag_setting_def)
qed

lemma parse_setting:
  assumes "name \<noteq> []" "hd name \<noteq> CHR ''-''" "CHR ''='' \<notin> set name"
    and "map_of tb name = Some old" "flag_set dur x old = Some new"
  shows "parse_flags dur (flag_setting name x # args) tb = parse_flags dur args (AList.update name new tb)"
  using assms by (simp add: flag_word_setting)

definition run_command_line :: "run_flags \<Rightarrow> string list" where
  "run_command_line fl =
     [flag_setting ''command'' (rf_command fl), flag_setting ''address'' (rf_address fl),
      flag_setting ''username'' (rf_username fl), flag_setting ''password'' (rf_password fl),
      flag_setting ''async'' (bool_word (rf_async fl)), flag_setting ''tls'' (bool_word (rf_tls fl))]"

definition tab_command_line :: "tab_flags \<Rightarrow> string list" where
  "tab_command_line fl =
     [flag_setting ''address'' (tf_address fl), flag_setting ''username'' (tf_username fl),
      flag_setting ''password'' (tf_password fl), flag_setting ''properties'' (tf_properties fl)]"

definition multi_command_line :: "string \<Rightarrow> string \<Rightarrow> string \<Rightarrow> string list" where
  "multi_command_line address user password =
     [flag_setting ''address'' address, flag_setting ''username'' user, flag_setting ''password'' password]"

lemma flags_eta:
  "\<lparr>rf_command = rf_command fl, rf_address = rf_address fl, rf_username = rf_username fl, rf_password = rf_password fl,
     rf_async = rf_async fl, rf_tls = rf_tls fl\<rparr> = fl"
  "\<lparr>tf_address = tf_address tfl, tf_username = tf_username tfl, tf_password = tf_password tfl,
     tf_properties = tf_properties tfl\<rparr> = tfl"
  by simp_all

lemmas flag_lookup_simps = flags_eta flag_string_def flag_bool_def run_flags_of_def tab_flags_of_def

subsection \<open>Properties\<close>

text \<open>Every setting can be given on the command line, whatever its value: the words \<open>-name=value\<close> for the fields of a
configuration make each of the four programs run with exactly that configuration.\<close>

lemma settings_reach_programs:
  "run_main net nil_config dur (run_command_line fl) i j = run_example net nil_config fl i j
   \<and> tab_main net dur (tab_command_line tfl) k = tab_example net tfl k
   \<and> listen_program net nil_config ctx dur (run_command_line fl) = listen_main net nil_config ctx fl
   \<and> multi_program net ctx dur (multi_command_line address user password) = multi_dial net ctx address user password"
  by (intro conjI)
    (simp_all add: run_main_def tab_main_def listen_program_def multi_program_def run_command_line_def
      tab_command_line_def multi_command_line_def run_flag_table_def tab_flag_table_def listen_flag_table_def
      multi_flag_table_def parse_setting flag_lookup_simps del: parse_flags.simps(2))

text \<open>C36: \<open>examples/run\<close> comes to an end on every command line, in synchronous and in asynchronous mode and whatever bytes
the device answers, over every network whose dials return and whose connections carry finite streams of bytes: each gives an
error sooner or later, as every stream of the model does.  (On a connection that stays open and silent the login and the command wait for ever;
the program sets no deadline for them.)  A command line it cannot read ends it with the status of the flag package before anything
is dialled, otherwise it logs one error and exits with status 2, or it logs one complete, typed reply and has then closed
its connection exactly once.\<close>

theorem run_main_ends:
  "\<exists>evs l. run_main net nil_config dur args i j = (Returns evs, l)
     \<and> (case parse_flags dur args run_flag_table of
          Inl p \<Rightarrow> evs = [Exits (flag_exit p)] \<and> l = None
        | Inr (tb, rest) \<Rightarrow>
            (\<exists>message err. evs = program_fatal message err)
            \<or> (\<exists>rep c s n l0. evs = [LogResults (Some rep)] \<and> typed_reply rep \<and> done_sen rep \<noteq> None
                 \<and> example_connection net nil_config (run_flags_of tb) = Inr (c, s, n) \<and> l = Some l0
                 \<and> closing (lclient l0) \<and> lrwc l0 = snd (close_handle net n)))"
proof (cases "parse_flags dur args run_flag_table")
  case (Inr r)
  obtain tb rest where "r = (tb, rest)" by (cases r)
  with Inr run_example_ends [of net nil_config "run_flags_of tb" i j] show ?thesis by (simp add: run_main_def)
qed (simp add: run_main_def)

text \<open>What the program logs of its client: nothing unless \<open>-debug\<close> is given, and then the words of its command first.\<close>

lemma quiet_by_default:
  assumes "parse_flags dur args run_flag_table = Inr (tb, rest)" "\<not> flag_bool tb ''debug''"
  shows "run_main_log net nil_config dur args i j = []"
  using assms
  by (auto simp: run_main_log_def logged_example_call_def logged_run_def logged_async_call_def Let_def log_debug_def
      set_log_handler_def example_handler_def new_logging_def split: outcome.splits option.splits prod.splits)

lemma debug_logs_command:
  assumes "parse_flags dur args run_flag_table = Inr (tb, rest)" "flag_bool tb ''debug''"
    and "example_dial net nil_config (run_flags_of tb) = (Returns None, Some l)"
  shows "\<exists>more. run_main_log net nil_config dur args i j
    = \<lparr>lr_level = -4, lr_message = ''RunArgsContext'', lr_key = ''sentences'',
        lr_value = LogWords (split_byte CHR '' '' (flag_string tb ''command''))\<rparr> # more"
  using assms
  by (auto simp: run_main_log_def logged_example_call_def logged_run_def logged_async_call_def Let_def log_debug_def
      set_log_handler_def example_handler_def new_logging_def run_flags_of_def split: option.splits prod.splits)

end
