(* ===== verification/Async_Agree.thy ===== *)
theory Async_Agree
  imports Async_Drive
begin

text \<open>
  The asynchronous call of \<open>run.go\<close> against the synchronous one, on the bytes of the connection: what a
  call on a client that nobody else uses returns, sentence by sentence, when the answers to it come
  among sentences of others.
\<close>

subsection \<open>The loop serves one call\<close>

lemma drive_stop: "stop s \<Longrightarrow> drive stop s = s"
  by (subst drive.simps) simp

lemma drive_turn: "\<not> stop s \<Longrightarrow> turn s = Some s' \<Longrightarrow> drive stop s = drive stop s'"
  by (subst drive.simps) simp

text \<open>The loop is at its read, and the call with tag \<open>t\<close> is the only one that waits.\<close>

definition serves :: "string \<Rightarrow> aproc \<Rightarrow> awire \<Rightarrow> bool" where
  "serves t p s \<longleftrightarrow>
     apc (aw_client s) = LRead \<and> \<not> apanic (aw_client s) \<and> atags (aw_client s) = Some [t]
     \<and> aprocs (aw_client s) t = Some p \<and> pkind p = KRun \<and> \<not> pclosed p \<and> perr p = None"

lemma serves_open: "serves t p s \<Longrightarrow> \<not> closed_reply t s"
  by (simp add: serves_def closed_reply_def)

lemma turn_read:
  assumes "apc (aw_client s) = LRead" "\<not> apanic (aw_client s)" "read_sentence (aw_in s) = (Inr sen, st)"
  shows "turn s = Some (s\<lparr>aw_client := (aw_client s)\<lparr>apc := LGot sen\<rparr>, aw_in := st\<rparr>)"
  using assms by (simp add: turn_def next_event_def wire_read_def loop_read_def)

lemma turn_lookup:
  assumes "apc (aw_client s) = LGot sen" "\<not> apanic (aw_client s)"
  shows "turn s = Some (s\<lparr>aw_client := (aw_client s)\<lparr>apc := (if registered (aw_client s) (sen_tag sen) then LProc sen else LRead)\<rparr>,
     aw_seen := aw_seen s @ [sen]\<rparr>)"
  using assms by (simp add: turn_def next_event_def wire_lookup_def loop_lookup_def)

lemma turn_process:
  assumes "apc (aw_client s) = LProc sen" "\<not> apanic (aw_client s)" "aprocs (aw_client s) (sen_tag sen) = Some p" "pkind p = KRun"
  shows "turn s = Some (s\<lparr>aw_client := (set_proc (sen_tag sen) (p\<lparr>preply := snd (process_reply sen (preply p))\<rparr>)
      ((aw_client s)\<lparr>ahandled := ahandled (aw_client s) @ [sen]\<rparr>))\<lparr>apc := after_process (sen_tag sen) (fst (process_reply sen (preply p)))\<rparr>\<rparr>)"
  using assms
  by (simp add: turn_def next_event_def serve_def loop_process_def run_process_def Let_def split: prod.split)

text \<open>A sentence of somebody else is skipped; a row is collected; the final sentence closes the channel.\<close>

lemma drive_skips:
  assumes "serves t p s" "read_sentence (aw_in s) = (Inr sen, st)" "sen_tag sen \<noteq> t"
  obtains s' where "drive (closed_reply t) s = drive (closed_reply t) s'" "serves t p s'" "aw_in s' = st" "aw_out s' = aw_out s"
proof -
  let ?s1 = "s\<lparr>aw_client := (aw_client s)\<lparr>apc := LGot sen\<rparr>, aw_in := st\<rparr>"
  let ?s2 = "s\<lparr>aw_client := (aw_client s)\<lparr>apc := LRead\<rparr>, aw_in := st, aw_seen := aw_seen s @ [sen]\<rparr>"
  have pc: "apc (aw_client s) = LRead" "\<not> apanic (aw_client s)" using assms(1) by (simp_all add: serves_def)
  have "turn ?s1 = Some ?s2"
    using turn_lookup [of ?s1 sen] assms(1,3) pc by (simp add: serves_def registered_def)
  moreover have "\<not> closed_reply t ?s1" using serves_open [OF assms(1)] by (simp add: closed_reply_def)
  ultimately have "drive (closed_reply t) s = drive (closed_reply t) ?s2"
    using drive_turn [of "closed_reply t", OF serves_open [OF assms(1)] turn_read [OF pc assms(2)]]
      drive_turn [of "closed_reply t" ?s1 ?s2] by simp
  then show thesis using assms(1) by (intro that [of ?s2]) (simp_all add: serves_def)
qed

lemma drive_processes:
  assumes "serves t p s" "read_sentence (aw_in s) = (Inr sen, st)" "sen_tag sen = t"
  obtains s' where "drive (closed_reply t) s = drive (closed_reply t) s'"
    "apc (aw_client s') = after_process t (verdict sen)" "\<not> apanic (aw_client s')" "atags (aw_client s') = Some [t]"
    "aprocs (aw_client s') t = Some (p\<lparr>preply := snd (process_reply sen (preply p))\<rparr>)" "aw_in s' = st" "aw_out s' = aw_out s"
proof -
  let ?s1 = "s\<lparr>aw_client := (aw_client s)\<lparr>apc := LGot sen\<rparr>, aw_in := st\<rparr>"
  let ?s2 = "?s1\<lparr>aw_client := (aw_client s)\<lparr>apc := LProc sen\<rparr>, aw_seen := aw_seen s @ [sen]\<rparr>"
  let ?p = "p\<lparr>preply := snd (process_reply sen (preply p))\<rparr>"
  let ?s3 = "?s2\<lparr>aw_client := (set_proc t ?p ((aw_client s)\<lparr>ahandled := ahandled (aw_client s) @ [sen]\<rparr>))
      \<lparr>apc := after_process t (fst (process_reply sen (preply p)))\<rparr>\<rparr>"
  have pc: "apc (aw_client s) = LRead" "\<not> apanic (aw_client s)" using assms(1) by (simp_all add: serves_def)
  have 1: "turn ?s1 = Some ?s2"
    using turn_lookup [of ?s1 sen] assms(1,3) pc by (simp add: serves_def registered_def)
  have 2: "turn ?s2 = Some ?s3"
    using turn_process [of ?s2 sen p] assms(1,3) pc by (simp add: serves_def set_proc_def)
  have o: "\<not> closed_reply t ?s1" "\<not> closed_reply t ?s2"
    using serves_open [OF assms(1)] by (simp_all add: closed_reply_def)
  have "drive (closed_reply t) s = drive (closed_reply t) ?s3"
    using drive_turn [of "closed_reply t", OF serves_open [OF assms(1)] turn_read [OF pc assms(2)]]
      drive_turn [of "closed_reply t", OF o(1) 1] drive_turn [of "closed_reply t", OF o(2) 2] by simp
  moreover have "fst (process_reply sen (preply p)) = verdict sen"
    using process_reply_verdict [of sen "preply p"] by simp
  ultimately show thesis using assms(1,3) pc by (intro that [of ?s3]) (simp_all add: serves_def set_proc_def)
qed

definition own :: "string \<Rightarrow> sentence list \<Rightarrow> sentence list" where
  "own t sens = filter (\<lambda>sen. sen_tag sen = t) sens"

lemma own_append: "own t (xs @ ys) = own t xs @ own t ys"
  by (simp add: own_def)

lemma drive_rows:
  assumes "serves t p s" "preply p = replay pre" "yields (aw_in s) sens st" "list_all quiet (own t sens)"
  shows "\<exists>p' s'. drive (closed_reply t) s = drive (closed_reply t) s' \<and> serves t p' s'
    \<and> preply p' = replay (pre @ own t sens) \<and> aw_in s' = st \<and> aw_out s' = aw_out s"
  using assms
proof (induction sens arbitrary: s p pre)
  case Nil
  then show ?case by (intro exI [of _ p] exI [of _ s]) (simp add: own_def)
next
  case (Cons sen sens)
  from Cons.prems(3) obtain s1 where rd: "read_sentence (aw_in s) = (Inr sen, s1)" and y: "yields s1 sens st"
    by (auto split: prod.splits sum.splits)
  show ?case
  proof (cases "sen_tag sen = t")
    case True
    with Cons.prems(4) have q: "quiet sen" "list_all quiet (own t sens)" by (simp_all add: own_def)
    obtain s' where s': "drive (closed_reply t) s = drive (closed_reply t) s'"
      "apc (aw_client s') = after_process t (verdict sen)" "\<not> apanic (aw_client s')" "atags (aw_client s') = Some [t]"
      "aprocs (aw_client s') t = Some (p\<lparr>preply := snd (process_reply sen (preply p))\<rparr>)" "aw_in s' = s1" "aw_out s' = aw_out s"
      using drive_processes [OF Cons.prems(1) rd True] by metis
    let ?p = "p\<lparr>preply := snd (process_reply sen (preply p))\<rparr>"
    have sv: "serves t ?p s'"
      using s' q(1) Cons.prems(1) by (simp add: serves_def quiet_def after_process_def)
    have "preply ?p = replay (pre @ [sen])" by (simp add: replay_snoc Cons.prems(2))
    from Cons.IH [OF sv this _ q(2)] y s'(6) obtain p'' s'' where
      "drive (closed_reply t) s' = drive (closed_reply t) s''" "serves t p'' s''"
      "preply p'' = replay ((pre @ [sen]) @ own t sens)" "aw_in s'' = st" "aw_out s'' = aw_out s'" by blast
    with s' True show ?thesis by (intro exI [of _ p''] exI [of _ s'']) (simp add: own_def)
  next
    case False
    then have q: "own t (sen # sens) = own t sens" by (simp add: own_def)
    obtain s' where s': "drive (closed_reply t) s = drive (closed_reply t) s'" "serves t p s'" "aw_in s' = s1" "aw_out s' = aw_out s"
      using drive_skips [OF Cons.prems(1) rd False] by metis
    from Cons.IH [OF s'(2) Cons.prems(2)] y s'(1,3,4) Cons.prems(4) q show ?thesis by simp
  qed
qed

lemma drive_final:
  assumes "serves t p s" "read_sentence (aw_in s) = (Inr sen, st)" "sen_tag sen = t" "\<not> quiet sen"
  shows "\<exists>q s'. drive (closed_reply t) s = s' \<and> aprocs (aw_client s') t = Some q \<and> pclosed q
    \<and> perr q = snd (verdict sen) \<and> preply q = snd (process_reply sen (preply p)) \<and> aw_in s' = st \<and> aw_out s' = aw_out s"
proof -
  let ?p = "p\<lparr>preply := snd (process_reply sen (preply p))\<rparr>" and ?e = "snd (verdict sen)"
  obtain s1 where s1: "drive (closed_reply t) s = drive (closed_reply t) s1"
    "apc (aw_client s1) = after_process t (verdict sen)" "\<not> apanic (aw_client s1)" "atags (aw_client s1) = Some [t]"
    "aprocs (aw_client s1) t = Some ?p" "aw_in s1 = st" "aw_out s1 = aw_out s"
    using drive_processes [OF assms(1-3)] by metis
  have p: "\<not> pclosed p" "perr p = None" using assms(1) by (simp_all add: serves_def)
  have pc: "apc (aw_client s1) = LDel t ?e"
    using s1(2) assms(4) by (cases "verdict sen") (auto simp: after_process_def quiet_def)
  let ?s2 = "s1\<lparr>aw_client := (aw_client s1)\<lparr>atags := Some [], apc := LClose t ?e\<rparr>\<rparr>"
  let ?s3 = "s1\<lparr>aw_client := (set_proc t (?p\<lparr>perr := ?e, pclosed := True\<rparr>)
      ((aw_client s1)\<lparr>atags := Some [], apc := LClose t ?e\<rparr>))\<lparr>apc := LRead\<rparr>\<rparr>"
  have o: "\<not> closed_reply t s1" "\<not> closed_reply t ?s2" using s1(5) p(1) by (simp_all add: closed_reply_def)
  have t1: "turn s1 = Some ?s2" using s1(3,4) pc by (simp add: turn_def next_event_def loop_delete_def)
  have t2: "turn ?s2 = Some ?s3"
    using s1(3,5) p by (simp add: turn_def next_event_def loop_close_def close_proc_def set_proc_def)
  have "closed_reply t ?s3" by (simp add: closed_reply_def set_proc_def)
  then have "drive (closed_reply t) s = ?s3"
    using s1(1) drive_turn [of "closed_reply t", OF o(1) t1] drive_turn [of "closed_reply t", OF o(2) t2]
      drive_stop [of "closed_reply t" ?s3] by simp
  then show ?thesis using s1(6,7) by (simp add: set_proc_def)
qed

subsection \<open>The request\<close>

lemma async_call_starts:
  assumes "aasync (aw_client s)" "awriter (aw_client s) = None" "apc (aw_client s) = LRead" "\<not> apanic (aw_client s)"
    and "atags (aw_client s) = Some []" "healthy (aw_out s)" "\<not> wlocked (aw_out s)"
  defines "t \<equiv> tag_of CHR ''r'' (anext (aw_client s) + 1)"
  obtains s' where "async_call 0 0 ws s = await_reply None t s'" "serves t (new_proc KRun None) s'" "aw_in s' = aw_in s"
    "wire (aw_out s') = wire (aw_out s) @ sentence_bytes (tagged ws t)"
    "transmitted (aw_out s') = wire (aw_out s) @ sentence_bytes (tagged ws t)" "healthy (aw_out s')" "\<not> wlocked (aw_out s')"
proof -
  let ?w = "(aw_out s)\<lparr>wlocked := True\<rparr>" and ?cs = "sentence_writes (tagged ws t)"
  have h: "healthy ?w" using assms(6) by (simp add: healthy_def)
  obtain w' where w': "end_sentence False (write_words False (tagged ws t) ?w) = (None, w')" "healthy w'"
    using end_sentence_healthy [OF h] by blast
  have l: "length ?cs \<le> whole ws" using whole_tagged [of ws t] by (simp add: whole_def)
  let ?w1 = "write_until (whole ws) ?cs ?w"
  have w1: "?w1 = write_words False (tagged ws t) ?w" using l by (simp add: write_until_whole write_words_writes)
  have eu: "end_until 2 ?w1 = (None, w')" using w' w1 by (simp add: end_until_whole)
  have out: "wire w' = wire (aw_out s) @ sentence_bytes (tagged ws t)" "\<not> wlocked w'"
    "transmitted w' = wire (aw_out s) @ sentence_bytes (tagged ws t)"
    using send_sentence_ok [of False "tagged ws t" "aw_out s" w'] w' assms(7)
    by (auto simp: send_sentence_def begin_sentence_def wire_def accepted_def transmitted_def)
  let ?a1 = "(aw_client s)\<lparr>anext := anext (aw_client s) + 1, awriter := Some (HRun t)\<rparr>"
  let ?s1 = "s\<lparr>aw_client := ?a1, aw_out := ?w1, aw_open := tagged ws t\<rparr>"
  have b: "wstep (WRunBegin ws (whole ws)) s = Some ?s1"
    using assms(1,2,7) l by (simp add: wire_begin_def run_begin_def begin_sentence_def may_cut_def t_def)
  let ?a2 = "register t (new_proc KRun None) (?a1\<lparr>awriter := None\<rparr>)"
  let ?s2 = "wire_ended t (None, w') ?a2 ?s1"
  have c: "wstep (WRunCommit 2) ?s1 = Some ?s2"
    using eu assms(5) by (simp add: wire_run_commit_def run_commit_def may_cut_def)
  have "async_call 0 0 ws s = await_reply None t ?s2"
    using b c assms(5) w'(2) by (simp add: async_call_def async_request_def Let_def wire_ended_def healthy_def del: wstep.simps)
  moreover have "serves t (new_proc KRun None) ?s2"
    using assms(3,4,5) by (simp add: serves_def wire_ended_def register_def new_proc_def)
  ultimately show thesis using out w'(2) by (intro that [of ?s2]) (simp_all add: wire_ended_def)
qed

subsection \<open>Properties\<close>


definition sample_traffic :: "string list list" where
  "sample_traffic = [[''!re'', ''.tag=r1'', ''=a=1''], [''!re'', ''.tag=l7'', ''=a=2''], [''!done'', ''.tag=r1'']]"


end
