(* ===== verification/Async_Cancelled.thy ===== *)
theory Async_Cancelled
  imports Async_Drive
begin

text \<open>
  \<open>RunArgsContext\<close> in asynchronous mode when its context is done before the answer is there: the call
  cancels its request through \<open>cancelTag\<close> and waits for the loop to close its channel.
\<close>

subsection \<open>The call\<close>

text \<open>
  \<open>cancelTag\<close> of a call that is alone: the loop takes \<open>m\<close> turns between the registration of the processor
  for the answer and the request, which is not written when the loop has ended before.
\<close>

definition whole_cancel :: "string \<Rightarrow> string \<Rightarrow> nat" where
  "whole_cancel target t = length (sentence_writes (cancel_sentence target t)) + 2"

definition interrupt_call :: "nat \<Rightarrow> string \<Rightarrow> awire \<Rightarrow> awire option" where
  "interrupt_call m t s =
     (let c = tag_of CHR ''c'' (anext (aw_client s) + 1); s1 = turns m (wire_cancel_tag t s) in
      if atags (aw_client s) = None then Some s1
      else wstep (WCancelWrite c (whole_cancel t c)) s1)"

text \<open>The context is done, with error \<open>err\<close>, when the loop has taken \<open>n\<close> turns since the call waits.\<close>

definition await_ctx :: "nat \<Rightarrow> nat \<Rightarrow> goerr \<Rightarrow> string \<Rightarrow> awire \<Rightarrow> run_outcome \<times> awire" where
  "await_ctx n m err t s =
     (case interrupt_call m t (turns n s) of
        None \<Rightarrow> (Blocks, turns n s)
      | Some s1 \<Rightarrow> await_reply (Some err) t s1)"

definition cancelled_call ::
  "nat \<Rightarrow> nat \<Rightarrow> goerr \<Rightarrow> nat \<Rightarrow> nat \<Rightarrow> string list \<Rightarrow> awire \<Rightarrow> run_outcome \<times> awire" where
  "cancelled_call n m err i j ws s =
     (case async_request i j ws s of
        (Inl out, s') \<Rightarrow> (out, s')
      | (Inr t, s') \<Rightarrow> await_ctx n m err t s')"

subsection \<open>The cancellation is written\<close>

lemma interrupt_call_writes:
  assumes "wreaches w0 src s" "awriter (aw_client s) = None"
  shows "\<exists>c s'. interrupt_call m t s = Some s' \<and> wreaches w0 src s' \<and> aasync (aw_client s') = aasync (aw_client s)
    \<and> aclosing (aw_client s') = aclosing (aw_client s) \<and> awriter (aw_client s') = None
    \<and> (\<forall>p. aprocs (aw_client s) t = Some p \<longrightarrow> (\<exists>q. aprocs (aw_client s') t = Some q \<and> pkind q = pkind p))
    \<and> (if atags (aw_client s) = None then aw_sent s' = aw_sent s
       else aw_sent s' = aw_sent s @ [(c, cancel_sentence t c)] \<or> aw_sent s' = aw_sent s \<and> werr (aw_out s') \<noteq> None)"
proof -
  let ?c = "tag_of CHR ''c'' (anext (aw_client s) + 1)" and ?s1 = "wire_cancel_tag t s"
  let ?s2 = "turns m ?s1"
  have r1: "wreaches w0 src ?s1"
    using wreaches.wreaches_next [OF assms(1), of "WCancelTag t" ?s1] by simp
  have r2: "wreaches w0 src ?s2" using r1 by (rule wreaches_turns)
  have s1: "awriter (aw_client ?s1) = None" "aasync (aw_client ?s1) = aasync (aw_client s)"
    "aclosing (aw_client ?s1) = aclosing (aw_client s)" "aw_sent ?s1 = aw_sent s" "aw_out ?s1 = aw_out s"
    using assms(2) by (simp_all add: wire_cancel_tag_def cancel_tag_def register_def Let_def)
  have "aprocs (aw_client s) ?c = None"
    using wreaches_ainv [OF assms(1)] fresh_tag by (auto simp: ainv_def inv_tags_def)
  then have p1: "aprocs (aw_client ?s1) t = Some p" if "aprocs (aw_client s) t = Some p" for p
    using that by (auto simp: wire_cancel_tag_def cancel_tag_def register_def Let_def)
  have p2: "\<exists>q. aprocs (aw_client ?s2) t = Some q \<and> pkind q = pkind p" if "aprocs (aw_client s) t = Some p" for p
    using p1 [OF that] turns_keeps [of m ?s1 t] by auto
  show ?thesis
  proof (cases "atags (aw_client s) = None")
    case True
    then have "interrupt_call m t s = Some ?s2" by (simp add: interrupt_call_def Let_def)
    with True r2 p2 s1 turns_keeps [of m ?s1] show ?thesis by auto
  next
    case False
    then have "aw_cancels ?s1 = aw_cancels s @ [(?c, t)]" by (simp add: wire_cancel_tag_def Let_def)
    then have cs: "aw_cancels ?s2 = aw_cancels s @ [(?c, t)]" using turns_keeps [of m ?s1] by simp
    have ok: "map fst (aw_cancels ?s2) = acancels (aw_client ?s2)" "distinct (acancels (aw_client ?s2))"
      using wreaches_sent_ok [OF r2] by (auto simp: sent_ok_def tags_used_def)
    have m: "map_of (aw_cancels ?s2) ?c = Some t"
      using ok cs map_of_eq_Some_iff [of "aw_cancels ?s2" ?c t] by simp
    have "?c \<in> set (acancels (aw_client ?s2))" using cs by (simp flip: ok(1))
    moreover have w: "awriter (aw_client ?s2) = None" using s1(1) turns_keeps [of m ?s1] by simp
    ultimately obtain a where a: "cancel_write ?c (aw_client ?s2) = Some a"
      "a = (aw_client ?s2)\<lparr>acancels := remove1 ?c (acancels (aw_client ?s2))\<rparr>"
      by (simp add: cancel_write_def)
    have "\<not> wlocked (aw_out ?s2)" using wreaches_out_ok [OF r2] w by (simp add: out_ok_def)
    then obtain w' where b: "begin_sentence (aw_out ?s2) = Some w'" by (simp add: begin_sentence_def)
    let ?n = "length (sentence_writes (cancel_sentence t ?c))" and ?k = "whole_cancel t ?c"
    let ?ew = "end_until (?k - ?n) (write_until ?k (sentence_writes (cancel_sentence t ?c)) w')"
    obtain e w'' where ew: "?ew = (e, w'')" by force
    let ?s3 = "?s2\<lparr>aw_client := a, aw_out := w'', aw_cancels := filter (\<lambda>p. fst p \<noteq> ?c) (aw_cancels ?s2),
        aw_sent := (if e = None then aw_sent ?s2 @ [(?c, cancel_sentence t ?c)] else aw_sent ?s2)\<rparr>"
    have st: "wstep (WCancelWrite ?c ?k) ?s2 = Some ?s3"
      using m b a(1) ew by (simp add: wire_cancel_write_def may_cut_def whole_cancel_def Let_def)
    moreover have "interrupt_call m t s = wstep (WCancelWrite ?c ?k) ?s2"
      by (simp only: interrupt_call_def Let_def False if_False)
    ultimately have "interrupt_call m t s = Some ?s3" by (simp only:)
    moreover have "wreaches w0 src ?s3" using r2 st by (rule wreaches.wreaches_next)
    moreover have "e \<noteq> None \<Longrightarrow> werr w'' \<noteq> None" using end_until_result [OF ew] by auto
    ultimately show ?thesis
      using False p2 s1 a(2) w turns_keeps [of m ?s1]
      by (intro exI [of _ ?c] exI [of _ ?s3]) (cases e; auto)
  qed
qed

text \<open>A loop that has ended takes no turn.\<close>

lemma turn_ended:
  assumes "wreaches w0 src s" "aasync (aw_client s)" "atags (aw_client s) = None"
  shows "turn s = None"
proof -
  obtain e where "apc (aw_client s) = LEnded e"
    using wreaches_ainv [OF assms(1)] assms(2,3) by (auto simp: ainv_def inv_loop_def)
  then show ?thesis by (simp add: turn_def next_event_def)
qed

lemma interrupt_call_ended:
  assumes "wreaches w0 src s" "aasync (aw_client s)" "atags (aw_client s) = None" "interrupt_call m t s = Some s'"
  shows "atags (aw_client s') = None"
proof -
  let ?s = "wire_cancel_tag t s"
  have "wreaches w0 src ?s" using wreaches.wreaches_next [OF assms(1), of "WCancelTag t"] by simp
  moreover have c: "aasync (aw_client ?s)" "atags (aw_client ?s) = None"
    using assms(2,3) by (simp_all add: wire_cancel_tag_def cancel_tag_def Let_def)
  ultimately have "turn ?s = None" by (rule turn_ended)
  then have "turns m ?s = ?s" by (cases m) simp_all
  with assms(3,4) c(2) show ?thesis by (simp add: interrupt_call_def Let_def)
qed

lemma await_reply_ended:
  assumes "wreaches w0 src s" "aasync (aw_client s)" "atags (aw_client s) = None" "await_reply ctx t s = (r, s')"
  shows "s' = s"
proof -
  have "turn s = None" using assms(1-3) by (rule turn_ended)
  then have "drive (closed_reply t) s = s" by (subst drive.simps) simp
  with assms(4) show ?thesis by (auto simp: await_reply_def Let_def split: option.splits if_splits)
qed

lemma cancelled_call_shape:
  assumes "wreaches w0 src s" "aasync (aw_client s)" "awriter (aw_client s) = None"
  shows "\<exists>e s'. cancelled_call n m err i j ws s = (Returns (None, Some e), s') \<and> wreaches w0 src s'
    \<and> aasync (aw_client s') \<and> (awriter (aw_client s') = None \<or> atags (aw_client s') = None)
    \<and> (aw_sent s' = aw_sent s \<and> refused_request e s'
       \<or> (\<exists>t p. aprocs (aw_client s') t = Some p \<and> pclosed p \<and> e = (case perr p of None \<Rightarrow> err | Some x \<Rightarrow> x)
            \<and> (settled (conversation t (aw_client s')) (perr p) \<or> (\<exists>x. apc (aw_client s') = LEnded x))
            \<and> awriter (aw_client s') = None
            \<and> (aw_sent s' = aw_sent s @ [(t, tagged ws t)] \<and> (atags (aw_client s') = None \<or> werr (aw_out s') \<noteq> None)
               \<or> (\<exists>c. aw_sent s' = aw_sent s @ [(t, tagged ws t), (c, cancel_sentence t c)]))))"
proof -
  obtain r s1 where r: "async_request i j ws s = (r, s1)" "wreaches w0 src s1" "aasync (aw_client s1)"
    "case r of Inl out \<Rightarrow> (\<exists>e. out = Returns (None, Some e) \<and> refused_request e s1) \<and> aw_sent s1 = aw_sent s
     | Inr t \<Rightarrow> awriter (aw_client s1) = None \<and> aprocs (aw_client s1) t = Some (new_proc KRun None)
         \<and> registered (aw_client s1) t \<and> aw_sent s1 = aw_sent s @ [(t, tagged ws t)]"
    using async_request_shape [OF assms, of i j ws] by blast
  show ?thesis
  proof (cases r)
    case (Inl out)
    with r show ?thesis by (auto simp: cancelled_call_def refused_request_def)
  next
    case (Inr t)
    let ?s2 = "turns n s1"
    have w2: "wreaches w0 src ?s2" "awriter (aw_client ?s2) = None" "aasync (aw_client ?s2)"
      "aw_sent ?s2 = aw_sent s @ [(t, tagged ws t)]"
      using wreaches_turns [OF r(2)] turns_keeps [of n s1] r Inr by auto
    obtain p where p: "aprocs (aw_client ?s2) t = Some p" "pkind p = KRun"
      using turns_keeps [of n s1 t] r(4) Inr by (auto simp: new_proc_def)
    obtain c s3 where s3: "interrupt_call m t ?s2 = Some s3" "wreaches w0 src s3" "aasync (aw_client s3)"
      "awriter (aw_client s3) = None" "\<exists>q. aprocs (aw_client s3) t = Some q \<and> pkind q = KRun"
      "if atags (aw_client ?s2) = None then aw_sent s3 = aw_sent ?s2
       else aw_sent s3 = aw_sent ?s2 @ [(c, cancel_sentence t c)] \<or> aw_sent s3 = aw_sent ?s2 \<and> werr (aw_out s3) \<noteq> None"
      using interrupt_call_writes [OF w2(1,2), of m t] w2(3) p by auto
    from s3(5) obtain q where "aprocs (aw_client s3) t = Some q" "pkind q = KRun" by blast
    from await_returns [OF s3(2,3) this, of "Some err"] obtain q' s' where
      q: "await_reply (Some err) t s3 = (Returns (run_result (Some err) q'), s')" "wreaches w0 src s'"
        "aw_out s' = aw_out s3" "aw_sent s' = aw_sent s3" "aprocs (aw_client s') t = Some q'" "pkind q' = KRun" "pclosed q'" by auto
    have "awriter (aw_client s') = None \<and> aasync (aw_client s')"
      using q(1) s3(3,4) drive_keeps [of "closed_reply t" s3]
      by (auto simp: await_reply_def Let_def split: option.splits if_splits)
    moreover have "atags (aw_client s') = None" if "atags (aw_client ?s2) = None"
      using interrupt_call_ended [OF w2(1,3) that s3(1)] await_reply_ended [OF s3(2,3) _ q(1)] by auto
    moreover have "cancelled_call n m err i j ws s
        = (Returns (None, Some (case perr q' of None \<Rightarrow> err | Some x \<Rightarrow> x)), s')"
      using r(1) Inr s3(1) q(1) by (simp add: cancelled_call_def await_ctx_def run_result_def)
    moreover note closed_call_settled [OF wreaches_client [OF q(2)] q(5-7)]
    moreover have "aw_sent s' = aw_sent s @ [(t, tagged ws t)] \<and> (atags (aw_client s') = None \<or> werr (aw_out s') \<noteq> None)
        \<or> (\<exists>c. aw_sent s' = aw_sent s @ [(t, tagged ws t), (c, cancel_sentence t c)])"
    proof (cases "atags (aw_client ?s2) = None")
      case True
      with s3(6) q(4) w2(4) \<open>atags (aw_client ?s2) = None \<Longrightarrow> atags (aw_client s') = None\<close> show ?thesis by simp
    next
      case False
      with s3(6) q(3,4) w2(4) show ?thesis by auto
    qed
    ultimately show ?thesis using q(2,5,7) by blast
  qed
qed

subsection \<open>Properties\<close>



end
