(* ===== verification/Facade_Async.thy ===== *)
theory Facade_Async
  imports Async_Cancelled Facade_Wire
begin

text \<open>
  The facade of \<open>orchestrate.go\<close> over a client in asynchronous mode: every sentence of the pipeline is a tagged
  call of \<open>run.go\<close>, which its context may interrupt.
\<close>

subsection \<open>The seam\<close>

text \<open>
  For each call of the pipeline: how many turns the loop takes before the call has the writer and before it ends
  its sentence; when the context is done during the wait, the turns before and inside \<open>cancelTag\<close>.  The flag
  records a call that never returns; nothing of the pipeline happens after it.
\<close>

record call_plan =
  cp_before :: nat
  cp_inside :: nat
  cp_interrupt :: "(nat \<times> nat) option"

record async_conn =
  ac_wire :: awire
  ac_plan :: "call_plan list"
  ac_stuck :: bool

definition prompt :: call_plan where
  "prompt = \<lparr>cp_before = 0, cp_inside = 0, cp_interrupt = None\<rparr>"

definition planned_call :: "ctx \<Rightarrow> call_plan \<Rightarrow> string list \<Rightarrow> awire \<Rightarrow> run_outcome \<times> awire" where
  "planned_call ctx pl ws s =
     (case (ctx, cp_interrupt pl) of
        (Some err, Some (n, m)) \<Rightarrow> cancelled_call n m err (cp_before pl) (cp_inside pl) ws s
      | _ \<Rightarrow> async_call (cp_before pl) (cp_inside pl) ws s)"

definition async_seam :: "async_conn call" where
  "async_seam ctx ws c =
     (if ac_stuck c then (Inl ErrAsyncLoopEnded, c)
      else
        (let pl = (case ac_plan c of [] \<Rightarrow> prompt | pl # _ \<Rightarrow> pl); (out, s) = planned_call ctx pl ws (ac_wire c);
             c' = c\<lparr>ac_wire := s, ac_plan := tl (ac_plan c)\<rparr> in
         case out of
           Returns (r, Some e) \<Rightarrow> (Inl e, c')
         | Returns (Some r, None) \<Rightarrow> (Inr r, c')
         | _ \<Rightarrow> (Inl ErrAsyncLoopEnded, c'\<lparr>ac_stuck := True\<rparr>)))"

subsection \<open>What a call sends\<close>

text \<open>Ready for a call; or the loop has ended, and perhaps left the writer's mutex locked.\<close>

definition seam_ready :: "writer \<Rightarrow> stream \<Rightarrow> awire \<Rightarrow> bool" where
  "seam_ready w0 src s \<longleftrightarrow>
     wreaches w0 src s \<and> aasync (aw_client s) \<and> (awriter (aw_client s) = None \<or> atags (aw_client s) = None)"

definition call_sends :: "string list \<Rightarrow> (string \<times> string list) list \<Rightarrow> bool" where
  "call_sends ws new \<longleftrightarrow>
     new = [] \<or> (\<exists>t. new = [(t, tagged ws t)]) \<or> (\<exists>t c. new = [(t, tagged ws t), (c, cancel_sentence t c)])"

lemma seam_tags_distinct: "seam_ready w0 src s \<Longrightarrow> distinct (map fst (aw_sent s))"
  using wreaches_sent_ok [of w0 src s] by (auto simp: seam_ready_def sent_ok_def tags_used_def)

lemma stuck_call:
  assumes "wreaches w0 src s" "aasync (aw_client s)" "atags (aw_client s) = None" "awriter (aw_client s) \<noteq> None"
  shows "planned_call ctx pl ws s = (Blocks, s)"
proof -
  have "turn s = None" using assms(1-3) by (rule turn_ended)
  then have "turns i s = s" for i by (cases i) simp_all
  moreover have "wstep (WRunBegin ws k) s = None" for k
    using assms(4) by (auto simp: run_begin_def wire_begin_def split: option.split)
  ultimately have "async_request i j ws s = (Inl Blocks, s)" for i j
    by (simp add: async_request_def Let_def del: wstep.simps)
  then show ?thesis
    by (simp add: planned_call_def async_call_def cancelled_call_def split: option.split)
qed

lemma async_call_sends:
  assumes "wreaches w0 src s" "aasync (aw_client s)" "awriter (aw_client s) = None"
  shows "\<exists>r e s'. async_call i j ws s = (Returns (r, e), s') \<and> (r = None \<longrightarrow> e \<noteq> None) \<and> seam_ready w0 src s'
    \<and> (\<exists>new. aw_sent s' = aw_sent s @ new \<and> call_sends ws new)"
proof -
  obtain r s1 where r: "async_request i j ws s = (r, s1)" "wreaches w0 src s1" "aasync (aw_client s1)"
    "case r of Inl out \<Rightarrow> (\<exists>e. out = Returns (None, Some e) \<and> refused_request e s1) \<and> aw_sent s1 = aw_sent s
     | Inr t \<Rightarrow> awriter (aw_client s1) = None \<and> aprocs (aw_client s1) t = Some (new_proc KRun None)
         \<and> registered (aw_client s1) t \<and> aw_sent s1 = aw_sent s @ [(t, tagged ws t)]"
    using async_request_shape [OF assms, of i j ws] by blast
  show ?thesis
  proof (cases r)
    case (Inl out)
    with r show ?thesis by (auto simp: async_call_def refused_request_def seam_ready_def call_sends_def split: if_splits)
  next
    case (Inr t)
    with r(4) have p: "aprocs (aw_client s1) t = Some (new_proc KRun None)" by simp
    from await_returns [OF r(2,3) this, of None] obtain q s' where
      q: "await_reply None t s1 = (Returns (run_result None q), s')" "wreaches w0 src s'" "aw_sent s' = aw_sent s1"
      by (auto simp: new_proc_def)
    moreover have "awriter (aw_client s') = None \<and> aasync (aw_client s')"
      using q(1) r(3,4) Inr drive_keeps [of "closed_reply t" s1]
      by (auto simp: await_reply_def Let_def split: option.splits if_splits)
    ultimately show ?thesis
      using r(1,4) Inr by (auto simp: async_call_def run_result_def seam_ready_def call_sends_def)
  qed
qed

lemma planned_call_sends:
  assumes "wreaches w0 src s" "aasync (aw_client s)" "awriter (aw_client s) = None"
  shows "\<exists>r e s'. planned_call ctx pl ws s = (Returns (r, e), s') \<and> (r = None \<longrightarrow> e \<noteq> None) \<and> seam_ready w0 src s'
    \<and> (\<exists>new. aw_sent s' = aw_sent s @ new \<and> call_sends ws new)"
proof (cases "\<exists>err n m. ctx = Some err \<and> cp_interrupt pl = Some (n, m)")
  case True
  then obtain err n m where c: "ctx = Some err" "cp_interrupt pl = Some (n, m)" by blast
  from cancelled_call_shape [OF assms, of n m err "cp_before pl" "cp_inside pl" ws] c show ?thesis
    by (fastforce simp: planned_call_def seam_ready_def call_sends_def)
next
  case False
  then have "planned_call ctx pl ws s = async_call (cp_before pl) (cp_inside pl) ws s"
    by (auto simp: planned_call_def split: option.split)
  with async_call_sends [OF assms] show ?thesis by simp
qed

lemma async_seam_sends:
  assumes "seam_ready w0 src (ac_wire c)" "\<not> ac_stuck c"
  shows "seam_ready w0 src (ac_wire (snd (async_seam ctx ws c)))
    \<and> (ac_stuck (snd (async_seam ctx ws c)) \<longrightarrow> atags (aw_client (ac_wire (snd (async_seam ctx ws c)))) = None)
    \<and> (\<exists>new. aw_sent (ac_wire (snd (async_seam ctx ws c))) = aw_sent (ac_wire c) @ new \<and> call_sends ws new)"
proof (cases "awriter (aw_client (ac_wire c)) = None")
  case True
  let ?pl = "case ac_plan c of [] \<Rightarrow> prompt | pl # _ \<Rightarrow> pl"
  obtain r e s' where p: "planned_call ctx ?pl ws (ac_wire c) = (Returns (r, e), s')" "r = None \<longrightarrow> e \<noteq> None"
    "seam_ready w0 src s'" "\<exists>new. aw_sent s' = aw_sent (ac_wire c) @ new \<and> call_sends ws new"
    using planned_call_sends [of w0 src "ac_wire c" ctx ?pl ws] assms(1) True unfolding seam_ready_def by blast
  then have "snd (async_seam ctx ws c) = c\<lparr>ac_wire := s', ac_plan := tl (ac_plan c)\<rparr>"
    using assms(2) by (cases r; cases e) (simp_all add: async_seam_def Let_def)
  with p assms(2) show ?thesis by simp
next
  case False
  with assms(1) have "planned_call ctx pl ws (ac_wire c) = (Blocks, ac_wire c)" for pl
    unfolding seam_ready_def by (blast intro: stuck_call)
  then have "snd (async_seam ctx ws c) = c\<lparr>ac_wire := ac_wire c, ac_plan := tl (ac_plan c), ac_stuck := True\<rparr>"
    using assms(2) by (simp add: async_seam_def Let_def)
  with assms(1) False show ?thesis by (simp add: seam_ready_def call_sends_def)
qed

subsection \<open>The pipeline\<close>

text \<open>Between the two connections dry calls were made, and nothing hangs before the loop has ended.\<close>

definition dry_calls :: "async_conn \<Rightarrow> async_conn \<Rightarrow> bool" where
  "dry_calls c c' \<longleftrightarrow>
     (ac_stuck c \<longrightarrow> c' = c)
     \<and> (\<forall>w0 src. seam_ready w0 src (ac_wire c) \<longrightarrow> seam_ready w0 src (ac_wire c')
          \<and> (ac_stuck c' \<longrightarrow> ac_stuck c \<or> atags (aw_client (ac_wire c')) = None)
          \<and> (\<exists>dry new. list_all dry_sentence dry \<and> list_all2 call_sends dry new
               \<and> aw_sent (ac_wire c') = aw_sent (ac_wire c) @ concat new))"

lemma dry_calls_trans:
  assumes "dry_calls c c'" "dry_calls c' c''"
  shows "dry_calls c c''"
  unfolding dry_calls_def
proof (intro conjI allI impI)
  show "c'' = c" if "ac_stuck c" using that assms by (simp add: dry_calls_def)
  fix w0 src
  assume r: "seam_ready w0 src (ac_wire c)"
  with assms(1) obtain d n where 1: "seam_ready w0 src (ac_wire c')" "list_all dry_sentence d" "list_all2 call_sends d n"
    "aw_sent (ac_wire c') = aw_sent (ac_wire c) @ concat n"
    "ac_stuck c' \<longrightarrow> ac_stuck c \<or> atags (aw_client (ac_wire c')) = None"
    unfolding dry_calls_def by blast
  with assms(2) obtain d' n' where 2: "seam_ready w0 src (ac_wire c'')" "list_all dry_sentence d'" "list_all2 call_sends d' n'"
    "aw_sent (ac_wire c'') = aw_sent (ac_wire c') @ concat n'"
    "ac_stuck c'' \<longrightarrow> ac_stuck c' \<or> atags (aw_client (ac_wire c'')) = None" "ac_stuck c' \<longrightarrow> c'' = c'"
    unfolding dry_calls_def by blast
  show "seam_ready w0 src (ac_wire c'')" using 2(1) .
  show "ac_stuck c \<or> atags (aw_client (ac_wire c'')) = None" if "ac_stuck c''" using that 1(5) 2(5,6) by auto
  show "\<exists>dry new. list_all dry_sentence dry \<and> list_all2 call_sends dry new
      \<and> aw_sent (ac_wire c'') = aw_sent (ac_wire c) @ concat new"
    using 1(2-4) 2(2-4) by (intro exI [of _ "d @ d'"] exI [of _ "n @ n'"]) (simp add: list_all2_appendI)
qed

interpretation async_dry: conducting async_seam dry_calls
proof
  show "dry_calls c c" for c by (auto simp: dry_calls_def intro: exI [of _ "[]"])
  show "dry_calls c c''" if "dry_calls c c'" "dry_calls c' c''" for c c' c'' using that by (rule dry_calls_trans)
  fix ws :: "string list" and ctx c
  assume d: "dry_sentence ws"
  show "dry_calls c (snd (async_seam ctx ws c))"
  proof (cases "ac_stuck c")
    case True
    then have "snd (async_seam ctx ws c) = c" by (simp add: async_seam_def)
    then show ?thesis by (auto simp: dry_calls_def intro: exI [of _ "[]"])
  next
    case False
    have "\<exists>dry new. list_all dry_sentence dry \<and> list_all2 call_sends dry new
        \<and> aw_sent (ac_wire (snd (async_seam ctx ws c))) = aw_sent (ac_wire c) @ concat new"
      if ready: "seam_ready w0 src (ac_wire c)" for w0 src
    proof -
      obtain new where "aw_sent (ac_wire (snd (async_seam ctx ws c))) = aw_sent (ac_wire c) @ new" "call_sends ws new"
        using async_seam_sends [OF ready False] by blast
      with d show ?thesis by (intro exI [of _ "[ws]"] exI [of _ "[new]"]) simp
    qed
    with async_seam_sends [OF _ False, where ctx = ctx and ws = ws] False show ?thesis by (simp add: dry_calls_def)
  qed
qed

subsection \<open>Properties\<close>

text \<open>C14: The facade over an asynchronous client, whatever the device answers, however the loop runs and whenever the context
is done: validation only sends dry sentences, each in one call that sends nothing, the sentence with a tag, or the sentence
and one cancellation of that tag after it; the command is sent after them, at most once, and only when the gates have
accepted; and no two of all the sentences sent share a tag.  On connections whose stream of bytes is finite (sooner or later
they give an error; a device that stays silent on an open connection blocks the call that waits for it), with readers of
listeners that keep reading, a call of the pipeline hangs only after the loop has ended.\<close>

theorem async_facade_requests:
  assumes "client_validate q async_seam ctx now cmd f = (refused, f1)"
    and "run_structured q async_seam ctx now cmd f = (r, f')"
    and "seam_ready w0 src (ac_wire (sconn (fsession f)))" "\<not> ac_stuck (sconn (fsession f))"
  shows "\<exists>dry new last. list_all dry_sentence dry \<and> list_all2 call_sends dry new
    \<and> aw_sent (ac_wire (sconn (fsession f1))) = aw_sent (ac_wire (sconn (fsession f))) @ concat new
    \<and> aw_sent (ac_wire (sconn (fsession f'))) = aw_sent (ac_wire (sconn (fsession f))) @ concat new @ last
    \<and> call_sends (words cmd) last \<and> (refused \<noteq> None \<longrightarrow> last = [])
    \<and> distinct (map fst (aw_sent (ac_wire (sconn (fsession f')))))
    \<and> (ac_stuck (sconn (fsession f')) \<longrightarrow> atags (aw_client (ac_wire (sconn (fsession f')))) = None)"
proof -
  let ?c = "sconn (fsession f)" and ?c1 = "sconn (fsession f1)" and ?c' = "sconn (fsession f')"
  obtain dry new where d: "seam_ready w0 src (ac_wire ?c1)" "list_all dry_sentence dry" "list_all2 call_sends dry new"
    "aw_sent (ac_wire ?c1) = aw_sent (ac_wire ?c) @ concat new"
    "ac_stuck ?c1 \<longrightarrow> atags (aw_client (ac_wire ?c1)) = None"
    using async_dry.over_validate [OF assms(1)] assms(3,4) unfolding dry_calls_def by blast
  have "\<exists>last. aw_sent (ac_wire ?c') = aw_sent (ac_wire ?c1) @ last \<and> call_sends (words cmd) last
      \<and> (refused \<noteq> None \<longrightarrow> last = []) \<and> (ac_stuck ?c' \<longrightarrow> atags (aw_client (ac_wire ?c')) = None)
      \<and> seam_ready w0 src (ac_wire ?c')"
  proof (cases "refused = None \<and> \<not> ac_stuck ?c1")
    case True
    with assms(1,2) have "?c' = snd (async_seam ctx (words cmd) ?c1)"
      using client_command_state [of q async_seam ctx cmd "fsession f1"]
      by (auto simp: run_structured_validated split: prod.splits)
    with async_seam_sends [OF d(1), of ctx "words cmd"] True show ?thesis by auto
  next
    case False
    have "?c' = ?c1"
    proof (cases refused)
      case None
      with False have "snd (async_seam ctx (words cmd) ?c1) = ?c1" by (simp add: async_seam_def)
      with None assms(1,2) show ?thesis
        using client_command_state [of q async_seam ctx cmd "fsession f1"]
        by (auto simp: run_structured_validated split: prod.splits)
    qed (use assms(1,2) in \<open>simp add: run_structured_validated\<close>)
    with d(1,5) show ?thesis by (auto simp: call_sends_def)
  qed
  then obtain last where "aw_sent (ac_wire ?c') = aw_sent (ac_wire ?c1) @ last" "call_sends (words cmd) last"
    "refused \<noteq> None \<longrightarrow> last = []" "ac_stuck ?c' \<longrightarrow> atags (aw_client (ac_wire ?c')) = None"
    "seam_ready w0 src (ac_wire ?c')" by blast
  moreover from this(5) have "distinct (map fst (aw_sent (ac_wire ?c')))" by (rule seam_tags_distinct)
  ultimately show ?thesis using d by (intro exI [of _ dry] exI [of _ new] exI [of _ last]) simp
qed

definition sample_async_router :: "string list list \<Rightarrow> async_conn" where
  "sample_async_router answers =
     \<lparr>ac_wire = (wire_init (new_writer \<lparr>sent = [], room = None, cerr = IoEOF\<rparr>)
        \<lparr>pending = concat (map sentence_bytes answers), fin = IoEOF\<rparr>)\<lparr>aw_client := start_async async_init\<rparr>,
      ac_plan = [], ac_stuck = False\<rparr>"

lemma async_facade_requests_witness:
  "\<exists>r f' dry new. run_structured id async_seam None sample_clock (script_command '':beep'')
       (new_facade (sample_async_router [[''!trap'', ''.tag=r1''], [''!trap'', ''.tag=r2''], [''!done'', ''.tag=r3'']])) = (r, f')
     \<and> list_all dry_sentence dry \<and> list_all2 call_sends dry new
     \<and> aw_sent (ac_wire (sconn (fsession f'))) = concat new @ [(''r3'', tagged (words (script_command '':beep'')) ''r3'')]"
proof -
  let ?c = "sample_async_router [[''!trap'', ''.tag=r1''], [''!trap'', ''.tag=r2''], [''!done'', ''.tag=r3'']]"
  let ?f = "new_facade ?c" and ?cmd = "script_command '':beep''"
  obtain r f' where r: "run_structured id async_seam None sample_clock ?cmd ?f = (r, f')" by (metis surj_pair)
  obtain v f1 where v: "client_validate id async_seam None sample_clock ?cmd ?f = (v, f1)" by (metis surj_pair)
  have "wreaches (aw_out (ac_wire ?c)) (aw_in (ac_wire ?c)) (ac_wire ?c)"
    unfolding sample_async_router_def
    by (rule wreaches_wrun [where es = "[WLocal EvAsync]", OF wreaches.wreaches_init])
      (simp_all add: new_writer_def wire_init_def)
  then have s: "seam_ready (aw_out (ac_wire ?c)) (aw_in (ac_wire ?c)) (ac_wire (sconn (fsession ?f)))"
    "\<not> ac_stuck (sconn (fsession ?f))" "aw_sent (ac_wire (sconn (fsession ?f))) = []"
    by (simp_all add: seam_ready_def new_facade_def new_session_def sample_async_router_def wire_init_def
        start_async_def async_init_def)
  have l: "case run_structured id async_seam None sample_clock ?cmd ?f of
      (r, f') \<Rightarrow> map fst (aw_sent (ac_wire (sconn (fsession f')))) = [''r1'', ''r2'', ''r3'']
        \<and> length (aw_sent (ac_wire (sconn (fsession (snd (client_validate id async_seam None sample_clock ?cmd ?f)))))) = 2"
    by code_simp
  from async_facade_requests [OF v r s(1,2)] s(3) obtain dry new last where n: "list_all dry_sentence dry"
    "list_all2 call_sends dry new" "aw_sent (ac_wire (sconn (fsession f1))) = concat new"
    "aw_sent (ac_wire (sconn (fsession f'))) = concat new @ last" "call_sends (words ?cmd) last" by auto
  with l r v have "length (concat new) = 2" "map fst (concat new @ last) = [''r1'', ''r2'', ''r3'']" by simp_all
  then have "map fst last = drop 2 [''r1'', ''r2'', ''r3'']"
    by (metis append_eq_conv_conj length_map map_append)
  with n(5) have "last = [(''r3'', tagged (words ?cmd) ''r3'')]" by (auto simp: call_sends_def)
  with r n show ?thesis by blast
qed

text \<open>
  After the connection has ended a validation fails, the next one reports the end of the loop and leaves the
  writer locked, and the third never returns.
\<close>

lemma facade_hangs_after_the_loop:
  "let validate = client_validate id async_seam None sample_clock (script_command '':beep'');
       (e1, f1) = validate (new_facade (sample_async_router []));
       (e2, f2) = validate f1;
       (e3, f3) = validate f2
   in e1 = Some IoEOF \<and> e2 = Some ErrAsyncLoopEnded \<and> \<not> ac_stuck (sconn (fsession f2)) \<and> ac_stuck (sconn (fsession f3))"
  by code_simp

end
