(* ===== verification/Spec2Isabelle.thy ===== *)
theory Spec2Isabelle
  imports Io_Context Ctx_Reader Ctx_Writer Wire_Sharing Async_Channel Async_Drive Native_Adapter Facade_Wire Mock Ssh
    Example_Flags Async_Agree Facade_Async
begin

text \<open>
  A verification library for goros, a Go client for MikroTik RouterOS devices.

  \<^bold>\<open>The program.\<close> A client speaks the RouterOS API over a byte stream: sentences of
  length-prefixed words (\<open>proto\<close>), one at a time in synchronous mode (\<open>run.go\<close>) or
  multiplexed by tags over a loop goroutine (\<open>async.go\<close>, \<open>listen.go\<close>,
  \<open>cancel.go\<close>). A transport contract (\<open>transport\<close>) with a native-api, an SSH and a
  mock implementation carries canonical commands and replies. Two gates check a command before it is run:
  Gate 1 (\<open>gate/gate1.go\<close>) lets the device parse its text, Gate 2
  (\<open>gate/gate2.go\<close>) checks its attributes against a schema discovered through
  \<open>/console/inspect\<close> and cached (\<open>schema\<close>). The facade
  (\<open>orchestrate.go\<close>) probes the session once, routes a command to its gate and executes it only
  when the gate accepts. Errors belong to the taxonomy of \<open>roserr\<close>.

  \<^bold>\<open>The theories,\<close> in the order of their imports:
  \<^item> \<open>Prelude\<close>: Go values (a string is a list of bytes, a map an association list with distinct keys whose
    order is the unspecified iteration order) and the standard-library string functions the code calls;
  \<^item> \<open>Regexp\<close>: the part of Go's \<open>regexp\<close> in use, as an ordered list of successes;
  \<^item> \<open>Go_Errors\<close>: \<open>proto/sentence.go\<close>, \<open>error.go\<close> and \<open>roserr/roserr.go\<close>; the open interface \<open>error\<close> is one
    datatype, \<open>errors.Is\<close> and \<open>errors.As\<close> are walks of its Unwrap tree;
  \<^item> \<open>Proto_Reader\<close>, \<open>Proto_Writer\<close>, \<open>Proto_Codec\<close>: \<open>proto/reader.go\<close> over a stream of bytes that ends in an
    error; \<open>proto/writer.go\<close> over \<open>bufio.Writer\<close> and a connection that can break at any byte; and that what
    one writes the other reads.  Lengths are 64-bit words, the bytes 8-bit words;
  \<^item> \<open>Io_Context\<close>: \<open>Close\<close> and \<open>Cancel\<close> of \<open>proto/io_context.go\<close>, one access to flag or channel per step;
    \<open>Ctx_Reader\<close>: \<open>ctxReader.Read\<close> with the goroutine each read starts, the positions of the \<open>bufio.Reader\<close> they share one
    access per step, and \<open>io.ReadFull\<close> on top of it;
    \<open>Ctx_Writer\<close>: \<open>ctxWriter.Write\<close> with its goroutines and the sticky error above it;
  \<^item> \<open>Wire_Sharing\<close>: any number of goroutines on the writer of \<open>proto/writer.go\<close>, a word at a time;
  \<^item> \<open>Client_Sync\<close>: \<open>reply.go\<close>, the synchronous half of \<open>run.go\<close> and the login of \<open>client.go\<close>; results are
    Go's pairs, and blocking on a mutex or dereferencing nil is an outcome of its own;
    \<open>Client_Conn\<close>: dialling, the login it ends with, and \<open>Close\<close>, over a network that is an argument;
    \<open>Cut_Calls\<close>: a synchronous call that \<open>Close\<close> overtakes at any write or any byte read;
  \<^item> \<open>Client_Async\<close>: asynchronous mode as a transition system over the tag map, the processors, the
    writer's mutex and the program counter of the loop; every interleaving is a sequence of steps;
    \<open>Async_Replies\<close>: what an asynchronous call returns, and what a listener is given, as a function of what the
    device said, against the synchronous call; \<open>Async_Channel\<close>: the entry points, the error channel of \<open>Async\<close> and the goroutine that
    waits for a listener's context;
  \<^item> \<open>Async_Wire\<close>, \<open>Async_Sent\<close>: the asynchronous client composed with the writer of \<open>Proto_Writer\<close> and the reader of
    \<open>Proto_Reader\<close>: what the loop reads is decoded from the bytes of the connection, what the calls send is
    written to it; \<open>Async_Drive\<close>: the loop as a function that runs to its end, and \<open>RunArgsContext\<close> of a caller
    over it; \<open>Async_Cancelled\<close>: the same call when its context is done before the answer is there;
    \<open>Async_Agree\<close>: the call against the synchronous one, byte for byte;
  \<^item> \<open>Client_Log\<close>: the log handlers of \<open>logger.go\<close> and what the client hands to them in either mode;
  \<^item> \<open>Transport_Contract\<close>: \<open>transport/contract.go\<close>, with the seams as state-passing functions;
  \<^item> \<open>Schema_Inspect\<close>, \<open>Schema_Cache\<close>, \<open>Schema_Discover\<close>: the package \<open>schema\<close>; the clock is an argument;
  \<^item> \<open>Gate1\<close> (with \<open>gate/console.go\<close>) and \<open>Gate2\<close>;
  \<^item> \<open>Client_Transport\<close>: \<open>client_transport.go\<close> over any way to run a sentence; \<open>Reply_Types\<close>: the types of the
    sentences and replies it gives; \<open>Native_Adapter\<close>: \<open>transport/nativeapi\<close> over the client's connection;
  \<^item> \<open>Orchestrate\<close>: \<open>orchestrate.go\<close>; \<open>Facade_Wire\<close>: the same pipeline down to the bytes on the connection;
    \<open>Facade_Async\<close>: the pipeline over a client in asynchronous mode whose calls a context may interrupt;
  \<^item> \<open>Mock\<close> and \<open>Ssh\<close>: \<open>transport/mock\<close> and \<open>transport/ssh\<close>;
  \<^item> \<open>Example_Programs\<close>: \<open>examples/run\<close> and \<open>examples/tab\<close>, as functions from a network to what they print and the
    connection they leave; \<open>Example_Taps\<close>, \<open>Example_Listen\<close>, \<open>Example_Multi\<close>: \<open>examples/listen\<close> and
    \<open>examples/multi_listen\<close> as transition systems, one step for each thing one of their goroutines does;
    \<open>Example_Flags\<close>: the flags of the four programs, the parsing of their command lines, and what \<open>-debug\<close> logs.

  \<^bold>\<open>Interfaces.\<close> Where a component relies on another through an interface of the code,
  the laws it uses are a locale: \<open>schema_cache\<close> (what a lookup returns after a store, a delete,
  an expiry), \<open>inspecting\<close> and \<open>answering\<close> (an inspect seam: round trips, fixed
  answers), \<open>commanding\<close> and \<open>running\<close> (a command seam, a console seam: what the
  device is handed); a \<open>running\<close> transport gives a \<open>commanding\<close> one through the
  console adapter. \<open>replying\<close> is what login asks of a client, \<open>answering_calls\<close>
  what the seam asks of a call for its replies to be typed, \<open>handle_keeping\<close> what
  \<open>Close\<close> asks of the calls before it, and \<open>conducting\<close> carries a relation between
  connections from dry sentences to the whole pipeline. \<open>conversing\<close> is what a reader of sentences keeps
  of its conversation with the device under the steps of the loop. They are interpreted on the cache, on the
  synchronous client alone and inside its connection, under a log, on asynchronous calls and on listeners, on the client's seam, on the recorded, the
  byte-level and the asynchronous connection, on the mock and on SSH.

  \<^bold>\<open>What the lemmas show.\<close>  Codec: lengths, words, sentences and structured commands
  round-trip; accepted lengths are bounded; what is read is well typed and does not depend on how the
  network cuts it up; a truncated sentence is never a sentence; a sentence reported as sent is on the
  connection, errors stick, and goroutines that share the writer write whole sentences one after the other.
  As long as no read has been interrupted, the reads of the cancellable reader are the stream of the connection; after
  an interruption they may lose bytes or return bytes that were never sent. The goroutines of interrupted
  writes never meet in the buffered writer. Dialling hands over an open
  connection or has closed it; login follows its protocol. Synchronous mode: a call always returns, frees
  the writer, and gives exactly the rows, the final sentence and the last trap; login never panics; a call
  that \<open>Close\<close> overtakes gives the result it would have given, or an error and nothing else.
  Asynchronous mode: no interleaving panics; demultiplexing is exact; the end of the loop releases
  everybody; the loop is only ever stuck on the connection or on a full listener; calls agree with
  synchronous ones; a listener ends by its own final sentence and leaves no goroutine behind while the loop
  lives. On the bytes: whatever overlaps, the connection carries whole sentences with distinct tags, flushed when a call waits; what a caller is
  given are the sentences with its tag that the bytes decode to, well typed; on a finite stream of bytes the loop
  ends with everybody released and a lone call returns, a cancelled one too; up to its own final sentence an asynchronous
  call follows the synchronous one, and where the two differ after an error is stated. Schema:
  cached answers, at most four round trips, and exactly the names of the sources. Gates: the string literals of Gate 1
  keep different texts apart and end where they should (what RouterOS makes of a \<open>$\<close> inside one is outside the code, and not
  covered), the classifier does not reject echoes, Gate 2 accepts exactly the known attributes.
  Facade: validation is a dry run, execution happens once and after the gates, down to the bytes written, in
  synchronous and in asynchronous mode; probes happen once. The log changes no result, and it holds the words of every call. Example programs: over finite streams \<open>run\<close> ends on every command line, with a status, one error or one complete reply, \<open>tab\<close> prints the
  table of the device, \<open>listen\<close> logs exactly its listener's sentences, and in \<open>multi_listen\<close> a cancellation is for the
  stream whose own context is done, so that the other ends by its own sentence or with the loop. SSH: cleaning is idempotent, trust on first use, failures stay in the taxonomy.
  Defects found on the way are lemmas as well: \<open>async_call_after_end_leaks_writer\<close>,
  \<open>async_close_gives_bare_reply\<close>, \<open>login_panics_without_done\<close>,
  \<open>cancel_close_race_panics\<close>, \<open>cancelled_read_loses_bytes\<close>, \<open>cancelled_read_invents_bytes\<close>,
  \<open>listener_waiter_outlives_loop\<close>, \<open>known_hosts_mismatch_class\<close>,
  \<open>success_line_without_survivor\<close>, \<open>facade_hangs_after_the_loop\<close>;
  \<open>string_literal_keeps_dollar\<close>; that the log of a login holds the password is a property of \<open>Client_Log\<close>.

  \<^bold>\<open>Parameters.\<close> MD5, the Go quoting of \<open>%#q\<close>, the reading of durations, the dialers of TCP and TLS,
  the SSH library, the file system and the device are arguments of the definitions that use them. In
  \<open>Client_Async\<close> what the connection does is an argument of the steps; in \<open>Async_Wire\<close> and everything above it is
  computed from the bytes. How the goroutines interleave is the sequence of the steps.

  \<^bold>\<open>The connection.\<close> What a connection delivers is a finite list of bytes followed by an error (end of file or
  another). A device that answers nothing and keeps the connection open is not a value of the model: the code then
  blocks in the read, in synchronous mode, in the loop and in login. Safety properties, which hold of every prefix of a
  run, do not depend on this; that a call returns, that the loop ends and that a program ends does, and their texts say so.
  The same properties let the readers of open listeners keep reading.

  \<^bold>\<open>Bounds.\<close> No definition runs on fuel: every loop is structurally recursive or has a
  termination proof (reading loops, the asynchronous loop among them, consume input). \<open>tab\<close>, which
  never returns, has its number of rounds as an argument. The tag counter of asynchronous mode and the round-trip
  counter are natural numbers; in the code they are 64-bit and would wrap after 2^63 requests.

  \<^bold>\<open>Not modelled.\<close>  A listener takes its tag and the writer in one step (the code numbers the tag before it
  waits for the mutex, which can only change the order of the numbers); \<open>Close\<close> of the SSH transport without its nil
  test, since a dialled transport always has a connection; what a log handler does with a record; data races on unlocked fields;
  a second call on a client while or after it is closed, beyond a synchronous call's cut and the steps of
  \<open>Async_Wire\<close>; in the example programs the usage text, debug lines, the format of log lines (an event holds what is
  logged) and the timers: a sleep or a deadline that ends is a step that may be taken at any time.
\<close>

end
